(* ===== verification/Prelude.thy ===== *)
theory Prelude
  imports Main "HOL-Library.Word" "HOL-Library.Multiset"
begin

text \<open>
  Shared vocabulary of the development: the machine integer types of the C++ code, the faults
  that stand for undefined behaviour, exceptions and program termination, the result type
  with its sequencing operators, and the generic list lemmas the component theories use.

  \<^item> \<^verbatim>\<open>uint32_t\<close>, \<^verbatim>\<open>uint64_t\<close>, \<^verbatim>\<open>short\<close> are words of that width; \<open>+\<close> and \<open>-\<close> wrap around.
  \<^item> A computation that can go wrong returns \<open>fault + 'a\<close>: \<open>Inl\<close> the fault, \<open>Inr\<close> the value.
  \<^item> \<open>fallible_machine\<close> and \<open>total_machine\<close> are the contracts of a state with
    operations that keep an invariant; every stateful component interprets them.
\<close>

section \<open>Types\<close>

type_synonym u8 = "8 word"
type_synonym u16 = "16 word"
type_synonym u32 = "32 word"
type_synonym u64 = "64 word"
type_synonym i16 = "16 word"
type_synonym bytes = "8 word list"

text \<open>
  The ways the program can fail: a null \<^verbatim>\<open>shared_ptr\<close> or table field is dereferenced; a vector is
  indexed or a buffer accessed outside its bounds; a floating point value is converted to an integer
  type that cannot hold it; an object, iterator or buffer is used after its lifetime; an
  indeterminate variable is read; the standard library throws; \<^verbatim>\<open>std::terminate\<close> is called.
\<close>

datatype fault =
    NullDeref
  | OutOfBounds
  | BadConversion
  | UseAfterFree
  | IndeterminateRead
  | InvalidArgument
  | OutOfRange
  | SystemError
  | Terminate

type_synonym 'a result = "fault + 'a"

section \<open>Sequencing of fallible computations\<close>

definition rbind :: "'a result \<Rightarrow> ('a \<Rightarrow> 'b result) \<Rightarrow> 'b result" where
  "rbind m f = (case m of Inl e \<Rightarrow> Inl e | Inr x \<Rightarrow> f x)"

definition is_ok :: "'a result \<Rightarrow> bool" where
  "is_ok m = (case m of Inl _ \<Rightarrow> False | Inr _ \<Rightarrow> True)"

definition of_option :: "fault \<Rightarrow> 'a option \<Rightarrow> 'a result" where
  "of_option e x = (case x of None \<Rightarrow> Inl e | Some v \<Rightarrow> Inr v)"

text \<open>Applies a fallible function to each element of a list, from the first on.\<close>

fun rmap :: "('a \<Rightarrow> 'b result) \<Rightarrow> 'a list \<Rightarrow> 'b list result" where
  "rmap f [] = Inr []"
| "rmap f (x # xs) = rbind (f x) (\<lambda>y. rbind (rmap f xs) (\<lambda>ys. Inr (y # ys)))"

text \<open>A loop over a list that stops at the first fault.\<close>

fun rfold :: "('s \<Rightarrow> 'e \<Rightarrow> 's result) \<Rightarrow> 's \<Rightarrow> 'e list \<Rightarrow> 's result" where
  "rfold f s [] = Inr s"
| "rfold f s (e # es) = rbind (f s e) (\<lambda>s'. rfold f s' es)"

named_theorems result_simps "evaluation of fallible computations"

lemma rbind_simps [simp, result_simps]:
  "rbind (Inl e) f = Inl e"
  "rbind (Inr x) f = f x"
  by (simp_all add: rbind_def)

lemma rbind_Inr_iff [result_simps]: "rbind m f = Inr y \<longleftrightarrow> (\<exists>x. m = Inr x \<and> f x = Inr y)"
  by (cases m) auto

lemma rbind_Inl_iff: "rbind m f = Inl e \<longleftrightarrow> m = Inl e \<or> (\<exists>x. m = Inr x \<and> f x = Inl e)"
  by (cases m) auto

lemma is_ok_simps [simp, result_simps]:
  "is_ok (Inr x)"
  "\<not> is_ok (Inl e)"
  by (simp_all add: is_ok_def)

lemma is_ok_iff: "is_ok m \<longleftrightarrow> (\<exists>x. m = Inr x)"
  by (cases m) auto

lemma case_ok_iff: "(case m of Inl _ \<Rightarrow> False | Inr x \<Rightarrow> P x) \<longleftrightarrow> (\<exists>x. m = Inr x \<and> P x)"
  by (cases m) auto

lemma of_option_simps [simp, result_simps]:
  "of_option e None = Inl e"
  "of_option e (Some v) = Inr v"
  by (simp_all add: of_option_def)

lemma of_option_Inr_iff [result_simps]: "of_option e x = Inr v \<longleftrightarrow> x = Some v"
  by (cases x) auto

lemma rfold_append: "rfold f s (xs @ ys) = rbind (rfold f s xs) (\<lambda>s'. rfold f s' ys)"
proof (induction xs arbitrary: s)
  case (Cons x xs)
  then show ?case by (cases "f s x") simp_all
qed simp

lemma rmap_map: "(\<And>x. x \<in> set xs \<Longrightarrow> f x = Inr (g x)) \<Longrightarrow> rmap f xs = Inr (map g xs)"
  by (induction xs) auto

section \<open>Machines that keep an invariant\<close>

locale fallible_machine =
  fixes step :: "'s \<Rightarrow> 'e \<Rightarrow> 's result"
    and inv :: "'s \<Rightarrow> bool"
    and ok :: "'e \<Rightarrow> bool"
  assumes step_inv: "inv s \<Longrightarrow> ok e \<Longrightarrow> step s e = Inr s' \<Longrightarrow> inv s'"
begin

lemma run_inv: "inv s \<Longrightarrow> list_all ok es \<Longrightarrow> rfold step s es = Inr s' \<Longrightarrow> inv s'"
proof (induction es arbitrary: s)
  case (Cons e es)
  then show ?case by (auto simp: rbind_Inr_iff intro: step_inv)
qed simp

end

text \<open>A machine whose steps never fault either; then whole runs succeed.\<close>

locale total_machine = fallible_machine +
  assumes step_ok: "inv s \<Longrightarrow> ok e \<Longrightarrow> is_ok (step s e)"
begin

lemma run_ok: "inv s \<Longrightarrow> list_all ok es \<Longrightarrow> is_ok (rfold step s es)"
proof (induction es arbitrary: s)
  case (Cons e es)
  then obtain s' where s': "step s e = Inr s'"
    using step_ok by (fastforce simp: is_ok_iff)
  with Cons show ?case by (auto intro: step_inv)
qed simp

lemma run_total: "inv s \<Longrightarrow> list_all ok es \<Longrightarrow> \<exists>s'. rfold step s es = Inr s' \<and> inv s'"
  using run_ok run_inv by (metis is_ok_iff)

end

text \<open>
  A machine with a reflexive and transitive progress relation between states: what each step
  respects, each run respects.
\<close>

locale monotone_machine = fallible_machine +
  fixes le :: "'s \<Rightarrow> 's \<Rightarrow> bool"
  assumes le_refl: "le s s"
    and le_trans: "le s t \<Longrightarrow> le t u \<Longrightarrow> le s u"
    and step_le: "inv s \<Longrightarrow> ok e \<Longrightarrow> step s e = Inr s' \<Longrightarrow> le s s'"
begin

lemma run_le: "inv s \<Longrightarrow> list_all ok es \<Longrightarrow> rfold step s es = Inr s' \<Longrightarrow> le s s'"
proof (induction es arbitrary: s)
  case Nil
  then show ?case by (simp add: le_refl)
next
  case (Cons e es)
  then obtain t where t: "step s e = Inr t" "rfold step t es = Inr s'"
    by (auto simp: rbind_Inr_iff)
  with Cons have "le s t" "le t s'"
    by (auto intro: step_le step_inv)
  then show ?case by (rule le_trans)
qed

end

section \<open>Words\<close>

lemma word_less_add_1:
  fixes x :: "'a::len word"
  assumes "x \<noteq> - 1"
  shows "x < x + 1"
proof -
  have "unat x + 1 \<noteq> 2 ^ LENGTH('a)"
  proof
    assume "unat x + 1 = 2 ^ LENGTH('a)"
    then have "(of_nat (unat x + 1) :: 'a word) = of_nat (2 ^ LENGTH('a))" by (rule arg_cong)
    then have "x + 1 = 0" by (simp add: add.commute)
    with assms show False by (simp add: eq_neg_iff_add_eq_0)
  qed
  moreover have "unat x < 2 ^ LENGTH('a)" using unsigned_less[of x] by simp
  ultimately have "unat x + 1 < 2 ^ LENGTH('a)" by linarith
  then show ?thesis by (simp add: word_less_nat_alt unat_word_ariths)
qed

section \<open>Lists\<close>

lemma map_of_tabulate:
  "map_of (map (\<lambda>k. (k, f k)) ks) k = (if k \<in> set ks then Some (f k) else None)"
  by (induction ks) auto

lemma filter_neq_notin: "x \<notin> set xs \<Longrightarrow> filter (\<lambda>y. y \<noteq> x) xs = xs"
  by (induction xs) auto

lemma distinct_split_unique:
  assumes "distinct (xs @ k # ys)" and "xs @ k # ys = xs' @ k # ys'"
  shows "xs = xs' \<and> ys = ys'"
  using assms by (metis append_Cons_eq_iff distinct_append not_distinct_conv_prefix
      distinct.simps(2))

lemma dropWhile_neq_Cons:
  assumes "k \<in> set ks"
  shows "\<exists>ys. dropWhile (\<lambda>x. x \<noteq> k) ks = k # ys"
  using assms by (induction ks) auto

end
