(* ===== verification/Bytes.thy ===== *)
theory Bytes
  imports Prelude
begin

text \<open>
  Bytes of machine words, as the header (\<^verbatim>\<open>src/src/message/header.hpp\<close>) stores them. \<open>le_bytes n x\<close>
  is the object representation of an \<open>n\<close>-byte unsigned integer on a little-endian host, and
  \<open>le_word\<close> reads one back. A fixed-width codec is an interpretation of \<open>byte_codec\<close>.
\<close>

unbundle bit_operations_syntax

definition le_bytes :: "nat \<Rightarrow> 'a::len word \<Rightarrow> bytes" where
  "le_bytes n x = map (\<lambda>i. ucast (drop_bit (8 * i) x)) [0..<n]"

fun le_word :: "bytes \<Rightarrow> 'a::len word" where
  "le_word [] = 0"
| "le_word (b # bs) = ucast b OR push_bit 8 (le_word bs)"

text \<open>
  A region of memory: reading and writing \<open>n\<close> bytes at an offset, which is out of bounds unless
  the whole range lies inside.
\<close>

definition buf_read :: "bytes \<Rightarrow> nat \<Rightarrow> nat \<Rightarrow> bytes result" where
  "buf_read buf off n =
     (if off + n \<le> length buf then Inr (take n (drop off buf)) else Inl OutOfBounds)"

definition buf_write :: "bytes \<Rightarrow> nat \<Rightarrow> bytes \<Rightarrow> bytes result" where
  "buf_write buf off bs =
     (if off + length bs \<le> length buf
      then Inr (take off buf @ bs @ drop (off + length bs) buf) else Inl OutOfBounds)"

section \<open>Fixed-width codecs\<close>

locale byte_codec =
  fixes enc :: "'a \<Rightarrow> bytes"
    and dec :: "bytes \<Rightarrow> 'a"
    and width :: nat
  assumes length_enc: "length (enc x) = width"
    and dec_enc: "dec (enc x) = x"
begin

lemma enc_inject: "enc x = enc y \<longleftrightarrow> x = y"
  using dec_enc by metis

lemma dec_prefix: "dec (take width (enc x @ rest)) = x"
  by (simp add: length_enc dec_enc)

lemma read_after_write:
  assumes "buf_write buf off (enc x) = Inr buf'"
  shows "rbind (buf_read buf' off width) (\<lambda>bs. Inr (dec bs)) = Inr x"
proof -
  from assms have "off + width \<le> length buf"
    and "buf' = take off buf @ enc x @ drop (off + width) buf"
    by (auto simp: buf_write_def length_enc split: if_splits)
  then show ?thesis by (simp add: buf_read_def length_enc dec_enc)
qed

end

section \<open>Words and their bytes\<close>

lemma length_le_bytes [simp]: "length (le_bytes n x) = n"
  by (simp add: le_bytes_def)

lemma bit_le_word:
  "bit (le_word bs :: 'a::len word) n \<longleftrightarrow>
     n < LENGTH('a) \<and> n < 8 * length bs \<and> bit (bs ! (n div 8)) (n mod 8)"
proof (induction bs arbitrary: n)
  case (Cons b bs)
  show ?case
  proof (cases "n < 8")
    case True
    then show ?thesis by (auto simp: bit_simps)
  next
    case False
    then have "n div 8 = Suc ((n - 8) div 8)" "n mod 8 = (n - 8) mod 8"
      by (simp_all add: le_div_geq le_mod_geq)
    moreover have "\<not> bit b n" using False by (auto dest: bit_imp_le_length)
    ultimately show ?thesis using False Cons.IH[of "n - 8"] by (auto simp: bit_simps)
  qed
qed simp

lemma le_word_bytes:
  assumes "LENGTH('a) \<le> 8 * n"
  shows "le_word (le_bytes n (x :: 'a::len word)) = x"
proof (rule bit_word_eqI)
  fix i assume i: "i < LENGTH('a)"
  then have "i div 8 < n" using assms by simp
  moreover have "8 * (i div 8) + i mod 8 = i" by simp
  ultimately show "bit (le_word (le_bytes n x) :: 'a word) i = bit x i"
    using i assms by (simp add: bit_le_word le_bytes_def bit_simps)
qed

interpretation le16: byte_codec "le_bytes 2 :: u16 \<Rightarrow> bytes" le_word 2
  by standard (simp_all add: le_word_bytes)

interpretation le32: byte_codec "le_bytes 4 :: u32 \<Rightarrow> bytes" le_word 4
  by standard (simp_all add: le_word_bytes)

interpretation le64: byte_codec "le_bytes 8 :: u64 \<Rightarrow> bytes" le_word 8
  by standard (simp_all add: le_word_bytes)

lemma buf_write_length: "buf_write buf off bs = Inr buf' \<Longrightarrow> length buf' = length buf"
  by (auto simp: buf_write_def split: if_splits)

lemma buf_read_length: "buf_read buf off n = Inr bs \<Longrightarrow> length bs = n"
  by (auto simp: buf_read_def split: if_splits)

end
