(* ===== verification/Flat_Vector.thy ===== *)
theory Flat_Vector
  imports Bytes
begin

text \<open>
  \<^verbatim>\<open>class vector_downward\<close> of \<^verbatim>\<open>src/thirdparty/flatbuffers/flatbuffers.h\<close>: the byte vector that
  \<^verbatim>\<open>FlatBufferBuilder\<close> fills from its end to its beginning. A vector is its allocation and the position
  \<^verbatim>\<open>cur_\<close> in it; \<open>alloc\<close> is what a new allocation of a given size holds. The vector implements a
  list that grows at its head (\<open>vd_content\<close>), and this list is the buffer of the theory
  \<open>Flat_Builder\<close>. Failed assertions are the fault \<open>Terminate\<close>.
\<close>

section \<open>Operations\<close>

record vector_downward =
  vd_reserved :: nat
  vd_buf :: bytes
  vd_cur :: nat

definition vd_size :: "vector_downward \<Rightarrow> nat" where
  "vd_size v = vd_reserved v - vd_cur v"

definition vd_new :: "(nat \<Rightarrow> bytes) \<Rightarrow> nat \<Rightarrow> vector_downward result" where
  "vd_new alloc initial_size =
     (if initial_size mod 8 \<noteq> 0 then Inl Terminate
      else Inr \<lparr>vd_reserved = initial_size, vd_buf = alloc initial_size, vd_cur = initial_size\<rparr>)"

definition vd_clear :: "vector_downward \<Rightarrow> vector_downward" where
  "vd_clear v = v\<lparr>vd_cur := vd_reserved v\<rparr>"

text \<open>\<^verbatim>\<open>(bytes / 2) & ~7\<close>, and rounding up to a multiple of 8.\<close>

definition growth_policy :: "nat \<Rightarrow> nat" where
  "growth_policy n = n div 2 - (n div 2) mod 8"

definition round_up8 :: "nat \<Rightarrow> nat" where
  "round_up8 n = (n + 7) - (n + 7) mod 8"

text \<open>A buffer must stay below this size, the limit the assertion of \<^verbatim>\<open>make_space\<close> states.\<close>

definition max_size :: nat where
  "max_size = 2 ^ 31 - 1"

definition size_ok :: "nat \<Rightarrow> bool" where
  "size_ok n \<longleftrightarrow> int n < 2 ^ 31 - 1"

definition vd_grow :: "(nat \<Rightarrow> bytes) \<Rightarrow> vector_downward \<Rightarrow> nat \<Rightarrow> vector_downward" where
  "vd_grow alloc v len =
     (let old_size = vd_size v;
          reserved = round_up8 (vd_reserved v + max len (growth_policy (vd_reserved v)));
          new_cur = reserved - old_size;
          new_buf = take new_cur (alloc reserved) @ take old_size (drop (vd_cur v) (vd_buf v))
      in \<lparr>vd_reserved = reserved, vd_buf = new_buf, vd_cur = new_cur\<rparr>)"

definition make_space :: "(nat \<Rightarrow> bytes) \<Rightarrow> vector_downward \<Rightarrow> nat \<Rightarrow> vector_downward result" where
  "make_space alloc v len =
     (let v1 = (if vd_cur v < len then vd_grow alloc v len else v);
          v2 = v1\<lparr>vd_cur := vd_cur v1 - len\<rparr>
      in if size_ok (vd_size v2) then Inr v2 else Inl Terminate)"

definition vd_push :: "(nat \<Rightarrow> bytes) \<Rightarrow> vector_downward \<Rightarrow> bytes \<Rightarrow> vector_downward result" where
  "vd_push alloc v bs =
     rbind (make_space alloc v (length bs)) (\<lambda>v'.
       rbind (buf_write (vd_buf v') (vd_cur v') bs) (\<lambda>buf. Inr (v'\<lparr>vd_buf := buf\<rparr>)))"

definition vd_fill :: "(nat \<Rightarrow> bytes) \<Rightarrow> vector_downward \<Rightarrow> nat \<Rightarrow> vector_downward result" where
  "vd_fill alloc v zero_pad_bytes = vd_push alloc v (replicate zero_pad_bytes 0)"

definition vd_pop :: "vector_downward \<Rightarrow> nat \<Rightarrow> vector_downward" where
  "vd_pop v bytes_to_remove = v\<lparr>vd_cur := vd_cur v + bytes_to_remove\<rparr>"

section \<open>The list it implements\<close>

definition vd_content :: "vector_downward \<Rightarrow> bytes" where
  "vd_content v = drop (vd_cur v) (vd_buf v)"

definition vd_inv :: "vector_downward \<Rightarrow> bool" where
  "vd_inv v \<longleftrightarrow> length (vd_buf v) = vd_reserved v \<and> vd_cur v \<le> vd_reserved v \<and> vd_reserved v mod 8 = 0"

text \<open>What is assumed of an allocation: it has the requested size.\<close>

definition alloc_ok :: "(nat \<Rightarrow> bytes) \<Rightarrow> bool" where
  "alloc_ok alloc \<longleftrightarrow> (\<forall>n. length (alloc n) = n)"

lemma size_ok_iff: "size_ok n \<longleftrightarrow> n < max_size"
  by (simp add: size_ok_def max_size_def)

lemma vd_size_content: "vd_inv v \<Longrightarrow> vd_size v = length (vd_content v)"
  by (simp add: vd_inv_def vd_size_def vd_content_def)

lemma round_up8: "n \<le> round_up8 n" "round_up8 n mod 8 = 0" "round_up8 n < n + 8"
proof -
  have "round_up8 n = 8 * ((n + 7) div 8)" unfolding round_up8_def by (metis minus_mod_eq_mult_div)
  then show "n \<le> round_up8 n" "round_up8 n mod 8 = 0" "round_up8 n < n + 8" by simp_all
qed

lemma vd_grow_spec:
  assumes "vd_inv v" "alloc_ok alloc"
  shows "vd_inv (vd_grow alloc v len)" "vd_content (vd_grow alloc v len) = vd_content v"
    "vd_cur v < len \<Longrightarrow> len \<le> vd_cur (vd_grow alloc v len)"
    "vd_size (vd_grow alloc v len) = vd_size v"
proof -
  let ?r = "round_up8 (vd_reserved v + max len (growth_policy (vd_reserved v)))"
  have r: "vd_reserved v + len \<le> ?r" "vd_size v \<le> ?r" "?r mod 8 = 0" "length (alloc ?r) = ?r"
    using round_up8(1,2)[of "vd_reserved v + max len (growth_policy (vd_reserved v))"] assms(2)
    by (simp_all add: vd_size_def alloc_ok_def)
  have c: "length (drop (vd_cur v) (vd_buf v)) = vd_size v"
    using assms(1) by (simp add: vd_inv_def vd_size_def)
  show "vd_inv (vd_grow alloc v len)" "vd_content (vd_grow alloc v len) = vd_content v"
    "vd_cur v < len \<Longrightarrow> len \<le> vd_cur (vd_grow alloc v len)"
    "vd_size (vd_grow alloc v len) = vd_size v"
    using r c by (simp_all add: vd_grow_def Let_def vd_inv_def vd_content_def vd_size_def) linarith
qed

lemma make_space_spec:
  assumes "vd_inv v" "alloc_ok alloc"
  shows "if length (vd_content v) + len < max_size
    then \<exists>v'. make_space alloc v len = Inr v' \<and> vd_inv v' \<and> drop len (vd_content v') = vd_content v \<and>
      vd_cur v' + len \<le> length (vd_buf v')
    else make_space alloc v len = Inl Terminate"
proof -
  define v1 where "v1 = (if vd_cur v < len then vd_grow alloc v len else v)"
  have v1: "vd_inv v1" "vd_content v1 = vd_content v" "len \<le> vd_cur v1"
    using vd_grow_spec[OF assms] assms(1) by (auto simp: v1_def not_less)
  let ?v2 = "v1\<lparr>vd_cur := vd_cur v1 - len\<rparr>"
  have "vd_inv ?v2" using v1 by (auto simp: vd_inv_def)
  moreover have "drop len (vd_content ?v2) = vd_content v" using v1 by (simp add: vd_content_def)
  moreover have "vd_size ?v2 = length (vd_content v) + len"
    using v1 vd_size_content[OF v1(1)] by (simp add: vd_size_def vd_inv_def) linarith
  moreover have "vd_cur ?v2 + len \<le> length (vd_buf ?v2)" using v1 by (simp add: vd_inv_def)
  ultimately show ?thesis by (simp add: make_space_def v1_def[symmetric] Let_def size_ok_iff)
qed

text \<open>
  The downward vector implements prepending to a list: from a well-formed vector, whatever its capacity and
  whatever a new allocation holds, \<^verbatim>\<open>push\<close> puts the bytes in front of the content, and fails
  its size assertion exactly when the result would not stay below \<^verbatim>\<open>2^31 - 1\<close> bytes. Growing moves
  the content without changing it.
\<close>

theorem vd_push_prepends:
  assumes "vd_inv v" "alloc_ok alloc"
  shows "if length bs + length (vd_content v) < max_size
    then \<exists>v'. vd_push alloc v bs = Inr v' \<and> vd_inv v' \<and> vd_content v' = bs @ vd_content v
    else vd_push alloc v bs = Inl Terminate"
proof (cases "length (vd_content v) + length bs < max_size")
  case True
  then obtain v1 where v1: "make_space alloc v (length bs) = Inr v1" "vd_inv v1"
    "drop (length bs) (vd_content v1) = vd_content v" "vd_cur v1 + length bs \<le> length (vd_buf v1)"
    using make_space_spec[OF assms, of "length bs"] by auto
  let ?buf = "take (vd_cur v1) (vd_buf v1) @ bs @ drop (vd_cur v1 + length bs) (vd_buf v1)"
  have "vd_push alloc v bs = Inr (v1\<lparr>vd_buf := ?buf\<rparr>)"
    using v1 by (simp add: vd_push_def buf_write_def)
  moreover have "vd_inv (v1\<lparr>vd_buf := ?buf\<rparr>)" "vd_content (v1\<lparr>vd_buf := ?buf\<rparr>) = bs @ vd_content v"
    using v1(2,4) v1(3)[symmetric] by (simp_all add: vd_inv_def vd_content_def add.commute)
  ultimately show ?thesis using True by (simp add: add.commute)
next
  case False
  then show ?thesis using make_space_spec[OF assms, of "length bs"] by (simp add: vd_push_def add.commute)
qed

theorem vd_push_prepends_witness:
  "\<exists>v'. vd_push (\<lambda>n. replicate n 7) \<lparr>vd_reserved = 8, vd_buf = [0, 0, 0, 0, 0, 1, 2, 3], vd_cur = 5\<rparr> [4, 5, 6, 7, 8, 9, 10] = Inr v' \<and>
    vd_content v' = [4, 5, 6, 7, 8, 9, 10, 1, 2, 3]"
  using vd_push_prepends[of "\<lparr>vd_reserved = 8, vd_buf = [0, 0, 0, 0, 0, 1, 2, 3], vd_cur = 5\<rparr>" "\<lambda>n. replicate n 7"
      "[4, 5, 6, 7, 8, 9, 10]"]
  by (auto simp: vd_inv_def alloc_ok_def vd_content_def max_size_def)

end
