(* ===== verification/Flat_Builder.thy ===== *)
theory Flat_Builder
  imports Flat_Vector
begin

text \<open>
  \<^verbatim>\<open>class FlatBufferBuilder\<close> of \<^verbatim>\<open>src/thirdparty/flatbuffers/flatbuffers.h\<close>, byte for byte: the part the generated
  message code and the gossiper call. The buffer is the content of the downward vector (theory
  \<open>Flat_Vector\<close>), lowest address first; an \<^verbatim>\<open>Offset\<close> counts from the end of the buffer, 0 is null. A
  scalar of type \<^verbatim>\<open>T\<close> is a word of its width, written in little-endian order. Failed assertions
  are the fault \<open>Terminate\<close>.
  What the operations leave in the buffer is stated in the theory \<open>Flat_Layout\<close>.
\<close>

unbundle bit_operations_syntax

section \<open>State and scalars\<close>

record FlatBufferBuilder =
  fbb_buf :: bytes
  fbb_offsetbuf :: "(nat \<times> nat) list"
  fbb_nested :: bool
  fbb_finished :: bool
  fbb_vtables :: "nat list"
  fbb_minalign :: nat
  fbb_force_defaults :: bool

definition FlatBufferBuilder_new :: FlatBufferBuilder where
  "FlatBufferBuilder_new = \<lparr>fbb_buf = [], fbb_offsetbuf = [], fbb_nested = False, fbb_finished = False,
     fbb_vtables = [], fbb_minalign = 1, fbb_force_defaults = False\<rparr>"

definition Clear :: "FlatBufferBuilder \<Rightarrow> FlatBufferBuilder" where
  "Clear b = b\<lparr>fbb_buf := [], fbb_offsetbuf := [], fbb_nested := False, fbb_finished := False,
     fbb_vtables := [], fbb_minalign := 1\<rparr>"

definition GetSize :: "FlatBufferBuilder \<Rightarrow> nat" where
  "GetSize b = length (fbb_buf b)"

definition GetBufferPointer :: "FlatBufferBuilder \<Rightarrow> bytes result" where
  "GetBufferPointer b = (if fbb_finished b then Inr (fbb_buf b) else Inl Terminate)"

text \<open>\<^verbatim>\<open>sizeof(T)\<close>.\<close>

definition sizeof :: "'a::len word itself \<Rightarrow> nat" where
  "sizeof _ = LENGTH('a) div 8"

definition PaddingBytes :: "nat \<Rightarrow> nat \<Rightarrow> nat" where
  "PaddingBytes buf_size scalar_size =
     unat ((NOT (of_nat buf_size :: u64) + 1) AND (of_nat scalar_size - 1))"

definition FieldIndexToOffset :: "nat \<Rightarrow> u16" where
  "FieldIndexToOffset field_id = of_nat ((field_id + 2) * 2)"

definition fb_push :: "FlatBufferBuilder \<Rightarrow> bytes \<Rightarrow> FlatBufferBuilder result" where
  "fb_push b bs =
     (if size_ok (length bs + length (fbb_buf b)) then Inr (b\<lparr>fbb_buf := bs @ fbb_buf b\<rparr>) else Inl Terminate)"

abbreviation fb_fill :: "FlatBufferBuilder \<Rightarrow> nat \<Rightarrow> FlatBufferBuilder result" where
  "fb_fill b n \<equiv> fb_push b (replicate n 0)"

definition Align :: "FlatBufferBuilder \<Rightarrow> nat \<Rightarrow> FlatBufferBuilder result" where
  "Align b elem_size =
     fb_fill (if fbb_minalign b < elem_size then b\<lparr>fbb_minalign := elem_size\<rparr> else b)
       (PaddingBytes (GetSize b) elem_size)"

definition PushElement :: "FlatBufferBuilder \<Rightarrow> 'a::len word \<Rightarrow> (nat \<times> FlatBufferBuilder) result" where
  "PushElement b element =
     rbind (Align b (sizeof TYPE('a word))) (\<lambda>b1.
     rbind (fb_push b1 (le_bytes (sizeof TYPE('a word)) element)) (\<lambda>b2.
       Inr (GetSize b2, b2)))"

section \<open>Tables\<close>

definition TrackField :: "FlatBufferBuilder \<Rightarrow> nat \<Rightarrow> nat \<Rightarrow> FlatBufferBuilder" where
  "TrackField b field off = b\<lparr>fbb_offsetbuf := fbb_offsetbuf b @ [(off, field)]\<rparr>"

definition AddElement :: "FlatBufferBuilder \<Rightarrow> nat \<Rightarrow> 'a::len word \<Rightarrow> 'a word \<Rightarrow> FlatBufferBuilder result" where
  "AddElement b field e def =
     (if e = def \<and> \<not> fbb_force_defaults b then Inr b
      else rbind (PushElement b e) (\<lambda>(off, b1). Inr (TrackField b1 field off)))"

definition ReferTo :: "FlatBufferBuilder \<Rightarrow> nat \<Rightarrow> (u32 \<times> FlatBufferBuilder) result" where
  "ReferTo b off =
     rbind (Align b 4) (\<lambda>b1.
       if off \<noteq> 0 \<and> off \<le> GetSize b1 then Inr (of_nat (GetSize b1 - off + 4), b1) else Inl Terminate)"

definition AddOffset :: "FlatBufferBuilder \<Rightarrow> nat \<Rightarrow> nat \<Rightarrow> FlatBufferBuilder result" where
  "AddOffset b field off =
     (if off = 0 then Inr b else rbind (ReferTo b off) (\<lambda>(r, b1). AddElement b1 field r 0))"

definition PushOffset :: "FlatBufferBuilder \<Rightarrow> nat \<Rightarrow> (nat \<times> FlatBufferBuilder) result" where
  "PushOffset b off = rbind (ReferTo b off) (\<lambda>(r, b1). PushElement b1 r)"

definition StartTable :: "FlatBufferBuilder \<Rightarrow> (nat \<times> FlatBufferBuilder) result" where
  "StartTable b = (if fbb_nested b then Inl Terminate else Inr (GetSize b, b\<lparr>fbb_nested := True\<rparr>))"

text \<open>The loop of \<^verbatim>\<open>EndTable\<close> that fills in the vtable, and the one that looks for an equal vtable.\<close>

definition read16 :: "bytes \<Rightarrow> nat \<Rightarrow> u16 result" where
  "read16 buf p = rbind (buf_read buf p 2) (\<lambda>bs. Inr (le_word bs))"

definition write_field :: "nat \<Rightarrow> bytes \<Rightarrow> nat \<times> nat \<Rightarrow> bytes result" where
  "write_field vtloc buf = (\<lambda>(off, id).
     rbind (read16 buf id) (\<lambda>old.
       if old \<noteq> 0 then Inl Terminate else buf_write buf id (le_bytes 2 (of_nat (vtloc - off) :: u16))))"

fun find_vtable :: "bytes \<Rightarrow> u16 \<Rightarrow> nat list \<Rightarrow> nat option result" where
  "find_vtable buf vt1_size [] = Inr None"
| "find_vtable buf vt1_size (it # its) =
     rbind (read16 buf (length buf - it)) (\<lambda>vt2_size.
       if vt1_size \<noteq> vt2_size then find_vtable buf vt1_size its
       else
         rbind (buf_read buf (length buf - it) (unat vt1_size)) (\<lambda>vt2.
         rbind (buf_read buf 0 (unat vt1_size)) (\<lambda>vt1.
           if vt2 \<noteq> vt1 then find_vtable buf vt1_size its else Inr (Some it))))"

text \<open>The end of \<^verbatim>\<open>EndTable\<close>: drop the new vtable if an equal one was found, else remember it, and point the table to it.\<close>

definition use_vtable :: "FlatBufferBuilder \<Rightarrow> nat \<Rightarrow> nat option \<Rightarrow> (nat \<times> FlatBufferBuilder) result" where
  "use_vtable b vtloc found =
     (let (vt_use, b1) =
            (case found of
               None \<Rightarrow> (GetSize b, b)
             | Some it \<Rightarrow> (it, b\<lparr>fbb_buf := drop (GetSize b - vtloc) (fbb_buf b)\<rparr>));
          b2 = (if vt_use = GetSize b1 then b1\<lparr>fbb_vtables := fbb_vtables b1 @ [vt_use]\<rparr> else b1)
      in rbind (buf_write (fbb_buf b2) (GetSize b2 - vtloc)
                  (le_bytes 4 (of_nat vt_use - of_nat vtloc :: u32))) (\<lambda>buf.
           Inr (vtloc, b2\<lparr>fbb_buf := buf, fbb_nested := False\<rparr>)))"

definition EndTable :: "FlatBufferBuilder \<Rightarrow> nat \<Rightarrow> nat \<Rightarrow> (nat \<times> FlatBufferBuilder) result" where
  "EndTable b start numfields =
     (if \<not> fbb_nested b then Inl Terminate
      else
        rbind (PushElement b (0 :: u32)) (\<lambda>(vtloc, b1).
        rbind (fb_fill b1 (numfields * 2)) (\<lambda>b2.
          let table_object_size = vtloc - start
          in if \<not> int table_object_size < 0x10000 then Inl Terminate
             else
               rbind (PushElement b2 (of_nat table_object_size :: u16)) (\<lambda>(_, b3).
               rbind (PushElement b3 (FieldIndexToOffset numfields)) (\<lambda>(_, b4).
               rbind (rfold (write_field vtloc) (fbb_buf b4) (fbb_offsetbuf b4)) (\<lambda>buf5.
                 let b5 = b4\<lparr>fbb_buf := buf5, fbb_offsetbuf := []\<rparr>
                 in rbind (read16 buf5 0) (\<lambda>vt1_size.
                    rbind (find_vtable buf5 vt1_size (fbb_vtables b5)) (\<lambda>found.
                      use_vtable b5 vtloc found))))))))"

section \<open>Strings, vectors and the root\<close>

definition PreAlign :: "FlatBufferBuilder \<Rightarrow> nat \<Rightarrow> nat \<Rightarrow> FlatBufferBuilder result" where
  "PreAlign b len alignment = fb_fill b (PaddingBytes (GetSize b + len) alignment)"

definition CreateString :: "FlatBufferBuilder \<Rightarrow> string \<Rightarrow> (nat \<times> FlatBufferBuilder) result" where
  "CreateString b str =
     (if fbb_nested b then Inl Terminate
      else
        rbind (PreAlign b (length str + 1) 4) (\<lambda>b1.
        rbind (fb_fill b1 1) (\<lambda>b2.
        rbind (fb_push b2 (map of_char str)) (\<lambda>b3.
        rbind (PushElement b3 (of_nat (length str) :: u32)) (\<lambda>(_, b4).
          Inr (GetSize b4, b4))))))"

definition StartVector :: "FlatBufferBuilder \<Rightarrow> nat \<Rightarrow> nat \<Rightarrow> FlatBufferBuilder result" where
  "StartVector b len elemsize =
     (if fbb_nested b then Inl Terminate
      else
        rbind (PreAlign (b\<lparr>fbb_nested := True\<rparr>) (len * elemsize) 4) (\<lambda>b1.
          PreAlign b1 (len * elemsize) elemsize))"

definition EndVector :: "FlatBufferBuilder \<Rightarrow> nat \<Rightarrow> (nat \<times> FlatBufferBuilder) result" where
  "EndVector b len =
     (if fbb_nested b then PushElement (b\<lparr>fbb_nested := False\<rparr>) (of_nat len :: u32) else Inl Terminate)"

text \<open>\<^verbatim>\<open>CreateVector\<close> of a vector of \<^verbatim>\<open>Offset\<close>s; the elements are pushed from the last to the first.\<close>

fun push_offsets :: "FlatBufferBuilder \<Rightarrow> nat list \<Rightarrow> FlatBufferBuilder result" where
  "push_offsets b [] = Inr b"
| "push_offsets b (off # offs) =
     rbind (push_offsets b offs) (\<lambda>b1. rbind (PushOffset b1 off) (\<lambda>(_, b2). Inr b2))"

definition CreateVector :: "FlatBufferBuilder \<Rightarrow> nat list \<Rightarrow> (nat \<times> FlatBufferBuilder) result" where
  "CreateVector b v =
     rbind (StartVector b (length v) 4) (\<lambda>b1.
     rbind (push_offsets b1 v) (\<lambda>b2.
       EndVector b2 (length v)))"

definition Finish :: "FlatBufferBuilder \<Rightarrow> nat \<Rightarrow> FlatBufferBuilder result" where
  "Finish b root =
     (if fbb_nested b then Inl Terminate
      else
        rbind (PreAlign b 4 (fbb_minalign b)) (\<lambda>b1.
        rbind (PushOffset b1 root) (\<lambda>(_, b2).
          Inr (b2\<lparr>fbb_finished := True\<rparr>))))"

end
