(* ===== verification/Flat_Layout.thy ===== *)
theory Flat_Layout
  imports Flat_Builder
begin

text \<open>
  What \<^verbatim>\<open>FlatBufferBuilder\<close> leaves in its buffer. An object is found at its offset from the end of the
  buffer, and stays there while the buffer grows at its beginning (\<open>has_ext\<close>). The operations are
  total below the size limit; each one's growth is bounded.
\<close>

unbundle bit_operations_syntax

section \<open>Bytes at an offset from the end\<close>

definition has :: "bytes \<Rightarrow> nat \<Rightarrow> bytes \<Rightarrow> bool" where
  "has b o1 bs \<longleftrightarrow> length bs \<le> o1 \<and> o1 \<le> length b \<and> take (length bs) (drop (length b - o1) b) = bs"

lemma has_ext:
  assumes "has b o1 bs"
  shows "has (p @ b) o1 bs"
proof -
  have "length (p @ b) - o1 = length p + (length b - o1)" using assms by (simp add: has_def)
  then have "drop (length (p @ b) - o1) (p @ b) = drop (length b - o1) b" by (simp only: drop_append) simp
  then show ?thesis using assms unfolding has_def by (simp del: drop_append)
qed

lemma has_front: "n = length bs + length b \<Longrightarrow> has (bs @ b) n bs"
  by (simp add: has_def)

lemma has_append_iff:
  "has b o1 (xs @ ys) \<longleftrightarrow> has b o1 xs \<and> length xs + length ys \<le> o1 \<and> has b (o1 - length xs) ys"
proof (cases "length xs + length ys \<le> o1 \<and> o1 \<le> length b")
  case True
  then have d: "drop (length b - (o1 - length xs)) b = drop (length xs) (drop (length b - o1) b)"
    by (simp add: add.commute)
  have "take (length xs + length ys) (drop (length b - o1) b) =
      take (length xs) (drop (length b - o1) b) @ take (length ys) (drop (length xs) (drop (length b - o1) b))"
    by (rule take_add)
  then show ?thesis using True unfolding has_def d by (auto simp: append_eq_append_conv)
qed (auto simp: has_def)

lemma has_le: "has b o1 bs \<Longrightarrow> length bs \<le> o1 \<and> o1 \<le> length b"
  by (simp add: has_def)

lemma has_read:
  assumes "has b o1 bs"
  shows "buf_read (pre @ b @ post) (length pre + (length b - o1)) (length bs) = Inr bs"
  using assms by (auto simp: has_def buf_read_def)

lemma has_take: "has b o1 bs \<Longrightarrow> has b o1 (take n bs)"
  using has_append_iff[of b o1 "take n bs" "drop n bs"] by simp

lemma has_drop: "has b o1 bs \<Longrightarrow> n \<le> length bs \<Longrightarrow> has b (o1 - n) (drop n bs)"
  using has_append_iff[of b o1 "take n bs" "drop n bs"] by simp

section \<open>Padding\<close>

lemma PaddingBytes_mod:
  assumes "k \<le> 3"
  shows "PaddingBytes n (2 ^ k) = unat (take_bit k (- of_nat n :: u64))"
proof -
  have k: "k \<in> {0, 1, 2, 3}" using assms by auto
  have "(of_nat (2 ^ k) - 1 :: u64) = mask k"
    using k by (auto simp: mask_eq_exp_minus_1)
  then show ?thesis by (simp add: PaddingBytes_def take_bit_eq_mask minus_eq_not_plus_1)
qed

lemma PaddingBytes_pow:
  assumes "k \<le> 3"
  shows "PaddingBytes n (2 ^ k) = (2 ^ k - n mod 2 ^ k) mod 2 ^ k"
proof -
  have k: "k < 64" using assms by simp
  have "(- of_nat n :: u64) = word_of_int (- int n)" by simp
  then have "int (PaddingBytes n (2 ^ k)) = uint (take_bit k (word_of_int (- int n) :: u64))"
    using assms by (simp only: PaddingBytes_mod uint_nat)
  also have "\<dots> = take_bit k (- int n)"
    using k by (simp only: unsigned_take_bit_eq uint_word_of_int_eq take_bit_take_bit) (simp add: min_def)
  also have "\<dots> = int ((2 ^ k - n mod 2 ^ k) mod 2 ^ k)"
    by (simp add: take_bit_eq_mod zmod_zminus1_eq_if zmod_int of_nat_diff less_imp_le)
  finally show ?thesis by simp
qed

definition scalar_size :: "nat \<Rightarrow> bool" where
  "scalar_size m \<longleftrightarrow> m \<in> {1, 2, 4, 8}"

lemma PaddingBytes_spec:
  assumes "scalar_size m"
  shows "PaddingBytes n m < m" "(PaddingBytes n m + n) mod m = 0" "n mod m = 0 \<Longrightarrow> PaddingBytes n m = 0"
proof -
  obtain k where k: "m = 2 ^ k" "k \<le> 3"
  proof -
    have "m = 2 ^ 0 \<or> m = 2 ^ 1 \<or> m = 2 ^ 2 \<or> m = 2 ^ 3" using assms by (auto simp: scalar_size_def)
    then show thesis using that by fastforce
  qed
  then have p: "PaddingBytes n m = (m - n mod m) mod m" by (simp add: PaddingBytes_pow)
  have m: "0 < m" using k by simp
  then show "PaddingBytes n m < m" by (simp add: p)
  have "(m - n mod m + n) mod m = (m - n mod m + n mod m) mod m" by (simp add: mod_add_right_eq)
  also have "\<dots> = 0" using m by (simp add: less_imp_le)
  finally show "(PaddingBytes n m + n) mod m = 0" by (simp add: p mod_add_left_eq)
  show "n mod m = 0 \<Longrightarrow> PaddingBytes n m = 0" by (simp add: p)
qed

section \<open>Scalars\<close>

lemma fb_push_ok: "length bs + length (fbb_buf b) < max_size \<Longrightarrow> fb_push b bs = Inr (b\<lparr>fbb_buf := bs @ fbb_buf b\<rparr>)"
  by (simp add: fb_push_def size_ok_iff)

lemma Align_ok:
  assumes "scalar_size m" "length (fbb_buf b) + m \<le> max_size"
  shows "\<exists>p. Align b m = Inr (b\<lparr>fbb_buf := p @ fbb_buf b, fbb_minalign := max m (fbb_minalign b)\<rparr>) \<and>
    length p < m \<and> (length p + length (fbb_buf b)) mod m = 0 \<and> (length (fbb_buf b) mod m = 0 \<longrightarrow> p = [])"
proof -
  let ?n = "PaddingBytes (length (fbb_buf b)) m"
  note P = PaddingBytes_spec[OF assms(1), of "length (fbb_buf b)"]
  have "?n + length (fbb_buf b) < max_size" using P(1) assms(2) by linarith
  then have "Align b m = Inr (b\<lparr>fbb_buf := replicate ?n 0 @ fbb_buf b, fbb_minalign := max m (fbb_minalign b)\<rparr>)"
    by (auto simp: Align_def GetSize_def fb_push_ok max_def)
  then show ?thesis using P by (intro exI[of _ "replicate ?n 0"]) simp
qed

lemma PreAlign_ok:
  assumes "scalar_size m" "length (fbb_buf b) + m \<le> max_size"
  shows "\<exists>p. PreAlign b len m = Inr (b\<lparr>fbb_buf := p @ fbb_buf b\<rparr>) \<and>
    length p < m \<and> (length p + length (fbb_buf b) + len) mod m = 0"
proof -
  let ?n = "PaddingBytes (length (fbb_buf b) + len) m"
  note P = PaddingBytes_spec[OF assms(1), of "length (fbb_buf b) + len"]
  have "?n + length (fbb_buf b) < max_size" using P(1) assms(2) by linarith
  then have "PreAlign b len m = Inr (b\<lparr>fbb_buf := replicate ?n 0 @ fbb_buf b\<rparr>)"
    by (simp add: PreAlign_def GetSize_def fb_push_ok)
  then show ?thesis using P by (intro exI[of _ "replicate ?n 0"]) (simp add: add.assoc)
qed

lemma PushElement_ok:
  fixes e :: "'a::len word"
  assumes "sizeof TYPE('a word) = w" "scalar_size w" "length (fbb_buf b) + 2 * w \<le> max_size"
  shows "\<exists>p. PushElement b e = Inr (w + length p + length (fbb_buf b),
      b\<lparr>fbb_buf := le_bytes w e @ p @ fbb_buf b, fbb_minalign := max w (fbb_minalign b)\<rparr>) \<and>
    length p < w \<and> (length p + length (fbb_buf b)) mod w = 0 \<and> (length (fbb_buf b) mod w = 0 \<longrightarrow> p = [])"
proof -
  obtain p where p: "Align b w = Inr (b\<lparr>fbb_buf := p @ fbb_buf b, fbb_minalign := max w (fbb_minalign b)\<rparr>)"
    "length p < w" "(length p + length (fbb_buf b)) mod w = 0" "length (fbb_buf b) mod w = 0 \<longrightarrow> p = []"
    using Align_ok[OF assms(2), of b] assms(3) by auto
  then have "w + (length p + length (fbb_buf b)) < max_size" using assms(3) by linarith
  with p show ?thesis
    unfolding PushElement_def assms(1) by (intro exI[of _ p]) (simp add: fb_push_ok GetSize_def)
qed

lemma sizeof_simps [simp]:
  "sizeof TYPE(8 word) = 1" "sizeof TYPE(16 word) = 2" "sizeof TYPE(32 word) = 4" "sizeof TYPE(64 word) = 8"
  by (simp_all add: sizeof_def)

lemma scalar_sizes [simp]: "scalar_size 1" "scalar_size (Suc 0)" "scalar_size 2" "scalar_size 4" "scalar_size 8"
  by (simp_all add: scalar_size_def)

lemma ReferTo_ok:
  assumes "off \<noteq> 0" "off \<le> length (fbb_buf b)" "length (fbb_buf b) + 4 \<le> max_size"
  shows "\<exists>p r. ReferTo b off = Inr (r, b\<lparr>fbb_buf := p @ fbb_buf b, fbb_minalign := max 4 (fbb_minalign b)\<rparr>) \<and>
    length p < 4 \<and> (length p + length (fbb_buf b)) mod 4 = 0 \<and> unat r = 4 + length p + length (fbb_buf b) - off"
proof -
  obtain p where p: "Align b 4 = Inr (b\<lparr>fbb_buf := p @ fbb_buf b, fbb_minalign := max 4 (fbb_minalign b)\<rparr>)"
    "length p < 4" "(length p + length (fbb_buf b)) mod 4 = 0"
    using Align_ok[of 4 b] assms(3) by auto
  let ?n = "length p + length (fbb_buf b) - off + 4"
  have "?n < 2 ^ 32" using assms(3) p(2) by (simp add: max_size_def)
  then have "unat (of_nat ?n :: u32) = ?n" by (simp only: unat_of_nat) simp
  moreover have "?n = 4 + length p + length (fbb_buf b) - off" using assms(2) by simp
  ultimately show ?thesis
    using p assms by (intro exI[of _ p] exI[of _ "of_nat ?n"]) (simp add: ReferTo_def GetSize_def)
qed

lemma PushOffset_ok:
  assumes "off \<noteq> 0" "off \<le> length (fbb_buf b)" "length (fbb_buf b) + 12 \<le> max_size"
  shows "\<exists>p r. PushOffset b off = Inr (4 + length p + length (fbb_buf b),
      b\<lparr>fbb_buf := le_bytes 4 r @ p @ fbb_buf b, fbb_minalign := max 4 (fbb_minalign b)\<rparr>) \<and>
    length p < 4 \<and> (length p + length (fbb_buf b)) mod 4 = 0 \<and> unat (r :: u32) = 4 + length p + length (fbb_buf b) - off"
proof -
  obtain p r where p: "ReferTo b off = Inr (r, b\<lparr>fbb_buf := p @ fbb_buf b, fbb_minalign := max 4 (fbb_minalign b)\<rparr>)"
    "length p < 4" "(length p + length (fbb_buf b)) mod 4 = 0" "unat r = 4 + length p + length (fbb_buf b) - off"
    using ReferTo_ok[OF assms(1,2)] assms(3) by auto
  let ?b = "b\<lparr>fbb_buf := p @ fbb_buf b, fbb_minalign := max 4 (fbb_minalign b)\<rparr>"
  have "PushElement ?b r = Inr (4 + length p + length (fbb_buf b),
      b\<lparr>fbb_buf := le_bytes 4 r @ p @ fbb_buf b, fbb_minalign := max 4 (fbb_minalign b)\<rparr>)"
    using PushElement_ok[of 4 ?b r] p(2,3) assms(3) by auto
  with p show ?thesis by (intro exI[of _ p] exI[of _ r]) (simp add: PushOffset_def)
qed

section \<open>Builders in use\<close>

text \<open>
  What holds of a builder between calls: the alignment seen is a scalar's size, defaults are not
  forced, and every remembered vtable is in the buffer.
\<close>

definition vtable_at :: "bytes \<Rightarrow> nat \<Rightarrow> bool" where
  "vtable_at buf it \<longleftrightarrow> (\<exists>vt. has buf it vt \<and> 4 \<le> length vt \<and> length vt < 2 ^ 16 \<and>
     take 2 vt = le_bytes 2 (of_nat (length vt) :: u16))"

definition fbb_inv :: "FlatBufferBuilder \<Rightarrow> bool" where
  "fbb_inv b \<longleftrightarrow> scalar_size (fbb_minalign b) \<and> \<not> fbb_force_defaults b \<and>
     (\<forall>it \<in> set (fbb_vtables b). vtable_at (fbb_buf b) it)"

definition fbb_idle :: "FlatBufferBuilder \<Rightarrow> bool" where
  "fbb_idle b \<longleftrightarrow> fbb_inv b \<and> \<not> fbb_nested b \<and> fbb_offsetbuf b = []"

text \<open>\<open>grows k b b'\<close>: the buffer grew by at most \<open>k\<close> bytes at its beginning.\<close>

definition grows :: "nat \<Rightarrow> FlatBufferBuilder \<Rightarrow> FlatBufferBuilder \<Rightarrow> bool" where
  "grows k b b' \<longleftrightarrow> (\<exists>p. fbb_buf b' = p @ fbb_buf b \<and> length p \<le> k)"

lemma growsI: "fbb_buf b' = p @ fbb_buf b \<Longrightarrow> length p \<le> k \<Longrightarrow> grows k b b'"
  by (auto simp: grows_def)

lemma grows_trans: "grows k a b \<Longrightarrow> grows j b c \<Longrightarrow> grows (k + j) a c"
  by (fastforce simp: grows_def)

lemma grows_refl [simp]: "grows k b b"
  by (simp add: grows_def)

lemma grows_mono: "grows k a b \<Longrightarrow> k \<le> j \<Longrightarrow> grows j a b"
  by (fastforce simp: grows_def)

lemma grows_length: "grows k b b' \<Longrightarrow> length (fbb_buf b') \<le> length (fbb_buf b) + k \<and> length (fbb_buf b) \<le> length (fbb_buf b')"
  by (auto simp: grows_def)

lemma grows_has: "grows k b b' \<Longrightarrow> has (fbb_buf b) o1 bs \<Longrightarrow> has (fbb_buf b') o1 bs"
  by (auto simp: grows_def has_ext)

lemma vtable_at_ext: "vtable_at b it \<Longrightarrow> vtable_at (p @ b) it"
  unfolding vtable_at_def using has_ext by blast

lemma scalar_size_max: "scalar_size m \<Longrightarrow> scalar_size n \<Longrightarrow> scalar_size (max m n)"
  by (simp add: max_def)

lemma fbb_inv_push:
  "fbb_inv b \<Longrightarrow> scalar_size m \<Longrightarrow>
   fbb_inv (b\<lparr>fbb_buf := p @ fbb_buf b, fbb_minalign := max m (fbb_minalign b)\<rparr>)"
  by (simp add: fbb_inv_def vtable_at_ext scalar_size_max)

lemma fbb_inv_frame [simp]:
  "fbb_inv (b\<lparr>fbb_offsetbuf := xs\<rparr>) = fbb_inv b" "fbb_inv (b\<lparr>fbb_nested := n\<rparr>) = fbb_inv b"
  "fbb_inv (b\<lparr>fbb_finished := n\<rparr>) = fbb_inv b"
  by (simp_all add: fbb_inv_def)

lemma fbb_idle_new: "fbb_idle FlatBufferBuilder_new"
  by (simp add: fbb_idle_def fbb_inv_def FlatBufferBuilder_new_def)

section \<open>Strings\<close>

definition str_at :: "bytes \<Rightarrow> nat \<Rightarrow> string \<Rightarrow> bool" where
  "str_at b o1 s \<longleftrightarrow> has b o1 (le_bytes 4 (of_nat (length s) :: u32) @ map of_char s @ [0])"

lemma str_at_ext: "str_at b o1 s \<Longrightarrow> str_at (p @ b) o1 s"
  by (simp only: str_at_def has_ext)

lemma CreateString_ok:
  assumes "fbb_idle b" "length (fbb_buf b) + length s + 16 \<le> max_size"
  shows "\<exists>o1 b'. CreateString b s = Inr (o1, b') \<and> fbb_idle b' \<and> grows (length s + 12) b b' \<and>
    o1 \<noteq> 0 \<and> str_at (fbb_buf b') o1 s"
proof -
  obtain p where p: "PreAlign b (length s + 1) 4 = Inr (b\<lparr>fbb_buf := p @ fbb_buf b\<rparr>)" "length p < 4"
    "(length p + length (fbb_buf b) + (length s + 1)) mod 4 = 0"
    using PreAlign_ok[of 4 b "length s + 1"] assms(2) by fastforce
  let ?body = "map of_char s @ [0] @ p @ fbb_buf b" and ?l = "of_nat (length s) :: u32"
  let ?b3 = "b\<lparr>fbb_buf := ?body\<rparr>"
  have len: "length ?body = length p + length (fbb_buf b) + (length s + 1)" by simp
  have "length ?body + 8 \<le> max_size" using p(2) assms(2) unfolding len by linarith
  moreover have "length ?body mod 4 = 0" using p(3) by (simp only: len)
  ultimately have e: "PushElement ?b3 ?l = Inr (4 + length ?body,
      b\<lparr>fbb_buf := le_bytes 4 ?l @ ?body, fbb_minalign := max 4 (fbb_minalign b)\<rparr>)"
    using PushElement_ok[of 4 ?b3 ?l] by auto
  let ?b' = "b\<lparr>fbb_buf := le_bytes 4 ?l @ ?body, fbb_minalign := max 4 (fbb_minalign b)\<rparr>"
  have "CreateString b s = Inr (4 + length ?body, ?b')"
    using assms p e by (simp add: CreateString_def fbb_idle_def fb_push_ok GetSize_def)
  moreover have "fbb_idle ?b'"
    using assms(1) fbb_inv_push[of b 4 "le_bytes 4 ?l @ map of_char s @ [0] @ p"] by (simp add: fbb_idle_def)
  moreover have "grows (length s + 12) b ?b'"
    using p(2) by (intro growsI[of _ "le_bytes 4 ?l @ map of_char s @ [0] @ p"]) simp_all
  moreover have "str_at (fbb_buf ?b') (4 + length ?body) s"
    unfolding str_at_def using has_front[of _ "le_bytes 4 ?l @ map of_char s @ [0]" "p @ fbb_buf b"]
    by (simp add: add.assoc)
  ultimately show ?thesis by fastforce
qed

section \<open>Fields and tables\<close>

text \<open>A field holds the bytes of a scalar, or the distance to another object of the buffer.\<close>

datatype field = Scalar bytes | Ref nat

fun holds :: "bytes \<Rightarrow> nat \<Rightarrow> field \<Rightarrow> bool" where
  "holds buf f (Scalar bs) \<longleftrightarrow> has buf f bs"
| "holds buf f (Ref t) \<longleftrightarrow> (\<exists>r :: u32. has buf f (le_bytes 4 r) \<and> unat r + t = f)"

definition slot :: "bytes \<Rightarrow> nat \<Rightarrow> bytes" where
  "slot vt i = take 2 (drop i vt)"

text \<open>
  A table with \<open>n\<close> possible fields, of which those of \<open>fs\<close> are present: its first word leads to a
  vtable, which tells where each field is.
\<close>

definition table_at :: "bytes \<Rightarrow> nat \<Rightarrow> nat \<Rightarrow> (nat \<times> field) list \<Rightarrow> bool" where
  "table_at buf o1 n fs \<longleftrightarrow>
     (\<exists>vo vt. has buf o1 (le_bytes 4 (of_nat vo - of_nat o1 :: u32)) \<and> has buf vo vt \<and>
        length vt = 4 + 2 * n \<and> take 2 vt = le_bytes 2 (of_nat (4 + 2 * n) :: u16) \<and>
        (\<forall>k < n. case map_of fs (4 + 2 * k) of
            None \<Rightarrow> slot vt (4 + 2 * k) = le_bytes 2 (0 :: u16)
          | Some c \<Rightarrow> \<exists>d. slot vt (4 + 2 * k) = le_bytes 2 (of_nat d :: u16) \<and> 0 < d \<and> d < 2 ^ 16 \<and> d < o1 \<and>
              holds buf (o1 - d) c))"

text \<open>A table under construction that started at size \<open>start\<close>.\<close>

definition building :: "FlatBufferBuilder \<Rightarrow> nat \<Rightarrow> (nat \<times> field) list \<Rightarrow> bool" where
  "building b start fs \<longleftrightarrow> fbb_inv b \<and> fbb_nested b \<and> start \<le> length (fbb_buf b) \<and>
     list_all2 (\<lambda>(off, i) (i', c). i = i' \<and> start < off \<and> holds (fbb_buf b) off c) (fbb_offsetbuf b) fs"

lemma holds_ext: "holds b f c \<Longrightarrow> holds (p @ b) f c"
  by (cases c) (auto intro: has_ext)

lemma holds_le: "holds b f c \<Longrightarrow> f \<le> length b"
  by (cases c) (auto dest: has_le)

lemma table_at_ext:
  assumes "table_at b o1 n fs"
  shows "table_at (p @ b) o1 n fs"
proof -
  obtain vo vt where t: "has b o1 (le_bytes 4 (of_nat vo - of_nat o1 :: u32))" "has b vo vt"
    "length vt = 4 + 2 * n" "take 2 vt = le_bytes 2 (of_nat (4 + 2 * n) :: u16)"
    "\<forall>k < n. case map_of fs (4 + 2 * k) of
       None \<Rightarrow> slot vt (4 + 2 * k) = le_bytes 2 (0 :: u16)
     | Some c \<Rightarrow> \<exists>d. slot vt (4 + 2 * k) = le_bytes 2 (of_nat d :: u16) \<and> 0 < d \<and> d < 2 ^ 16 \<and> d < o1 \<and>
         holds b (o1 - d) c"
    using assms unfolding table_at_def by blast
  show ?thesis
    unfolding table_at_def
  proof (intro exI[of _ vo] exI[of _ vt] conjI has_ext t(1-4))
    show "\<forall>k < n. case map_of fs (4 + 2 * k) of
       None \<Rightarrow> slot vt (4 + 2 * k) = le_bytes 2 (0 :: u16)
     | Some c \<Rightarrow> \<exists>d. slot vt (4 + 2 * k) = le_bytes 2 (of_nat d :: u16) \<and> 0 < d \<and> d < 2 ^ 16 \<and> d < o1 \<and>
         holds (p @ b) (o1 - d) c"
      using t(5) holds_ext by (fastforce split: option.splits)
  qed
qed

lemma building_push:
  assumes "building b start fs" "scalar_size m" "start < off"
    "holds (p @ fbb_buf b) off c"
  shows "building (TrackField (b\<lparr>fbb_buf := p @ fbb_buf b, fbb_minalign := max m (fbb_minalign b)\<rparr>) i off)
    start (fs @ [(i, c)])"
proof -
  have "list_all2 (\<lambda>(off, i) (i', c). i = i' \<and> start < off \<and> holds (p @ fbb_buf b) off c) (fbb_offsetbuf b) fs"
    using assms(1) unfolding building_def by (auto elim!: list_all2_mono simp: holds_ext)
  then show ?thesis
    using assms fbb_inv_push[of b m p]
    by (simp add: building_def TrackField_def list_all2_append list_all2_lengthD)
qed

lemma AddElement_ok:
  fixes e :: "'a::len word"
  assumes "building b start fs" "sizeof TYPE('a word) = w" "scalar_size w" "length (fbb_buf b) + 2 * w \<le> max_size"
  shows "\<exists>b'. AddElement b i e def = Inr b' \<and> grows (2 * w) b b' \<and>
    building b' start (fs @ (if e = def then [] else [(i, Scalar (le_bytes w e))]))"
proof (cases "e = def")
  case True
  then show ?thesis using assms(1) by (intro exI[of _ b]) (simp add: AddElement_def building_def fbb_inv_def)
next
  case False
  obtain p where p: "PushElement b e = Inr (w + length p + length (fbb_buf b),
      b\<lparr>fbb_buf := le_bytes w e @ p @ fbb_buf b, fbb_minalign := max w (fbb_minalign b)\<rparr>)" "length p < w"
    using PushElement_ok[OF assms(2-4)] by blast
  let ?o = "w + length p + length (fbb_buf b)" and ?p = "le_bytes w e @ p"
  let ?b' = "TrackField (b\<lparr>fbb_buf := ?p @ fbb_buf b, fbb_minalign := max w (fbb_minalign b)\<rparr>) i ?o"
  have "holds (?p @ fbb_buf b) ?o (Scalar (le_bytes w e))" using has_front[of ?o "le_bytes w e" "p @ fbb_buf b"] by simp
  moreover have "start < ?o" using assms(1,3) by (auto simp: building_def scalar_size_def)
  ultimately have "building ?b' start (fs @ [(i, Scalar (le_bytes w e))])"
    using building_push[OF assms(1,3)] by blast
  moreover have "AddElement b i e def = Inr ?b'" using False p by (simp add: AddElement_def)
  moreover have "grows (2 * w) b ?b'" using p(2) by (intro growsI[of _ ?p]) (simp_all add: TrackField_def)
  ultimately show ?thesis using False by auto
qed

lemma AddOffset_ok:
  assumes "building b start fs" "off \<noteq> 0" "off \<le> length (fbb_buf b)" "length (fbb_buf b) + 12 \<le> max_size"
  shows "\<exists>b'. AddOffset b i off = Inr b' \<and> grows 8 b b' \<and> building b' start (fs @ [(i, Ref off)])"
proof -
  obtain p r where p: "PushOffset b off = Inr (4 + length p + length (fbb_buf b),
      b\<lparr>fbb_buf := le_bytes 4 r @ p @ fbb_buf b, fbb_minalign := max 4 (fbb_minalign b)\<rparr>)" "length p < 4"
      "unat (r :: u32) = 4 + length p + length (fbb_buf b) - off"
    using PushOffset_ok[OF assms(2-4)] by blast
  let ?o = "4 + length p + length (fbb_buf b)" and ?p = "le_bytes 4 r @ p"
  let ?b' = "TrackField (b\<lparr>fbb_buf := ?p @ fbb_buf b, fbb_minalign := max 4 (fbb_minalign b)\<rparr>) i ?o"
  have "unat r + off = ?o" using p(3) assms(3) by linarith
  then have "holds (?p @ fbb_buf b) ?o (Ref off)"
    using has_front[of ?o "le_bytes 4 r" "p @ fbb_buf b"] by auto
  moreover have "start < ?o" using assms(1) by (auto simp: building_def)
  ultimately have "building ?b' start (fs @ [(i, Ref off)])"
    using building_push[OF assms(1) scalar_sizes(4)] by blast
  moreover have "AddOffset b i off = Inr ?b'"
  proof -
    obtain r' b1 where r': "ReferTo b off = Inr (r', b1)" "PushElement b1 r' = Inr (?o, b\<lparr>fbb_buf := ?p @ fbb_buf b, fbb_minalign := max 4 (fbb_minalign b)\<rparr>)"
      using p(1) by (auto simp: PushOffset_def rbind_Inr_iff)
    have "unat r' \<noteq> 0" using ReferTo_ok[OF assms(2,3)] assms(3,4) r'(1) by auto
    then have "r' \<noteq> 0" by auto
    with r' assms(2) show ?thesis by (simp add: AddOffset_def AddElement_def)
  qed
  moreover have "grows 8 b ?b'" using p(2) by (intro growsI[of _ ?p]) (simp_all add: TrackField_def)
  ultimately show ?thesis by blast
qed

section \<open>Filling in a vtable\<close>

lemma slot_nth: "i + 2 \<le> length vt \<Longrightarrow> slot vt i = [vt ! i, vt ! Suc i]"
  by (simp add: slot_def take_Suc_conv_app_nth numeral_2_eq_2)

lemma buf_write_two:
  assumes "i + 2 \<le> length vt" "length bs = 2"
  shows "\<exists>vt'. buf_write (vt @ rest) i bs = Inr (vt' @ rest) \<and> length vt' = length vt \<and>
    slot vt' i = bs \<and> take i vt' = take i vt \<and>
    (\<forall>j. j + 2 \<le> length vt \<longrightarrow> j + 2 \<le> i \<or> i + 2 \<le> j \<longrightarrow> slot vt' j = slot vt j)"
proof -
  let ?vt = "take i vt @ bs @ drop (i + 2) vt"
  have "buf_write (vt @ rest) i bs = Inr (?vt @ rest)" using assms by (simp add: buf_write_def)
  moreover have "slot ?vt i = bs" "take i ?vt = take i vt" using assms by (simp_all add: slot_def)
  moreover have "slot ?vt j = slot vt j" if "j + 2 \<le> length vt" "j + 2 \<le> i \<or> i + 2 \<le> j" for j
  proof (cases "j + 2 \<le> i")
    case True
    moreover have "j + 2 \<le> length ?vt" using that(1) assms by simp
    ultimately show ?thesis using assms that(1) by (simp add: slot_nth nth_append)
  next
    case False
    then have "i + 2 \<le> j" using that(2) by simp
    then obtain d where "j = i + 2 + d" using le_Suc_ex by blast
    then show ?thesis using assms by (simp add: slot_def add.commute)
  qed
  ultimately show ?thesis using assms by (intro exI[of _ ?vt]) simp
qed

definition vt_ids :: "nat \<Rightarrow> nat set" where
  "vt_ids n = (\<lambda>k. 4 + 2 * k) ` {..<n}"

lemma vt_ids_apart: "i \<in> vt_ids n \<Longrightarrow> j \<in> vt_ids n \<Longrightarrow> i \<noteq> j \<Longrightarrow> j + 2 \<le> i \<or> i + 2 \<le> j"
  by (auto simp: vt_ids_def)

lemma vt_ids_le: "i \<in> vt_ids n \<Longrightarrow> 4 \<le> i \<and> i + 2 \<le> 4 + 2 * n"
  by (auto simp: vt_ids_def)

lemma write_fields_ok:
  assumes "snd ` set offs \<subseteq> vt_ids n" "distinct (map snd offs)" "length vt = 4 + 2 * n"
    "\<forall>i \<in> snd ` set offs. slot vt i = le_bytes 2 (0 :: u16)"
  shows "\<exists>vt'. rfold (write_field vtloc) (vt @ rest) offs = Inr (vt' @ rest) \<and> length vt' = length vt \<and>
    take 4 vt' = take 4 vt \<and>
    (\<forall>i \<in> vt_ids n. slot vt' i = (case map_of (map prod.swap offs) i of
        None \<Rightarrow> slot vt i | Some off \<Rightarrow> le_bytes 2 (of_nat (vtloc - off) :: u16)))"
  using assms
proof (induction offs arbitrary: vt)
  case (Cons f offs)
  obtain off i where f: "f = (off, i)" by fastforce
  have i: "i \<in> vt_ids n" "4 \<le> i" "i + 2 \<le> length vt" using Cons.prems vt_ids_le f by auto
  let ?bs = "le_bytes 2 (of_nat (vtloc - off) :: u16)"
  obtain vt1 where vt1: "buf_write (vt @ rest) i ?bs = Inr (vt1 @ rest)" "length vt1 = length vt" "slot vt1 i = ?bs"
    "take i vt1 = take i vt" "\<forall>j. j + 2 \<le> length vt \<longrightarrow> j + 2 \<le> i \<or> i + 2 \<le> j \<longrightarrow> slot vt1 j = slot vt j"
    using buf_write_two[OF i(3) length_le_bytes, of rest] by blast
  have others: "slot vt1 j = slot vt j" if "j \<in> vt_ids n" "j \<noteq> i" for j
  proof -
    have "j + 2 \<le> i \<or> i + 2 \<le> j" using vt_ids_apart[OF i(1) that(1)] that(2) by simp
    moreover have "j + 2 \<le> length vt" using vt_ids_le[OF that(1)] Cons.prems(3) by simp
    ultimately show ?thesis using vt1(5) by blast
  qed
  have "take 2 (drop i (vt @ rest)) = le_bytes 2 (0 :: u16)" using Cons.prems(4) i(3) f by (simp add: slot_def)
  then have "read16 (vt @ rest) i = Inr 0"
    using i(3) by (simp add: read16_def buf_read_def le16.dec_enc)
  then have w: "write_field vtloc (vt @ rest) f = Inr (vt1 @ rest)"
    using vt1(1) by (simp add: write_field_def f)
  have t4: "take 4 vt1 = take 4 vt" using vt1(4) i(2) by (metis min.absorb2 min.commute take_take)
  have "\<forall>j \<in> snd ` set offs. slot vt1 j = le_bytes 2 (0 :: u16)"
    using Cons.prems others f by (auto simp: subset_iff image_iff) (metis snd_conv)+
  then obtain vt' where vt': "rfold (write_field vtloc) (vt1 @ rest) offs = Inr (vt' @ rest)" "length vt' = length vt1"
    "take 4 vt' = take 4 vt1" "\<forall>j \<in> vt_ids n. slot vt' j = (case map_of (map prod.swap offs) j of
        None \<Rightarrow> slot vt1 j | Some off \<Rightarrow> le_bytes 2 (of_nat (vtloc - off) :: u16))"
    using Cons.IH[of vt1] Cons.prems vt1(2) by auto
  have "map_of (map prod.swap offs) i = None"
    using Cons.prems(2) f by (force simp: map_of_eq_None_iff)
  then show ?case
    using vt' vt1(2,3) w t4 others f by (intro exI[of _ vt']) (auto split: option.splits)
qed (auto intro: exI[of _ vt])

lemma find_vtable_ok:
  assumes "\<forall>it \<in> set its. vtable_at buf it" "4 \<le> unat sz" "unat sz \<le> length buf"
  shows "\<exists>r. find_vtable buf sz its = Inr r \<and>
    (case r of None \<Rightarrow> True | Some it \<Rightarrow> it \<in> set its \<and> has buf it (take (unat sz) buf))"
  using assms(1)
proof (induction its)
  case (Cons it its)
  then obtain r where r: "find_vtable buf sz its = Inr r"
    "case r of None \<Rightarrow> True | Some it \<Rightarrow> it \<in> set its \<and> has buf it (take (unat sz) buf)" by auto
  obtain vt where vt: "has buf it vt" "4 \<le> length vt" "length vt < 2 ^ 16"
    "take 2 vt = le_bytes 2 (of_nat (length vt) :: u16)"
    using Cons.prems by (auto simp: vtable_at_def)
  have "buf_read buf (length buf - it) 2 = Inr (take 2 vt)"
    using has_read[OF has_take[OF vt(1), of 2], of "[]" "[]"] vt(2) by (simp add: min_def)
  then have sz2: "read16 buf (length buf - it) = Inr (of_nat (length vt))"
    by (simp add: read16_def vt(4) le16.dec_enc)
  have u: "unat (of_nat (length vt) :: u16) = length vt" using vt(3) by (simp only: unat_of_nat) simp
  have v2: "buf_read buf (length buf - it) (length vt) = Inr vt"
    using has_read[OF vt(1), of "[]" "[]"] by simp
  show ?case
  proof (cases "sz = of_nat (length vt)")
    case True
    then have n: "unat sz = length vt" by (simp only: u)
    then have "buf_read buf 0 (length vt) = Inr (take (length vt) buf)" using assms(3) by (simp add: buf_read_def)
    then have "find_vtable buf sz (it # its) =
        (if vt \<noteq> take (length vt) buf then find_vtable buf sz its else Inr (Some it))"
      using True by (simp only: find_vtable.simps sz2 rbind_simps u v2 if_False simp_thms)
    then show ?thesis using r vt(1) by (cases "vt = take (length vt) buf") (auto simp: n split: option.splits)
  next
    case False
    then have "find_vtable buf sz (it # its) = find_vtable buf sz its" by (simp add: sz2)
    then show ?thesis using r by (auto split: option.splits)
  qed
qed (auto intro: exI[of _ None])

lemma has_unext: "has (p @ b) o1 bs \<Longrightarrow> o1 \<le> length b \<Longrightarrow> has b o1 bs"
  by (simp add: has_def)

text \<open>The vtable that \<^verbatim>\<open>EndTable\<close> writes, before it looks for an equal one.\<close>

definition vtable_of :: "nat \<Rightarrow> nat \<Rightarrow> nat \<Rightarrow> (nat \<times> nat) list \<Rightarrow> bytes \<Rightarrow> bool" where
  "vtable_of vtloc start n offs vt \<longleftrightarrow> length vt = 4 + 2 * n \<and> take 2 vt = le_bytes 2 (of_nat (4 + 2 * n) :: u16) \<and>
     (\<forall>i \<in> vt_ids n. slot vt i = (case map_of (map prod.swap offs) i of
        None \<Rightarrow> le_bytes 2 (0 :: u16) | Some off \<Rightarrow> le_bytes 2 (of_nat (vtloc - off) :: u16)))"

lemma vtable_written:
  fixes size :: u16
  assumes "snd ` set offs \<subseteq> vt_ids n" "distinct (map snd offs)" "n < 100"
  shows "\<exists>vt. rfold (write_field vtloc)
      (le_bytes 2 (FieldIndexToOffset n) @ le_bytes 2 size @ replicate (n * 2) 0 @ rest) offs = Inr (vt @ rest) \<and>
    vtable_of vtloc start n offs vt"
proof -
  let ?vt = "le_bytes 2 (FieldIndexToOffset n) @ le_bytes 2 size @ replicate (n * 2) 0"
  have len: "length ?vt = 4 + 2 * n" by simp
  have z: "slot ?vt i = le_bytes 2 (0 :: u16)" if i: "i \<in> vt_ids n" for i
  proof -
    obtain k where k: "i = 4 + 2 * k" "k < n" using i by (auto simp: vt_ids_def)
    have "drop i ?vt = replicate (n * 2 - 2 * k) 0" unfolding k(1) by (simp del: replicate.simps)
    then have "slot ?vt i = replicate 2 0" using k(2) by (simp add: slot_def min_def del: replicate.simps)
    then show ?thesis by (simp add: le_bytes_def map_replicate_const del: replicate.simps)
  qed
  have "\<forall>i \<in> snd ` set offs. slot ?vt i = le_bytes 2 (0 :: u16)" using z assms(1) by blast
  from write_fields_ok[OF assms(1,2) len this] obtain vt where
    vt: "rfold (write_field vtloc) (?vt @ rest) offs = Inr (vt @ rest)" "length vt = length ?vt" "take 4 vt = take 4 ?vt"
      "\<forall>i \<in> vt_ids n. slot vt i = (case map_of (map prod.swap offs) i of
        None \<Rightarrow> slot ?vt i | Some off \<Rightarrow> le_bytes 2 (of_nat (vtloc - off) :: u16))"
    by blast
  have "take 2 vt = take 2 (take 4 vt)" by simp
  also have "\<dots> = le_bytes 2 (FieldIndexToOffset n)" unfolding vt(3) by simp
  also have "\<dots> = le_bytes 2 (of_nat (4 + 2 * n) :: u16)"
    by (simp add: FieldIndexToOffset_def mult.commute)
  finally have "vtable_of vtloc start n offs vt"
    using vt z len unfolding vtable_of_def by (auto split: option.splits)
  with vt(1) show ?thesis by auto
qed

lemma fields_table:
  assumes "vtable_of vtloc start n offs vt" "has buf vo vt" "has buf vtloc (le_bytes 4 (of_nat vo - of_nat vtloc :: u32))"
    "list_all2 (\<lambda>(off, i) (i', c). i = i' \<and> start < off \<and> holds old off c) offs fs"
    "buf = p @ old" "length old < vtloc" "vtloc - start < 2 ^ 16"
  shows "table_at buf vtloc n fs"
proof -
  have "case map_of fs (4 + 2 * k) of
      None \<Rightarrow> slot vt (4 + 2 * k) = le_bytes 2 (0 :: u16)
    | Some c \<Rightarrow> \<exists>d. slot vt (4 + 2 * k) = le_bytes 2 (of_nat d :: u16) \<and> 0 < d \<and> d < 2 ^ 16 \<and> d < vtloc \<and>
        holds buf (vtloc - d) c" if k: "k < n" for k
  proof -
    let ?i = "4 + 2 * k"
    have i: "?i \<in> vt_ids n" using k by (auto simp: vt_ids_def)
    have rel: "case map_of fs i of None \<Rightarrow> map_of (map prod.swap offs) i = None
      | Some c \<Rightarrow> \<exists>off. map_of (map prod.swap offs) i = Some off \<and> start < off \<and> holds old off c" for i
      using assms(4) by (induction offs fs rule: list_all2_induct) (auto split: option.splits)
    show ?thesis
    proof (cases "map_of fs ?i")
      case None
      then have "map_of (map prod.swap offs) ?i = None" using rel[of ?i] by simp
      then show ?thesis using None assms(1) i unfolding vtable_of_def by simp
    next
      case (Some c)
      then obtain off where off: "map_of (map prod.swap offs) ?i = Some off" "start < off" "holds old off c"
        using rel[of ?i] by auto
      then have "slot vt ?i = le_bytes 2 (of_nat (vtloc - off) :: u16)"
        using assms(1) i unfolding vtable_of_def by simp
      moreover have "off \<le> length old" using holds_le[OF off(3)] .
      then have "0 < vtloc - off" "vtloc - off < 2 ^ 16" "vtloc - off < vtloc" "vtloc - (vtloc - off) = off"
        using assms(6,7) off(2) by linarith+
      moreover have "holds buf off c" unfolding assms(5) using off(3) by (rule holds_ext)
      ultimately have "\<exists>d. slot vt ?i = le_bytes 2 (of_nat d :: u16) \<and> 0 < d \<and> d < 2 ^ 16 \<and> d < vtloc \<and>
          holds buf (vtloc - d) c"
        by (intro exI[of _ "vtloc - off"]) (simp only: simp_thms)
      with Some show ?thesis by (simp only: option.case)
    qed
  qed
  then show ?thesis
    using assms(1-3) unfolding table_at_def vtable_of_def by blast
qed

text \<open>The end of \<^verbatim>\<open>EndTable\<close>: the new vtable \<open>vt\<close> is kept or replaced by an equal one.\<close>

lemma use_vtable_ok:
  assumes "fbb_inv b" "vtable_of vtloc start n offs vt" "n < 100"
    "fbb_buf b = vt @ le_bytes 4 (0 :: u32) @ rest" "vtloc = 4 + length rest"
    "\<forall>it \<in> set (fbb_vtables b). vtable_at rest it" "fbb_offsetbuf b = []"
  shows "\<exists>found vo vt' b'. find_vtable (fbb_buf b) (of_nat (4 + 2 * n)) (fbb_vtables b) = Inr found \<and>
    use_vtable b vtloc found = Inr (vtloc, b') \<and> fbb_idle b' \<and> length vt' \<le> length vt \<and>
    fbb_buf b' = vt' @ le_bytes 4 (of_nat vo - of_nat vtloc :: u32) @ rest \<and> has (fbb_buf b') vo vt"
proof -
  have vt: "length vt = 4 + 2 * n" "take 2 vt = le_bytes 2 (of_nat (length vt) :: u16)"
    using assms(2) by (simp_all add: vtable_of_def)
  have u: "unat (of_nat (4 + 2 * n) :: u16) = 4 + 2 * n" using assms(3) by (simp only: unat_of_nat) simp
  have all: "\<forall>it \<in> set (fbb_vtables b). vtable_at (fbb_buf b) it" using assms(1) by (simp add: fbb_inv_def)
  have t: "take (4 + 2 * n) (fbb_buf b) = vt" and l: "4 + 2 * n \<le> length (fbb_buf b)" using vt by (simp_all add: assms(4))
  obtain found where f: "find_vtable (fbb_buf b) (of_nat (4 + 2 * n)) (fbb_vtables b) = Inr found"
    "case found of None \<Rightarrow> True | Some it \<Rightarrow> it \<in> set (fbb_vtables b) \<and> has (fbb_buf b) it vt"
    using find_vtable_ok[OF all, of "of_nat (4 + 2 * n)"] l unfolding u t by force
  have idle: "fbb_idle (b\<lparr>fbb_vtables := vts, fbb_buf := q @ rest, fbb_nested := False\<rparr>)"
    if "\<forall>it \<in> set vts. vtable_at (q @ rest) it" for vts q
    using that assms(1,7) by (simp add: fbb_idle_def fbb_inv_def)
  have old: "\<forall>it \<in> set (fbb_vtables b). vtable_at (q @ rest) it" for q using assms(6) vtable_at_ext by blast
  show ?thesis
  proof (cases found)
    case None
    let ?vo = "length (fbb_buf b)"
    let ?buf = "vt @ le_bytes 4 (of_nat ?vo - of_nat vtloc :: u32) @ rest"
    let ?b' = "b\<lparr>fbb_vtables := fbb_vtables b @ [?vo], fbb_buf := ?buf, fbb_nested := False\<rparr>"
    have "use_vtable b vtloc found = Inr (vtloc, ?b')"
      using None by (simp add: use_vtable_def GetSize_def assms(4,5) buf_write_def)
    moreover have h: "has ?buf ?vo vt" by (rule has_front) (simp add: assms(4))
    moreover have "vtable_at ?buf ?vo"
      unfolding vtable_at_def using h vt assms(3) by (intro exI[of _ vt]) simp
    then have "fbb_idle ?b'" using idle[of "fbb_vtables b @ [?vo]" "vt @ le_bytes 4 (of_nat ?vo - of_nat vtloc :: u32)"]
        old[of "vt @ le_bytes 4 (of_nat ?vo - of_nat vtloc :: u32)"] by auto
    ultimately show ?thesis using f(1) by (intro exI[of _ found] exI[of _ ?vo] exI[of _ vt] exI[of _ ?b']) simp
  next
    case (Some it)
    then have it: "vtable_at rest it" "has (fbb_buf b) it vt" using f(2) assms(6) by auto
    then have le: "it \<le> length rest" by (auto simp: vtable_at_def dest: has_le)
    let ?x = "le_bytes 4 (of_nat it - of_nat vtloc :: u32)"
    let ?b' = "b\<lparr>fbb_vtables := fbb_vtables b, fbb_buf := ?x @ rest, fbb_nested := False\<rparr>"
    have "use_vtable b vtloc found = Inr (vtloc, ?b')"
      using Some le by (simp add: use_vtable_def GetSize_def assms(4,5) buf_write_def)
    moreover have "has (?x @ rest) it vt"
      using it(2) le has_unext[of "vt @ le_bytes 4 (0 :: u32)" rest it vt] by (simp add: assms(4) has_ext)
    moreover have "fbb_idle ?b'" using idle old by blast
    ultimately show ?thesis using f(1) by (intro exI[of _ found] exI[of _ it] exI[of _ "[]"] exI[of _ ?b']) simp
  qed
qed

lemma building_ids:
  assumes "building b start fs"
  shows "map snd (fbb_offsetbuf b) = map fst fs"
proof -
  have "list_all2 (\<lambda>(off, i) (i', c). i = i' \<and> start < off \<and> holds (fbb_buf b) off c) offs fs \<Longrightarrow>
      map snd offs = map fst fs" for offs
    by (induction offs fs rule: list_all2_induct) auto
  then show ?thesis using assms by (simp add: building_def)
qed

text \<open>The beginning of \<^verbatim>\<open>EndTable\<close>: the table's first word and the new vtable are in the buffer.\<close>

lemma EndTable_front:
  assumes "building b start fs" "fst ` set fs \<subseteq> vt_ids n" "distinct (map fst fs)" "n < 100"
    "length (fbb_buf b) + 24 + 2 * n \<le> max_size" "length (fbb_buf b) + 8 \<le> start + 2 ^ 16"
  shows "\<exists>p0 vt rest vtloc b5. rest = p0 @ fbb_buf b \<and> length p0 < 4 \<and> vtloc = 4 + length rest \<and>
    vtable_of vtloc start n (fbb_offsetbuf b) vt \<and>
    b5 = b\<lparr>fbb_minalign := max 4 (fbb_minalign b), fbb_buf := vt @ le_bytes 4 (0 :: u32) @ rest, fbb_offsetbuf := []\<rparr> \<and>
    EndTable b start n = rbind (find_vtable (fbb_buf b5) (of_nat (4 + 2 * n)) (fbb_vtables b5)) (use_vtable b5 vtloc)"
proof -
  let ?offs = "fbb_offsetbuf b"
  have nest: "fbb_nested b" and start: "start \<le> length (fbb_buf b)" using assms(1) by (simp_all add: building_def)
  have offs: "snd ` set ?offs \<subseteq> vt_ids n" "distinct (map snd ?offs)"
    using assms(2,3) building_ids[OF assms(1)] by (metis image_set)+
  obtain p0 where p0: "PushElement b (0 :: u32) = Inr (4 + length p0 + length (fbb_buf b),
      b\<lparr>fbb_buf := le_bytes 4 (0 :: u32) @ p0 @ fbb_buf b, fbb_minalign := max 4 (fbb_minalign b)\<rparr>)"
    "length p0 < 4" "(length p0 + length (fbb_buf b)) mod 4 = 0"
    using PushElement_ok[of 4 b "0 :: u32"] assms(5) by auto
  define rest where "rest = p0 @ fbb_buf b"
  define vtloc where "vtloc = 4 + length rest"
  let ?size = "of_nat (vtloc - start) :: u16" and ?f = "FieldIndexToOffset n" and ?z = "replicate (n * 2) (0 :: u8)"
  let ?q = "le_bytes 4 (0 :: u32) @ rest" and ?m = "max 4 (fbb_minalign b)"
  have "even (length rest)" using p0(3) unfolding rest_def length_append by presburger
  then have lens: "length rest + 16 + 2 * n < max_size" "even (length rest)" "vtloc - start < 2 ^ 16"
    using p0(2) assms(5,6) start by (auto simp: rest_def vtloc_def)
  obtain vt where vt: "rfold (write_field vtloc) (le_bytes 2 ?f @ le_bytes 2 ?size @ ?z @ ?q) ?offs = Inr (vt @ ?q)"
    "vtable_of vtloc start n ?offs vt"
    using vtable_written[OF offs assms(4)] by blast
  have s1: "PushElement b (0 :: u32) = Inr (vtloc, b\<lparr>fbb_buf := ?q, fbb_minalign := ?m\<rparr>)"
    using p0(1) by (simp add: rest_def vtloc_def)
  define b2 where "b2 = b\<lparr>fbb_buf := ?z @ ?q, fbb_minalign := ?m\<rparr>"
  have s2: "fb_fill (b\<lparr>fbb_buf := ?q, fbb_minalign := ?m\<rparr>) (n * 2) = Inr b2"
    using lens by (simp add: fb_push_ok b2_def)
  have mm: "max 2 ?m = ?m" by simp
  define b3 where "b3 = b\<lparr>fbb_buf := le_bytes 2 ?size @ ?z @ ?q, fbb_minalign := ?m\<rparr>"
  have s3: "PushElement b2 ?size = Inr (length (fbb_buf b3), b3)"
    using PushElement_ok[of 2 b2 ?size] lens mm by (auto simp: b2_def b3_def)
  define b4 where "b4 = b\<lparr>fbb_buf := le_bytes 2 ?f @ le_bytes 2 ?size @ ?z @ ?q, fbb_minalign := ?m\<rparr>"
  have s4: "PushElement b3 ?f = Inr (length (fbb_buf b4), b4)"
    using PushElement_ok[of 2 b3 ?f] lens mm by (auto simp: b3_def b4_def)
  have r: "read16 (vt @ ?q) 0 = Inr (of_nat (4 + 2 * n))"
    using vt(2) by (simp add: read16_def buf_read_def vtable_of_def le16.dec_enc)
  let ?b5 = "b\<lparr>fbb_minalign := ?m, fbb_buf := vt @ ?q, fbb_offsetbuf := []\<rparr>"
  have "EndTable b start n = rbind (find_vtable (fbb_buf ?b5) (of_nat (4 + 2 * n)) (fbb_vtables ?b5)) (use_vtable ?b5 vtloc)"
    using nest s1 s2 s3 s4 vt(1) r lens(3) by (simp add: EndTable_def Let_def b4_def)
  with vt(2) p0(2) show ?thesis
    by (intro exI[of _ p0] exI[of _ vt] exI[of _ rest] exI[of _ vtloc] exI[of _ ?b5] conjI rest_def vtloc_def refl)
qed

lemma EndTable_ok:
  assumes "building b start fs" "fst ` set fs \<subseteq> vt_ids n" "distinct (map fst fs)" "n < 100"
    "length (fbb_buf b) + 24 + 2 * n \<le> max_size" "length (fbb_buf b) + 8 \<le> start + 2 ^ 16"
  shows "\<exists>o1 b'. EndTable b start n = Inr (o1, b') \<and> fbb_idle b' \<and> grows (12 + 2 * n) b b' \<and>
    o1 \<noteq> 0 \<and> o1 \<le> length (fbb_buf b') \<and> table_at (fbb_buf b') o1 n fs"
proof -
  obtain p0 vt rest vtloc b5 where e: "rest = p0 @ fbb_buf b" "length p0 < 4" "vtloc = 4 + length rest"
    "vtable_of vtloc start n (fbb_offsetbuf b) vt"
    "b5 = b\<lparr>fbb_minalign := max 4 (fbb_minalign b), fbb_buf := vt @ le_bytes 4 (0 :: u32) @ rest, fbb_offsetbuf := []\<rparr>"
    "EndTable b start n = rbind (find_vtable (fbb_buf b5) (of_nat (4 + 2 * n)) (fbb_vtables b5)) (use_vtable b5 vtloc)"
    using EndTable_front[OF assms] by metis
  have inv: "fbb_inv b" and start: "start \<le> length (fbb_buf b)" and fields: "list_all2 (\<lambda>(off, i) (i', c).
      i = i' \<and> start < off \<and> holds (fbb_buf b) off c) (fbb_offsetbuf b) fs"
    using assms(1) by (simp_all add: building_def)
  have "fbb_inv b5"
    using fbb_inv_push[OF inv, of 4 "vt @ le_bytes 4 (0 :: u32) @ p0"] by (simp add: e(1,5) fbb_inv_def)
  moreover have "\<forall>it \<in> set (fbb_vtables b5). vtable_at rest it"
    using inv vtable_at_ext by (auto simp: fbb_inv_def e(1,5))
  ultimately obtain found vo vt' b' where u: "find_vtable (fbb_buf b5) (of_nat (4 + 2 * n)) (fbb_vtables b5) = Inr found"
    "use_vtable b5 vtloc found = Inr (vtloc, b')" "fbb_idle b'" "length vt' \<le> length vt"
    "fbb_buf b' = vt' @ le_bytes 4 (of_nat vo - of_nat vtloc :: u32) @ rest" "has (fbb_buf b') vo vt"
    using use_vtable_ok[OF _ e(4) assms(4) _ e(3), of b5] e(5) by auto
  let ?x = "le_bytes 4 (of_nat vo - of_nat vtloc :: u32)"
  have "has (?x @ rest) vtloc ?x" using e(3) by (intro has_front) simp
  then have "has (fbb_buf b') vtloc ?x" unfolding u(5) by (rule has_ext)
  moreover have "fbb_buf b' = (vt' @ ?x @ p0) @ fbb_buf b" by (simp add: u(5) e(1))
  moreover have "vtloc - start < 2 ^ 16" "length (fbb_buf b) < vtloc" using assms(6) e(1-3) start by simp_all
  ultimately have "table_at (fbb_buf b') vtloc n fs" using fields_table[OF e(4) u(6)] fields by blast
  moreover have "grows (12 + 2 * n) b b'"
    using u(4) e(2,4) by (intro growsI[of _ "vt' @ ?x @ p0"]) (simp_all add: u(5) e(1) vtable_of_def)
  ultimately show ?thesis using e(3,6) u by auto
qed

section \<open>Vectors and the root\<close>

definition vec_at :: "bytes \<Rightarrow> nat \<Rightarrow> nat list \<Rightarrow> bool" where
  "vec_at b o1 offs \<longleftrightarrow> has b o1 (le_bytes 4 (of_nat (length offs) :: u32)) \<and>
     (\<forall>i < length offs. holds b (o1 - 4 - 4 * i) (Ref (offs ! i)))"

lemma vec_at_ext: "vec_at b o1 offs \<Longrightarrow> vec_at (p @ b) o1 offs"
  unfolding vec_at_def using has_ext holds_ext by blast

lemma push_offsets_ok:
  assumes "fbb_inv b" "\<forall>off \<in> set offs. off \<noteq> 0 \<and> off \<le> length (fbb_buf b)" "length (fbb_buf b) mod 4 = 0"
    "length (fbb_buf b) + 4 * length offs + 12 \<le> max_size"
  shows "\<exists>p m. push_offsets b offs = Inr (b\<lparr>fbb_buf := p @ fbb_buf b, fbb_minalign := m\<rparr>) \<and> scalar_size m \<and>
    length p = 4 * length offs \<and>
    (\<forall>i < length offs. holds (p @ fbb_buf b) (length p + length (fbb_buf b) - 4 * i) (Ref (offs ! i)))"
  using assms(2,4)
proof (induction offs)
  case Nil
  then show ?case using assms(1) by (intro exI[of _ "[]"] exI[of _ "fbb_minalign b"]) (simp add: fbb_inv_def)
next
  case (Cons off offs)
  then obtain p m where p: "push_offsets b offs = Inr (b\<lparr>fbb_buf := p @ fbb_buf b, fbb_minalign := m\<rparr>)" "scalar_size m"
    "length p = 4 * length offs"
    "\<forall>i < length offs. holds (p @ fbb_buf b) (length p + length (fbb_buf b) - 4 * i) (Ref (offs ! i))"
    by auto
  let ?b1 = "b\<lparr>fbb_buf := p @ fbb_buf b, fbb_minalign := m\<rparr>"
  have off: "off \<noteq> 0" "off \<le> length (fbb_buf ?b1)" "length (fbb_buf ?b1) + 12 \<le> max_size"
    using Cons.prems p(3) by auto
  obtain p1 r where p1: "PushOffset ?b1 off = Inr (4 + length p1 + length (fbb_buf ?b1),
      ?b1\<lparr>fbb_buf := le_bytes 4 r @ p1 @ fbb_buf ?b1, fbb_minalign := max 4 (fbb_minalign ?b1)\<rparr>)"
    "length p1 < 4" "(length p1 + length (fbb_buf ?b1)) mod 4 = 0"
    "unat (r :: u32) = 4 + length p1 + length (fbb_buf ?b1) - off"
    using PushOffset_ok[OF off] by (elim exE conjE) (rule that; assumption)
  have "p1 = []"
  proof -
    have "length (fbb_buf ?b1) mod 4 = 0" using p(3) assms(3) by simp
    then have "length p1 mod 4 = 0" using p1(3) by presburger
    then show ?thesis using p1(2) by simp
  qed
  let ?p = "le_bytes 4 r @ p"
  have "holds (?p @ fbb_buf b) (length ?p + length (fbb_buf b) - 4 * i) (Ref ((off # offs) ! i))"
    if "i < length (off # offs)" for i
  proof (cases i)
    case 0
    have "unat r + off = length ?p + length (fbb_buf b)" using p1(4) off(2) \<open>p1 = []\<close> by simp
    then show ?thesis using 0 has_front[of _ "le_bytes 4 r" "p @ fbb_buf b"] by (auto simp: add.assoc)
  next
    case (Suc j)
    then have "holds (p @ fbb_buf b) (length p + length (fbb_buf b) - 4 * j) (Ref (offs ! j))" using p(4) that by simp
    from holds_ext[OF this, of "le_bytes 4 r"] show ?thesis using Suc by (simp add: algebra_simps)
  qed
  moreover have "push_offsets b (off # offs) = Inr (b\<lparr>fbb_buf := ?p @ fbb_buf b, fbb_minalign := max 4 m\<rparr>)"
    using p(1) p1(1) \<open>p1 = []\<close> by simp
  ultimately show ?case
    using p(2,3) by (intro exI[of _ ?p] exI[of _ "max 4 m"]) (simp add: scalar_size_max)
qed

lemma CreateVector_ok:
  assumes "fbb_idle b" "\<forall>off \<in> set offs. off \<noteq> 0 \<and> off \<le> length (fbb_buf b)"
    "length (fbb_buf b) + 4 * length offs + 32 \<le> max_size"
  shows "\<exists>o1 b'. CreateVector b offs = Inr (o1, b') \<and> fbb_idle b' \<and> grows (4 * length offs + 12) b b' \<and>
    o1 \<noteq> 0 \<and> o1 \<le> length (fbb_buf b') \<and> vec_at (fbb_buf b') o1 offs"
proof -
  let ?n = "length offs * 4" and ?b0 = "b\<lparr>fbb_nested := True\<rparr>"
  obtain p where p: "PreAlign ?b0 ?n 4 = Inr (?b0\<lparr>fbb_buf := p @ fbb_buf ?b0\<rparr>)" "length p < 4"
    "(length p + length (fbb_buf ?b0) + ?n) mod 4 = 0"
    using PreAlign_ok[of 4 ?b0 ?n] assms(3) by fastforce
  let ?b1 = "b\<lparr>fbb_nested := True, fbb_buf := p @ fbb_buf b\<rparr>"
  obtain q where q: "PreAlign ?b1 ?n 4 = Inr (?b1\<lparr>fbb_buf := q @ fbb_buf ?b1\<rparr>)" "length q < 4"
    "(length q + length (fbb_buf ?b1) + ?n) mod 4 = 0"
    using PreAlign_ok[of 4 ?b1 ?n] assms(3) p(2) by fastforce
  have "q = []"
  proof -
    have "length q mod 4 = 0" using q(3) p(3) by simp presburger
    then show ?thesis using q(2) by simp
  qed
  have al: "length (fbb_buf ?b1) mod 4 = 0" using p(3) by simp
  have "fbb_inv ?b1" using assms(1) by (simp add: fbb_idle_def fbb_inv_def vtable_at_ext)
  then obtain r m where r: "push_offsets ?b1 offs = Inr (?b1\<lparr>fbb_buf := r @ fbb_buf ?b1, fbb_minalign := m\<rparr>)" "scalar_size m"
    "length r = 4 * length offs"
    "\<forall>i < length offs. holds (r @ fbb_buf ?b1) (length r + length (fbb_buf ?b1) - 4 * i) (Ref (offs ! i))"
    using push_offsets_ok[of ?b1 offs] al assms(2,3) p(2) by fastforce
  let ?l = "of_nat (length offs) :: u32" and ?buf = "r @ p @ fbb_buf b"
  let ?b2 = "b\<lparr>fbb_buf := ?buf, fbb_minalign := m, fbb_nested := False\<rparr>"
  let ?b' = "b\<lparr>fbb_nested := False, fbb_buf := le_bytes 4 ?l @ ?buf, fbb_minalign := max 4 m\<rparr>"
  have "PushElement ?b2 ?l = Inr (4 + length ?buf, ?b')"
    using PushElement_ok[of 4 ?b2 ?l] al r(3) p(2) assms(3) by fastforce
  then have "CreateVector b offs = Inr (4 + length ?buf, ?b')"
    using assms(1) p(1) q(1) r(1) \<open>q = []\<close>
    by (simp add: CreateVector_def StartVector_def EndVector_def fbb_idle_def)
  moreover have "fbb_idle ?b'"
    using assms(1) r(2) vtable_at_ext[of "fbb_buf b" _ "le_bytes 4 ?l @ r @ p"]
    by (auto simp: fbb_idle_def fbb_inv_def scalar_size_max)
  moreover have "grows (4 * length offs + 12) b ?b'"
    using p(2) r(3) by (intro growsI[of _ "le_bytes 4 ?l @ r @ p"]) simp_all
  moreover have "vec_at (fbb_buf ?b') (4 + length ?buf) offs"
    unfolding vec_at_def
  proof (intro conjI allI impI)
    show "has (fbb_buf ?b') (4 + length ?buf) (le_bytes 4 ?l)" using has_front[of _ "le_bytes 4 ?l" ?buf] by simp
    show "holds (fbb_buf ?b') (4 + length ?buf - 4 - 4 * i) (Ref (offs ! i))" if "i < length offs" for i
      using holds_ext[of ?buf "length ?buf - 4 * i" "Ref (offs ! i)" "le_bytes 4 ?l"] r(4) that by simp
  qed
  ultimately show ?thesis by fastforce
qed

lemma Finish_ok:
  assumes "fbb_idle b" "root \<noteq> 0" "root \<le> length (fbb_buf b)" "length (fbb_buf b) + 32 \<le> max_size"
  shows "\<exists>b'. Finish b root = Inr b' \<and> fbb_finished b' \<and> grows 16 b b' \<and>
    holds (fbb_buf b') (length (fbb_buf b')) (Ref root)"
proof -
  have m: "scalar_size (fbb_minalign b)" using assms(1) by (simp add: fbb_idle_def fbb_inv_def)
  then have "fbb_minalign b \<le> 8" by (auto simp: scalar_size_def)
  then obtain p where p: "PreAlign b 4 (fbb_minalign b) = Inr (b\<lparr>fbb_buf := p @ fbb_buf b\<rparr>)" "length p < 8"
    using PreAlign_ok[OF m, of b 4] assms(4) by fastforce
  let ?b1 = "b\<lparr>fbb_buf := p @ fbb_buf b\<rparr>"
  obtain q r where q: "PushOffset ?b1 root = Inr (4 + length q + length (fbb_buf ?b1),
      ?b1\<lparr>fbb_buf := le_bytes 4 r @ q @ fbb_buf ?b1, fbb_minalign := max 4 (fbb_minalign ?b1)\<rparr>)"
    "length q < 4" "unat (r :: u32) = 4 + length q + length (fbb_buf ?b1) - root"
    using PushOffset_ok[of root ?b1] assms(2-4) p(2) by fastforce
  let ?b' = "b\<lparr>fbb_buf := le_bytes 4 r @ q @ p @ fbb_buf b, fbb_minalign := max 4 (fbb_minalign b), fbb_finished := True\<rparr>"
  have "Finish b root = Inr ?b'" using assms(1) p(1) q(1) by (simp add: Finish_def fbb_idle_def)
  moreover have "unat r + root = length (fbb_buf ?b')" using q(3) assms(3) by simp
  then have "holds (fbb_buf ?b') (length (fbb_buf ?b')) (Ref root)"
    using has_front[of _ "le_bytes 4 r" "q @ p @ fbb_buf b"] by auto
  moreover have "grows 16 b ?b'" using p(2) q(2) by (intro growsI[of _ "le_bytes 4 r @ q @ p"]) simp_all
  ultimately show ?thesis by fastforce
qed

end
