(* ===== verification/Flat_Reader.thy ===== *)
theory Flat_Reader
  imports Flat_Layout
begin

text \<open>
  The reading side of \<^verbatim>\<open>src/thirdparty/flatbuffers/flatbuffers.h\<close>: \<^verbatim>\<open>GetRoot\<close>, and the accessors of \<^verbatim>\<open>class Table\<close>,
  \<^verbatim>\<open>class Vector\<close> and \<^verbatim>\<open>struct String\<close> that the generated code uses. They work on a region of memory
  that holds the buffer somewhere, with pointers as positions in it; a read outside the region is
  the fault \<open>OutOfBounds\<close>. Nothing is verified before it is read.
\<close>

section \<open>Accessors\<close>

definition ReadScalar :: "bytes \<Rightarrow> nat \<Rightarrow> 'a::len word result" where
  "ReadScalar mem p = rbind (buf_read mem p (sizeof TYPE('a word))) (\<lambda>bs. Inr (le_word bs))"

definition GetRoot :: "bytes \<Rightarrow> nat \<Rightarrow> nat result" where
  "GetRoot mem p = rbind (ReadScalar mem p :: u32 result) (\<lambda>r. Inr (p + unat r))"

definition GetOptionalFieldOffset :: "bytes \<Rightarrow> nat \<Rightarrow> nat \<Rightarrow> u16 result" where
  "GetOptionalFieldOffset mem p field =
     rbind (ReadScalar mem p :: u32 result) (\<lambda>soff.
       let v = int p - sint soff
       in if v < 0 then Inl OutOfBounds
          else
            rbind (ReadScalar mem (nat v) :: u16 result) (\<lambda>vtsize.
              if field < unat vtsize then ReadScalar mem (nat v + field) else Inr 0))"

definition GetField :: "bytes \<Rightarrow> nat \<Rightarrow> nat \<Rightarrow> 'a::len word \<Rightarrow> 'a word result" where
  "GetField mem p field defaultval =
     rbind (GetOptionalFieldOffset mem p field) (\<lambda>off.
       if off = 0 then Inr defaultval else ReadScalar mem (p + unat off))"

definition GetPointer :: "bytes \<Rightarrow> nat \<Rightarrow> nat \<Rightarrow> nat option result" where
  "GetPointer mem p field =
     rbind (GetOptionalFieldOffset mem p field) (\<lambda>off.
       if off = 0 then Inr None
       else
         let q = p + unat off
         in rbind (ReadScalar mem q :: u32 result) (\<lambda>r. Inr (Some (q + unat r))))"

definition vec_size :: "bytes \<Rightarrow> nat \<Rightarrow> u32 result" where
  "vec_size mem p = ReadScalar mem p"

text \<open>\<^verbatim>\<open>Get\<close> of a vector of \<^verbatim>\<open>Offset\<close>s, with its assertion.\<close>

definition vec_Get :: "bytes \<Rightarrow> nat \<Rightarrow> nat \<Rightarrow> nat result" where
  "vec_Get mem p i =
     rbind (vec_size mem p) (\<lambda>n.
       if \<not> i < unat n then Inl Terminate
       else
         let q = p + 4 + i * 4
         in rbind (ReadScalar mem q :: u32 result) (\<lambda>r. Inr (q + unat r)))"

text \<open>\<^verbatim>\<open>str()\<close> builds a \<^verbatim>\<open>std::string\<close> from the characters up to the first null, whatever the stored length says.\<close>

definition str :: "bytes \<Rightarrow> nat \<Rightarrow> string result" where
  "str mem p =
     (let bs = drop (p + 4) mem
      in if 0 \<in> set bs then Inr (map (\<lambda>b. char_of (unat b)) (takeWhile (\<lambda>b. b \<noteq> 0) bs)) else Inl OutOfBounds)"

section \<open>Reading what the builder wrote\<close>

text \<open>The position of the object at offset \<open>o1\<close> from the end, in a region that holds the buffer after \<open>k\<close> bytes.\<close>

definition pos :: "nat \<Rightarrow> bytes \<Rightarrow> nat \<Rightarrow> nat" where
  "pos k b o1 = k + (length b - o1)"

lemma ReadScalar_has:
  fixes x :: "'a::len word"
  assumes "has b o1 (le_bytes (sizeof TYPE('a word)) x)" "LENGTH('a) \<le> 8 * sizeof TYPE('a word)"
  shows "ReadScalar (pre @ b @ post) (pos (length pre) b o1) = Inr x"
  using has_read[OF assms(1), of pre post] le_word_bytes[OF assms(2), of x] by (simp add: ReadScalar_def pos_def)

lemmas read_has =
  ReadScalar_has[where 'a = 8, simplified] ReadScalar_has[where 'a = 16, simplified]
  ReadScalar_has[where 'a = 32, simplified] ReadScalar_has[where 'a = 64, simplified]

lemma pos_move: "has b o1 bs \<Longrightarrow> d \<le> o1 \<Longrightarrow> pos k b (o1 - d) = pos k b o1 + d"
  by (auto simp: pos_def has_def)

lemma pos_target: "f \<le> length b \<Longrightarrow> r + t = f \<Longrightarrow> pos k b t = pos k b f + r"
  by (auto simp: pos_def)

lemma sint_diff:
  assumes "m < 2 ^ 31" "n < 2 ^ 31"
  shows "sint (of_nat m - of_nat n :: u32) = int m - int n"
proof -
  have "(of_nat m - of_nat n :: u32) = word_of_int (int m - int n)" by simp
  then have "sint (of_nat m - of_nat n :: u32) = signed_take_bit 31 (int m - int n)"
    by (simp only: sint_sbintrunc') simp
  also have "\<dots> = int m - int n" using assms by (simp add: signed_take_bit_int_eq_self_iff)
  finally show ?thesis .
qed

lemma read_slot:
  assumes "has b vo vt" "slot vt i = le_bytes 2 (x :: u16)" "i + 2 \<le> length vt"
  shows "ReadScalar (pre @ b @ post) (pos (length pre) b vo + i) = Inr x"
proof -
  have "has b (vo - i) (drop i vt)" using has_drop[OF assms(1)] assms(3) by simp
  then have "has b (vo - i) (le_bytes 2 x)" using has_take[of b "vo - i" "drop i vt" 2] assms(2) by (simp add: slot_def)
  moreover have "i \<le> vo" using assms(1,3) by (auto dest: has_le)
  then have "pos (length pre) b vo + i = pos (length pre) b (vo - i)" by (metis pos_move[OF assms(1)])
  ultimately show ?thesis by (simp add: read_has)
qed

lemma field_offset_table:
  assumes "table_at b o1 n fs" "length b < max_size" "n < 100" "k < n"
  shows "case map_of fs (4 + 2 * k) of
      None \<Rightarrow> GetOptionalFieldOffset (pre @ b @ post) (pos (length pre) b o1) (4 + 2 * k) = Inr 0
    | Some c \<Rightarrow> \<exists>d. GetOptionalFieldOffset (pre @ b @ post) (pos (length pre) b o1) (4 + 2 * k) = Inr (of_nat d) \<and>
        0 < d \<and> d < 2 ^ 16 \<and> d < o1 \<and> holds b (o1 - d) c"
proof -
  let ?m = "pre @ b @ post" and ?p = "pos (length pre) b o1" and ?i = "4 + 2 * k"
  obtain vo vt where t: "has b o1 (le_bytes 4 (of_nat vo - of_nat o1 :: u32))" "has b vo vt" "length vt = 4 + 2 * n"
    "take 2 vt = le_bytes 2 (of_nat (4 + 2 * n) :: u16)"
    "\<forall>k < n. case map_of fs (4 + 2 * k) of
       None \<Rightarrow> slot vt (4 + 2 * k) = le_bytes 2 (0 :: u16)
     | Some c \<Rightarrow> \<exists>d. slot vt (4 + 2 * k) = le_bytes 2 (of_nat d :: u16) \<and> 0 < d \<and> d < 2 ^ 16 \<and> d < o1 \<and>
         holds b (o1 - d) c"
    using assms(1) unfolding table_at_def by blast
  have le: "vo \<le> length b" "o1 \<le> length b" using has_le t(1,2) by blast+
  then have "vo < 2 ^ 31" "o1 < 2 ^ 31" using assms(2) by (auto simp: max_size_def)
  then have v: "int ?p - sint (of_nat vo - of_nat o1 :: u32) = int (pos (length pre) b vo)"
    using le by (simp add: sint_diff pos_def of_nat_diff)
  have sz: "ReadScalar ?m (pos (length pre) b vo) = Inr (of_nat (4 + 2 * n) :: u16)"
    using read_slot[OF t(2), of 0 "of_nat (4 + 2 * n)" pre post] t(3,4) by (simp add: slot_def)
  have u: "?i < unat (of_nat (4 + 2 * n) :: u16)" using assms(3,4) by (simp only: unat_of_nat) simp
  have so: "ReadScalar ?m ?p = Inr (of_nat vo - of_nat o1 :: u32)" using read_has(3)[OF t(1)] .
  have "GetOptionalFieldOffset ?m ?p ?i = ReadScalar ?m (pos (length pre) b vo + ?i)"
    unfolding GetOptionalFieldOffset_def so Let_def v rbind_simps nat_int sz using u by simp
  moreover have "slot vt ?i = le_bytes 2 x \<Longrightarrow> ReadScalar ?m (pos (length pre) b vo + ?i) = Inr x" for x :: u16
    using read_slot[OF t(2)] t(3) assms(4) by simp
  ultimately have step: "slot vt ?i = le_bytes 2 x \<Longrightarrow> GetOptionalFieldOffset ?m ?p ?i = Inr x" for x :: u16 by simp
  show ?thesis
  proof (cases "map_of fs ?i")
    case None
    then show ?thesis using t(5) assms(4) step by auto
  next
    case (Some c)
    then obtain d where "slot vt ?i = le_bytes 2 (of_nat d :: u16)" "0 < d" "d < 2 ^ 16" "d < o1" "holds b (o1 - d) c"
      using t(5) assms(4) by fastforce
    then have "\<exists>d. GetOptionalFieldOffset ?m ?p ?i = Inr (of_nat d) \<and> 0 < d \<and> d < 2 ^ 16 \<and> d < o1 \<and> holds b (o1 - d) c"
      using step by blast
    with Some show ?thesis by (simp only: option.case)
  qed
qed

lemma unat_offset: "0 < d \<Longrightarrow> d < 2 ^ 16 \<Longrightarrow> unat (of_nat d :: u16) = d \<and> (of_nat d :: u16) \<noteq> 0"
proof -
  assume d: "0 < d" "d < 2 ^ 16"
  then have "unat (of_nat d :: u16) = d" by (simp only: unat_of_nat) simp
  with d(1) show ?thesis by (metis less_irrefl unat_0)
qed

lemma GetField_table:
  fixes e def :: "'a::len word"
  assumes "table_at b o1 n fs" "length b < max_size" "n < 100" "k < n"
    "LENGTH('a) \<le> 8 * sizeof TYPE('a word)"
    "map_of fs (4 + 2 * k) = (if e = def then None else Some (Scalar (le_bytes (sizeof TYPE('a word)) e)))"
  shows "GetField (pre @ b @ post) (pos (length pre) b o1) (4 + 2 * k) def = Inr e"
proof (cases "e = def")
  case True
  then show ?thesis using field_offset_table[OF assms(1-4), of pre post] assms(6) by (simp add: GetField_def)
next
  case False
  let ?m = "pre @ b @ post" and ?p = "pos (length pre) b o1"
  obtain d where d: "GetOptionalFieldOffset ?m ?p (4 + 2 * k) = Inr (of_nat d)" "0 < d" "d < 2 ^ 16" "d < o1"
      "has b (o1 - d) (le_bytes (sizeof TYPE('a word)) e)"
    using field_offset_table[OF assms(1-4), of pre post] assms(6) False by auto
  have "o1 \<le> length b" using assms(1) by (auto simp: table_at_def dest: has_le)
  then have "pos (length pre) b (o1 - d) = ?p + d" using d(4) by (simp add: pos_def)
  then have "ReadScalar ?m (?p + d) = Inr e" using ReadScalar_has[OF d(5) assms(5), of pre post] by simp
  then show ?thesis using d(1) unat_offset[OF d(2,3)] by (simp add: GetField_def)
qed

lemma GetPointer_table:
  assumes "table_at b o1 n fs" "length b < max_size" "n < 100" "k < n" "map_of fs (4 + 2 * k) = Some (Ref t)"
  shows "GetPointer (pre @ b @ post) (pos (length pre) b o1) (4 + 2 * k) = Inr (Some (pos (length pre) b t))"
proof -
  let ?m = "pre @ b @ post" and ?p = "pos (length pre) b o1"
  obtain d r where d: "GetOptionalFieldOffset ?m ?p (4 + 2 * k) = Inr (of_nat d)" "0 < d" "d < 2 ^ 16" "d < o1"
      "has b (o1 - d) (le_bytes 4 (r :: u32))" "unat r + t = o1 - d"
    using field_offset_table[OF assms(1-4), of pre post] assms(5) by auto
  have "o1 \<le> length b" using assms(1) by (auto simp: table_at_def dest: has_le)
  then have q: "pos (length pre) b (o1 - d) = ?p + d" "pos (length pre) b t = ?p + d + unat r"
    using d(4,6) by (simp_all add: pos_def)
  have "ReadScalar ?m (?p + d) = Inr r" using read_has(3)[OF d(5), of pre post] q(1) by simp
  then show ?thesis using d(1) unat_offset[OF d(2,3)] q(2) by (simp add: GetPointer_def)
qed

lemma GetRoot_holds:
  assumes "holds b (length b) (Ref root)"
  shows "GetRoot (pre @ b @ post) (length pre) = Inr (pos (length pre) b root)"
proof -
  obtain r :: u32 where r: "has b (length b) (le_bytes 4 r)" "unat r + root = length b" using assms by auto
  then have "ReadScalar (pre @ b @ post) (length pre) = Inr r"
    using read_has(3)[OF r(1), of pre post] by (simp add: pos_def)
  then show ?thesis using r(2) by (auto simp: GetRoot_def pos_def)
qed

lemma vec_size_at:
  assumes "vec_at b o1 offs" "length b < max_size"
  shows "vec_size (pre @ b @ post) (pos (length pre) b o1) = Inr (of_nat (length offs))"
  using assms(1) read_has(3) by (simp add: vec_at_def vec_size_def)

lemma vec_Get_at:
  assumes "vec_at b o1 offs" "length offs < 2 ^ 32" "i < length offs"
  shows "vec_Get (pre @ b @ post) (pos (length pre) b o1) i = Inr (pos (length pre) b (offs ! i))"
proof -
  let ?m = "pre @ b @ post" and ?p = "pos (length pre) b o1"
  have h: "has b o1 (le_bytes 4 (of_nat (length offs) :: u32))" "holds b (o1 - 4 - 4 * i) (Ref (offs ! i))"
    using assms by (simp_all add: vec_at_def)
  then obtain r :: u32 where r: "has b (o1 - 4 - 4 * i) (le_bytes 4 r)" "unat r + offs ! i = o1 - 4 - 4 * i" by auto
  have "o1 \<le> length b" "4 + 4 * i \<le> o1" using has_le[OF h(1)] has_le[OF r(1)] by auto
  then have q: "pos (length pre) b (o1 - 4 - 4 * i) = ?p + 4 + i * 4" "pos (length pre) b (offs ! i) = ?p + 4 + i * 4 + unat r"
    using r(2) by (simp_all add: pos_def)
  have "ReadScalar ?m (?p + 4 + i * 4) = Inr r" using read_has(3)[OF r(1), of pre post] q(1) by simp
  moreover have "ReadScalar ?m ?p = Inr (of_nat (length offs) :: u32)" using read_has(3)[OF h(1)] .
  moreover have "unat (of_nat (length offs) :: u32) = length offs" using assms(2) by (simp only: unat_of_nat) simp
  ultimately show ?thesis using assms(3) q(2) by (simp add: vec_Get_def vec_size_def Let_def)
qed

text \<open>\<^verbatim>\<open>str()\<close> gives the stored string up to its first null character.\<close>

lemma unat_of_char: "unat (of_char c :: u8) = of_char c"
proof -
  have "(of_char c :: u8) = of_nat (of_char c)" by (simp only: of_nat_of_char)
  then show ?thesis by (simp only: unat_of_nat) simp
qed

definition no_null :: "string \<Rightarrow> bool" where
  "no_null s \<longleftrightarrow> CHR 0x00 \<notin> set s"

lemma of_char_zero: "of_char CHR 0x00 = (0 :: nat)"
  by simp

lemma of_char_not_0: "no_null s \<Longrightarrow> c \<in> set s \<Longrightarrow> (of_char c :: u8) \<noteq> 0"
proof
  assume "no_null s" "c \<in> set s" "(of_char c :: u8) = 0"
  then have "(of_char c :: nat) = 0" using unat_of_char[of c] by simp
  then have "c = CHR 0x00" by (metis char_of_char of_char_eq_iff of_char_zero)
  then show False using \<open>no_null s\<close> \<open>c \<in> set s\<close> by (simp add: no_null_def)
qed

lemma str_at_read:
  assumes "str_at b o1 s" "no_null s"
  shows "str (pre @ b @ post) (pos (length pre) b o1) = Inr s"
proof -
  let ?bs = "le_bytes 4 (of_nat (length s) :: u32) @ map of_char s @ [0]"
  have h: "has b o1 ?bs" using assms(1) by (simp only: str_at_def)
  then obtain rest where r: "drop (length b - o1) b = ?bs @ rest"
    unfolding has_def by (metis append_take_drop_id)
  have le: "o1 \<le> length b" "5 + length s \<le> o1" using has_le[OF h] by simp_all
  have "drop (pos (length pre) b o1 + 4) (pre @ b @ post) = drop 4 (drop (length b - o1) b) @ post"
    using le by (simp add: pos_def add.commute)
  then have d: "drop (pos (length pre) b o1 + 4) (pre @ b @ post) = map of_char s @ 0 # (rest @ post)" by (simp add: r)
  have nz: "\<forall>x \<in> set (map of_char s). x \<noteq> (0 :: u8)" using of_char_not_0[OF assms(2)] by auto
  then have "takeWhile (\<lambda>x. x \<noteq> 0) (map of_char s @ 0 # (rest @ post)) = map (of_char :: char \<Rightarrow> u8) s"
    by (subst takeWhile_append2) auto
  then show ?thesis unfolding str_def d Let_def by (simp add: unat_of_char comp_def)
qed

end
