(* ===== verification/Message.thy ===== *)
theory Message
  imports Prelude
begin

text \<open>
  The message vocabulary of \<^verbatim>\<open>src/src/message/message_generated.h\<close>: the enums \<^verbatim>\<open>STATE\<close> and \<^verbatim>\<open>TYPE\<close>,
  and, for each table, the record of what its accessors return. An accessor of a string, table or
  vector field returns a pointer that is null when the field is absent from the buffer, which
  is \<open>None\<close> here; an accessor of a scalar field returns the field's default instead.
\<close>

section \<open>Enums\<close>

text \<open>
  \<^verbatim>\<open>state()\<close> casts an \<^verbatim>\<open>int8_t\<close> of the buffer to \<^verbatim>\<open>STATE\<close> without a check, so a value outside
  the three enumerators can occur: \<open>STATE_OTHER\<close> keeps it, as the enum's underlying
  32-bit unsigned integer.
\<close>

datatype STATE = STATE_ALIVE | STATE_SUSPECT | STATE_DEAD | STATE_OTHER u32

definition STATE_of_i8 :: "u8 \<Rightarrow> STATE" where
  "STATE_of_i8 b =
     (if b = 0 then STATE_ALIVE else if b = 1 then STATE_SUSPECT else if b = 2 then STATE_DEAD
      else STATE_OTHER (signed_take_bit 7 (ucast b)))"

fun state_val :: "STATE \<Rightarrow> u32" where
  "state_val STATE_ALIVE = 0"
| "state_val STATE_SUSPECT = 1"
| "state_val STATE_DEAD = 2"
| "state_val (STATE_OTHER w) = w"

text \<open>The enum's \<^verbatim>\<open><\<close> and \<^verbatim>\<open>>\<close> compare the underlying values; two representations of one value are equivalent.\<close>

instantiation STATE :: preorder
begin

definition less_eq_STATE :: "STATE \<Rightarrow> STATE \<Rightarrow> bool" where
  "less_eq_STATE a b \<longleftrightarrow> state_val a \<le> state_val b"

definition less_STATE :: "STATE \<Rightarrow> STATE \<Rightarrow> bool" where
  "less_STATE a b \<longleftrightarrow> state_val a < state_val b"

instance
  by standard (auto simp: less_eq_STATE_def less_STATE_def)

end

definition TYPE_PING :: u32 where "TYPE_PING = 0"
definition TYPE_PONG :: u32 where "TYPE_PONG = 1"
definition TYPE_INDIRECTPING :: u32 where "TYPE_INDIRECTPING = 2"
definition TYPE_SYNCSTATE :: u32 where "TYPE_SYNCSTATE = 3"

lemmas TYPE_defs = TYPE_PING_def TYPE_PONG_def TYPE_INDIRECTPING_def TYPE_SYNCSTATE_def

section \<open>Tables\<close>

record fb_Node =
  fn_name :: "string option"
  fn_ip :: "string option"
  fn_port :: i16

record fb_NodeState =
  fs_node :: "fb_Node option"
  fs_state :: STATE
  fs_dominant :: u64
  fs_from :: "string option"
  fs_timeStamp :: u64

record fb_NodeStates =
  fss_nodes :: "fb_NodeState list option"

record fb_Ping =
  pi_seqNo :: u64
  pi_from :: "string option"

record fb_IndirectPing =
  ipi_seqNo :: u64
  ipi_target :: "fb_Node option"

record fb_Pong =
  po_seqNo :: u64

section \<open>Order of states\<close>

lemma state_val_order [simp]:
  "STATE_ALIVE < STATE_SUSPECT" "STATE_SUSPECT < STATE_DEAD" "STATE_ALIVE < STATE_DEAD"
  "\<not> s < STATE_ALIVE"
  by (simp_all add: less_STATE_def)

lemma STATE_less_iff: "(a < b) = (state_val a < state_val (b :: STATE))"
  by (simp add: less_STATE_def)

end
