(* ===== verification/Flat_Messages.thy ===== *)
theory Flat_Messages
  imports Flat_Reader Message
begin

text \<open>
  The generated code of \<^verbatim>\<open>src/src/message/message_generated.h\<close> over the builder and the reader: \<^verbatim>\<open>CreateNode\<close> and
  its siblings, and the accessors of the tables, gathered into the records of the theory \<open>Message\<close>.
  What \<^verbatim>\<open>Create...\<close> writes, the accessors read back, wherever the buffer lies in memory and whatever
  is written to the buffer afterwards.
\<close>

section \<open>Writing\<close>

definition state_i8 :: "STATE \<Rightarrow> u8" where
  "state_i8 st = ucast (state_val st)"

definition CreateNode :: "FlatBufferBuilder \<Rightarrow> nat \<Rightarrow> nat \<Rightarrow> i16 \<Rightarrow> (nat \<times> FlatBufferBuilder) result" where
  "CreateNode fbb name ip port =
     rbind (StartTable fbb) (\<lambda>(start, b).
     rbind (AddOffset b 6 ip) (\<lambda>b.
     rbind (AddOffset b 4 name) (\<lambda>b.
     rbind (AddElement b 8 port 0) (\<lambda>b.
       EndTable b start 3))))"

definition CreateNodeState ::
  "FlatBufferBuilder \<Rightarrow> nat \<Rightarrow> STATE \<Rightarrow> u64 \<Rightarrow> nat \<Rightarrow> u64 \<Rightarrow> (nat \<times> FlatBufferBuilder) result" where
  "CreateNodeState fbb node state dominant from timeStamp =
     rbind (StartTable fbb) (\<lambda>(start, b).
     rbind (AddElement b 12 timeStamp 0) (\<lambda>b.
     rbind (AddElement b 8 dominant 0) (\<lambda>b.
     rbind (AddOffset b 10 from) (\<lambda>b.
     rbind (AddOffset b 4 node) (\<lambda>b.
     rbind (AddElement b 6 (state_i8 state) 0) (\<lambda>b.
       EndTable b start 5))))))"

definition CreateNodeStates :: "FlatBufferBuilder \<Rightarrow> nat \<Rightarrow> (nat \<times> FlatBufferBuilder) result" where
  "CreateNodeStates fbb nodes =
     rbind (StartTable fbb) (\<lambda>(start, b).
     rbind (AddOffset b 4 nodes) (\<lambda>b.
       EndTable b start 1))"

definition CreatePing :: "FlatBufferBuilder \<Rightarrow> u64 \<Rightarrow> nat \<Rightarrow> (nat \<times> FlatBufferBuilder) result" where
  "CreatePing fbb seqNo from =
     rbind (StartTable fbb) (\<lambda>(start, b).
     rbind (AddElement b 4 seqNo 0) (\<lambda>b.
     rbind (AddOffset b 6 from) (\<lambda>b.
       EndTable b start 2)))"

definition CreateIndirectPing :: "FlatBufferBuilder \<Rightarrow> u64 \<Rightarrow> nat \<Rightarrow> (nat \<times> FlatBufferBuilder) result" where
  "CreateIndirectPing fbb seqNo target =
     rbind (StartTable fbb) (\<lambda>(start, b).
     rbind (AddElement b 4 seqNo 0) (\<lambda>b.
     rbind (AddOffset b 6 target) (\<lambda>b.
       EndTable b start 2)))"

definition CreatePong :: "FlatBufferBuilder \<Rightarrow> u64 \<Rightarrow> (nat \<times> FlatBufferBuilder) result" where
  "CreatePong fbb seqNo =
     rbind (StartTable fbb) (\<lambda>(start, b).
     rbind (AddElement b 4 seqNo 0) (\<lambda>b.
       EndTable b start 1))"

section \<open>Reading\<close>

text \<open>An object behind a pointer that may be null.\<close>

definition deref :: "(nat \<Rightarrow> 'a result) \<Rightarrow> nat option \<Rightarrow> 'a option result" where
  "deref rd q = (case q of None \<Rightarrow> Inr None | Some a \<Rightarrow> rbind (rd a) (\<lambda>x. Inr (Some x)))"

definition Node_at :: "bytes \<Rightarrow> nat \<Rightarrow> fb_Node result" where
  "Node_at mem p =
     rbind (rbind (GetPointer mem p 4) (deref (str mem))) (\<lambda>name.
     rbind (rbind (GetPointer mem p 6) (deref (str mem))) (\<lambda>ip.
     rbind (GetField mem p 8 (0 :: i16)) (\<lambda>port.
       Inr \<lparr>fn_name = name, fn_ip = ip, fn_port = port\<rparr>)))"

definition NodeState_at :: "bytes \<Rightarrow> nat \<Rightarrow> fb_NodeState result" where
  "NodeState_at mem p =
     rbind (rbind (GetPointer mem p 4) (deref (Node_at mem))) (\<lambda>node.
     rbind (GetField mem p 6 (0 :: u8)) (\<lambda>state.
     rbind (GetField mem p 8 (0 :: u64)) (\<lambda>dominant.
     rbind (rbind (GetPointer mem p 10) (deref (str mem))) (\<lambda>frm.
     rbind (GetField mem p 12 (0 :: u64)) (\<lambda>timeStamp.
       Inr \<lparr>fs_node = node, fs_state = STATE_of_i8 state, fs_dominant = dominant, fs_from = frm,
            fs_timeStamp = timeStamp\<rparr>)))))"

definition nodes_at :: "bytes \<Rightarrow> nat \<Rightarrow> fb_NodeState list result" where
  "nodes_at mem p =
     rbind (vec_size mem p) (\<lambda>n.
       rmap (\<lambda>i. rbind (vec_Get mem p i) (NodeState_at mem)) [0..<unat n])"

definition NodeStates_at :: "bytes \<Rightarrow> nat \<Rightarrow> fb_NodeStates result" where
  "NodeStates_at mem p =
     rbind (rbind (GetPointer mem p 4) (deref (nodes_at mem))) (\<lambda>ns. Inr \<lparr>fss_nodes = ns\<rparr>)"

definition Ping_at :: "bytes \<Rightarrow> nat \<Rightarrow> fb_Ping result" where
  "Ping_at mem p =
     rbind (GetField mem p 4 (0 :: u64)) (\<lambda>seqNo.
     rbind (rbind (GetPointer mem p 6) (deref (str mem))) (\<lambda>frm.
       Inr \<lparr>pi_seqNo = seqNo, pi_from = frm\<rparr>))"

definition IndirectPing_at :: "bytes \<Rightarrow> nat \<Rightarrow> fb_IndirectPing result" where
  "IndirectPing_at mem p =
     rbind (GetField mem p 4 (0 :: u64)) (\<lambda>seqNo.
     rbind (rbind (GetPointer mem p 6) (deref (Node_at mem))) (\<lambda>target.
       Inr \<lparr>ipi_seqNo = seqNo, ipi_target = target\<rparr>))"

definition Pong_at :: "bytes \<Rightarrow> nat \<Rightarrow> fb_Pong result" where
  "Pong_at mem p = rbind (GetField mem p 4 (0 :: u64)) (\<lambda>seqNo. Inr \<lparr>po_seqNo = seqNo\<rparr>)"

definition GetNodeStates :: "bytes \<Rightarrow> nat \<Rightarrow> fb_NodeStates result" where
  "GetNodeStates mem p = rbind (GetRoot mem p) (NodeStates_at mem)"

section \<open>What the tables hold\<close>

definition scalar_field :: "nat \<Rightarrow> 'a::len word \<Rightarrow> (nat \<times> field) list" where
  "scalar_field i e = (if e = 0 then [] else [(i, Scalar (le_bytes (sizeof TYPE('a word)) e))])"

definition node_fields :: "nat \<Rightarrow> nat \<Rightarrow> i16 \<Rightarrow> (nat \<times> field) list" where
  "node_fields name ip port = [(6, Ref ip), (4, Ref name)] @ scalar_field 8 port"

definition state_fields :: "nat \<Rightarrow> STATE \<Rightarrow> u64 \<Rightarrow> nat \<Rightarrow> u64 \<Rightarrow> (nat \<times> field) list" where
  "state_fields node st dominant frm ts =
     scalar_field 12 ts @ scalar_field 8 dominant @ [(10, Ref frm), (4, Ref node)] @ scalar_field 6 (state_i8 st)"

definition ping_fields :: "u64 \<Rightarrow> nat \<Rightarrow> (nat \<times> field) list" where
  "ping_fields seqNo frm = scalar_field 4 seqNo @ [(6, Ref frm)]"

lemma StartTable_ok:
  "fbb_idle b \<Longrightarrow> StartTable b = Inr (length (fbb_buf b), b\<lparr>fbb_nested := True\<rparr>) \<and>
     building (b\<lparr>fbb_nested := True\<rparr>) (length (fbb_buf b)) []"
  by (simp add: StartTable_def fbb_idle_def GetSize_def building_def)

text \<open>Adding a scalar field with default 0, with the bounds of its growth.\<close>

lemma add_scalar:
  fixes e :: "'a::len word"
  assumes "building b start fs" "scalar_size (sizeof TYPE('a word))" "length (fbb_buf b) + 16 \<le> max_size"
  obtains b' where "AddElement b i e 0 = Inr b'" "grows 16 b b'" "building b' start (fs @ scalar_field i e)"
proof -
  have w: "sizeof TYPE('a word) \<le> 8" using assms(2) by (auto simp: scalar_size_def)
  then obtain b' where "AddElement b i e 0 = Inr b'" "grows (2 * sizeof TYPE('a word)) b b'"
    "building b' start (fs @ scalar_field i e)"
    using AddElement_ok[OF assms(1) refl assms(2), of i e 0] assms(3) by (auto simp: scalar_field_def)
  then show thesis using that[of b'] grows_mono[of _ b b' 16] w by simp
qed

lemma add_ref:
  assumes "building b start fs" "off \<noteq> 0" "off \<le> length (fbb_buf b)" "length (fbb_buf b) + 16 \<le> max_size"
  obtains b' where "AddOffset b i off = Inr b'" "grows 8 b b'" "building b' start (fs @ [(i, Ref off)])"
  using AddOffset_ok[OF assms(1-3), of i] assms(4) by auto

lemma end_table:
  assumes "building b start fs" "fst ` set fs \<subseteq> vt_ids n" "distinct (map fst fs)" "n < 100" "start = length (fbb_buf b0)"
    "grows k b0 b" "length (fbb_buf b0) + k + 24 + 2 * n \<le> max_size" "k + 8 \<le> 2 ^ 16"
  obtains o1 b' where "EndTable b start n = Inr (o1, b')" "fbb_idle b'" "grows (k + (12 + 2 * n)) b0 b'" "o1 \<noteq> 0"
    "o1 \<le> length (fbb_buf b')" "table_at (fbb_buf b') o1 n fs"
proof -
  have l: "length (fbb_buf b) \<le> length (fbb_buf b0) + k" using grows_length[OF assms(6)] by simp
  obtain o1 b' where e: "EndTable b start n = Inr (o1, b')" "fbb_idle b'" "grows (12 + 2 * n) b b'" "o1 \<noteq> 0"
    "o1 \<le> length (fbb_buf b')" "table_at (fbb_buf b') o1 n fs"
    using EndTable_ok[OF assms(1-4)] l assms(5,7,8) by auto
  from that[OF e(1,2) grows_trans[OF assms(6) e(3)] e(4-6)] show thesis .
qed

lemma vt_ids_mem: "i \<in> vt_ids n \<longleftrightarrow> 4 \<le> i \<and> even i \<and> i < 4 + 2 * n"
proof
  assume "4 \<le> i \<and> even i \<and> i < 4 + 2 * n"
  then have "i = 4 + 2 * ((i - 4) div 2)" "(i - 4) div 2 < n" by auto
  then show "i \<in> vt_ids n" unfolding vt_ids_def by blast
qed (auto simp: vt_ids_def)

lemma fields_ids:
  "fst ` set (node_fields name ip port) \<subseteq> vt_ids 3" "distinct (map fst (node_fields name ip port))"
  "fst ` set (state_fields node st dominant frm ts) \<subseteq> vt_ids 5" "distinct (map fst (state_fields node st dominant frm ts))"
  "fst ` set (ping_fields seqNo frm) \<subseteq> vt_ids 2" "distinct (map fst (ping_fields seqNo frm))"
  "fst ` set [(4, Ref t)] \<subseteq> vt_ids 1" "distinct (map fst [(4 :: nat, Ref t)])"
  "fst ` set (scalar_field 4 seqNo) \<subseteq> vt_ids 1" "distinct (map fst (scalar_field 4 seqNo))"
  by (auto simp: node_fields_def state_fields_def ping_fields_def scalar_field_def vt_ids_mem)

lemma CreateNode_ok:
  assumes "fbb_idle b" "name \<noteq> 0" "name \<le> length (fbb_buf b)" "ip \<noteq> 0" "ip \<le> length (fbb_buf b)"
    "length (fbb_buf b) + 70 \<le> max_size"
  obtains o1 b' where "CreateNode b name ip port = Inr (o1, b')" "fbb_idle b'" "grows 50 b b'" "o1 \<noteq> 0"
    "o1 \<le> length (fbb_buf b')" "table_at (fbb_buf b') o1 3 (node_fields name ip port)"
proof -
  let ?b0 = "b\<lparr>fbb_nested := True\<rparr>" and ?s = "length (fbb_buf b)"
  note s = StartTable_ok[OF assms(1)]
  obtain b1 where b1: "AddOffset ?b0 6 ip = Inr b1" "grows 8 ?b0 b1" "building b1 ?s [(6, Ref ip)]"
    using add_ref[of ?b0 ?s "[]" ip 6] s assms by auto
  note l1 = grows_length[OF b1(2)]
  obtain b2 where b2: "AddOffset b1 4 name = Inr b2" "grows 8 b1 b2" "building b2 ?s [(6, Ref ip), (4, Ref name)]"
    using add_ref[OF b1(3), of name 4] l1 assms by auto
  note g2 = grows_trans[OF b1(2) b2(2)]
  obtain b3 where b3: "AddElement b2 8 port 0 = Inr b3" "grows 16 b2 b3" "building b3 ?s (node_fields name ip port)"
    using add_scalar[OF b2(3), of 8 port] grows_length[OF g2] assms by (auto simp: node_fields_def)
  have "grows 32 ?b0 b3" using grows_trans[OF g2 b3(2)] by simp
  then obtain o1 b4 where e: "EndTable b3 ?s 3 = Inr (o1, b4)" "fbb_idle b4" "grows 50 ?b0 b4" "o1 \<noteq> 0"
    "o1 \<le> length (fbb_buf b4)" "table_at (fbb_buf b4) o1 3 (node_fields name ip port)"
    using end_table[OF b3(3) fields_ids(1,2), of ?b0 32] assms(6) by auto
  have "CreateNode b name ip port = Inr (o1, b4)" using s b1(1) b2(1) b3(1) e(1) by (simp add: CreateNode_def)
  moreover have "grows 50 b b4" using e(3) by (simp add: grows_def)
  ultimately show thesis using that e by blast
qed

lemma CreateNodeState_ok:
  assumes "fbb_idle b" "node \<noteq> 0" "node \<le> length (fbb_buf b)" "frm \<noteq> 0" "frm \<le> length (fbb_buf b)"
    "length (fbb_buf b) + 110 \<le> max_size"
  obtains o1 b' where "CreateNodeState b node st dominant frm ts = Inr (o1, b')" "fbb_idle b'" "grows 86 b b'" "o1 \<noteq> 0"
    "o1 \<le> length (fbb_buf b')" "table_at (fbb_buf b') o1 5 (state_fields node st dominant frm ts)"
proof -
  let ?b0 = "b\<lparr>fbb_nested := True\<rparr>" and ?s = "length (fbb_buf b)"
  note s = StartTable_ok[OF assms(1)]
  obtain b1 where b1: "AddElement ?b0 12 ts 0 = Inr b1" "grows 16 ?b0 b1" "building b1 ?s (scalar_field 12 ts)"
    using add_scalar[of ?b0 ?s "[]" 12 ts] s assms by auto
  note l1 = grows_length[OF b1(2)]
  obtain b2 where b2: "AddElement b1 8 dominant 0 = Inr b2" "grows 16 b1 b2"
    "building b2 ?s (scalar_field 12 ts @ scalar_field 8 dominant)"
    using add_scalar[OF b1(3), of 8 dominant] l1 assms by auto
  note g2 = grows_trans[OF b1(2) b2(2)] note l2 = grows_length[OF g2]
  obtain b3 where b3: "AddOffset b2 10 frm = Inr b3" "grows 8 b2 b3"
    "building b3 ?s ((scalar_field 12 ts @ scalar_field 8 dominant) @ [(10, Ref frm)])"
    using add_ref[OF b2(3), of frm 10] l2 assms by auto
  note g3 = grows_trans[OF g2 b3(2)] note l3 = grows_length[OF g3]
  obtain b4 where b4: "AddOffset b3 4 node = Inr b4" "grows 8 b3 b4"
    "building b4 ?s (((scalar_field 12 ts @ scalar_field 8 dominant) @ [(10, Ref frm)]) @ [(4, Ref node)])"
    using add_ref[OF b3(3), of node 4] l3 assms by auto
  note g4 = grows_trans[OF g3 b4(2)] note l4 = grows_length[OF g4]
  obtain b5 where b5: "AddElement b4 6 (state_i8 st) 0 = Inr b5" "grows 16 b4 b5"
    "building b5 ?s (state_fields node st dominant frm ts)"
    using add_scalar[OF b4(3), of 6 "state_i8 st"] l4 assms by (auto simp: state_fields_def)
  have "grows 64 ?b0 b5" using grows_trans[OF g4 b5(2)] by simp
  then obtain o1 b' where e: "EndTable b5 ?s 5 = Inr (o1, b')" "fbb_idle b'" "grows 86 ?b0 b'" "o1 \<noteq> 0"
    "o1 \<le> length (fbb_buf b')" "table_at (fbb_buf b') o1 5 (state_fields node st dominant frm ts)"
    using end_table[OF b5(3) fields_ids(3,4), of ?b0 64] assms(6) by auto
  have "CreateNodeState b node st dominant frm ts = Inr (o1, b')"
    using s b1(1) b2(1) b3(1) b4(1) b5(1) e(1) by (simp add: CreateNodeState_def)
  moreover have "grows 86 b b'" using e(3) by (simp add: grows_def)
  ultimately show thesis using that e by blast
qed

lemma CreateNodeStates_ok:
  assumes "fbb_idle b" "nodes \<noteq> 0" "nodes \<le> length (fbb_buf b)" "length (fbb_buf b) + 40 \<le> max_size"
  obtains o1 b' where "CreateNodeStates b nodes = Inr (o1, b')" "fbb_idle b'" "grows 22 b b'" "o1 \<noteq> 0"
    "o1 \<le> length (fbb_buf b')" "table_at (fbb_buf b') o1 1 [(4, Ref nodes)]"
proof -
  let ?b0 = "b\<lparr>fbb_nested := True\<rparr>" and ?s = "length (fbb_buf b)"
  note s = StartTable_ok[OF assms(1)]
  obtain b1 where b1: "AddOffset ?b0 4 nodes = Inr b1" "grows 8 ?b0 b1" "building b1 ?s [(4, Ref nodes)]"
    using add_ref[of ?b0 ?s "[]" nodes 4] s assms by auto
  obtain o1 b' where e: "EndTable b1 ?s 1 = Inr (o1, b')" "fbb_idle b'" "grows 22 ?b0 b'" "o1 \<noteq> 0"
    "o1 \<le> length (fbb_buf b')" "table_at (fbb_buf b') o1 1 [(4, Ref nodes)]"
    using end_table[OF b1(3) fields_ids(7,8), of ?b0 8] b1(2) assms(4) by auto
  have "CreateNodeStates b nodes = Inr (o1, b')" using s b1(1) e(1) by (simp add: CreateNodeStates_def)
  moreover have "grows 22 b b'" using e(3) by (simp add: grows_def)
  ultimately show thesis using that e by blast
qed

lemma CreatePing_ok:
  assumes "fbb_idle b" "frm \<noteq> 0" "frm \<le> length (fbb_buf b)" "length (fbb_buf b) + 60 \<le> max_size"
  obtains o1 b' where "CreatePing b seqNo frm = Inr (o1, b')" "fbb_idle b'" "grows 40 b b'" "o1 \<noteq> 0"
    "o1 \<le> length (fbb_buf b')" "table_at (fbb_buf b') o1 2 (ping_fields seqNo frm)"
proof -
  let ?b0 = "b\<lparr>fbb_nested := True\<rparr>" and ?s = "length (fbb_buf b)"
  note s = StartTable_ok[OF assms(1)]
  obtain b1 where b1: "AddElement ?b0 4 seqNo 0 = Inr b1" "grows 16 ?b0 b1" "building b1 ?s (scalar_field 4 seqNo)"
    using add_scalar[of ?b0 ?s "[]" 4 seqNo] s assms by auto
  obtain b2 where b2: "AddOffset b1 6 frm = Inr b2" "grows 8 b1 b2" "building b2 ?s (ping_fields seqNo frm)"
    using add_ref[OF b1(3), of frm 6] grows_length[OF b1(2)] assms by (auto simp: ping_fields_def)
  have "grows 24 ?b0 b2" using grows_trans[OF b1(2) b2(2)] by simp
  then obtain o1 b' where e: "EndTable b2 ?s 2 = Inr (o1, b')" "fbb_idle b'" "grows 40 ?b0 b'" "o1 \<noteq> 0"
    "o1 \<le> length (fbb_buf b')" "table_at (fbb_buf b') o1 2 (ping_fields seqNo frm)"
    using end_table[OF b2(3) fields_ids(5,6), of ?b0 24] assms(4) by auto
  have "CreatePing b seqNo frm = Inr (o1, b')" using s b1(1) b2(1) e(1) by (simp add: CreatePing_def)
  moreover have "grows 40 b b'" using e(3) by (simp add: grows_def)
  ultimately show thesis using that e by blast
qed

lemma CreatePong_ok:
  assumes "fbb_idle b" "length (fbb_buf b) + 60 \<le> max_size"
  obtains o1 b' where "CreatePong b seqNo = Inr (o1, b')" "fbb_idle b'" "grows 30 b b'" "o1 \<noteq> 0"
    "o1 \<le> length (fbb_buf b')" "table_at (fbb_buf b') o1 1 (scalar_field 4 seqNo)"
proof -
  let ?b0 = "b\<lparr>fbb_nested := True\<rparr>" and ?s = "length (fbb_buf b)"
  note s = StartTable_ok[OF assms(1)]
  obtain b1 where b1: "AddElement ?b0 4 seqNo 0 = Inr b1" "grows 16 ?b0 b1" "building b1 ?s (scalar_field 4 seqNo)"
    using add_scalar[of ?b0 ?s "[]" 4 seqNo] s assms by auto
  obtain o1 b' where e: "EndTable b1 ?s 1 = Inr (o1, b')" "fbb_idle b'" "grows 30 ?b0 b'" "o1 \<noteq> 0"
    "o1 \<le> length (fbb_buf b')" "table_at (fbb_buf b') o1 1 (scalar_field 4 seqNo)"
    using end_table[OF b1(3) fields_ids(9,10), of ?b0 16] b1(2) assms(2) by auto
  have "CreatePong b seqNo = Inr (o1, b')" using s b1(1) e(1) by (simp add: CreatePong_def)
  moreover have "grows 30 b b'" using e(3) by (simp add: grows_def)
  ultimately show thesis using that e by blast
qed

section \<open>Reading it back\<close>

text \<open>The tables of a complete node and a complete node state, with their strings.\<close>

definition node_tree :: "bytes \<Rightarrow> nat \<Rightarrow> string \<Rightarrow> string \<Rightarrow> i16 \<Rightarrow> bool" where
  "node_tree b o1 name ip port \<longleftrightarrow>
     (\<exists>n i. table_at b o1 3 (node_fields n i port) \<and> str_at b n name \<and> str_at b i ip)"

definition state_tree :: "bytes \<Rightarrow> nat \<Rightarrow> fb_NodeState \<Rightarrow> bool" where
  "state_tree b o1 s \<longleftrightarrow>
     (\<exists>nd fr name ip port frm st. table_at b o1 5 (state_fields nd st (fs_dominant s) fr (fs_timeStamp s)) \<and>
        node_tree b nd name ip port \<and> str_at b fr frm \<and> no_null name \<and> no_null ip \<and> no_null frm \<and>
        fs_node s = Some \<lparr>fn_name = Some name, fn_ip = Some ip, fn_port = port\<rparr> \<and> fs_from s = Some frm \<and>
        fs_state s = STATE_of_i8 (state_i8 st))"

lemma node_tree_ext: "node_tree b o1 name ip port \<Longrightarrow> node_tree (p @ b) o1 name ip port"
  unfolding node_tree_def using table_at_ext str_at_ext by blast

lemma state_tree_ext: "state_tree b o1 s \<Longrightarrow> state_tree (p @ b) o1 s"
  unfolding state_tree_def
  by (elim exE conjE, intro exI conjI, erule table_at_ext, erule node_tree_ext, erule str_at_ext) assumption+

lemma Node_at_read:
  assumes "node_tree b o1 name ip port" "length b < max_size" "no_null name" "no_null ip"
  shows "Node_at (pre @ b @ post) (pos (length pre) b o1) =
    Inr \<lparr>fn_name = Some name, fn_ip = Some ip, fn_port = port\<rparr>"
proof -
  obtain n i where t: "table_at b o1 3 (node_fields n i port)" "str_at b n name" "str_at b i ip"
    using assms(1) by (auto simp: node_tree_def)
  let ?m = "pre @ b @ post" and ?p = "pos (length pre) b o1"
  have "GetPointer ?m ?p 4 = Inr (Some (pos (length pre) b n))" "GetPointer ?m ?p 6 = Inr (Some (pos (length pre) b i))"
    using GetPointer_table[OF t(1) assms(2), of 0] GetPointer_table[OF t(1) assms(2), of 1]
    by (simp_all add: node_fields_def scalar_field_def)
  moreover have "GetField ?m ?p 8 (0 :: i16) = Inr port"
    using GetField_table[OF t(1) assms(2), of 2 port 0] by (simp add: node_fields_def scalar_field_def)
  ultimately show ?thesis
    using str_at_read[OF t(2) assms(3)] str_at_read[OF t(3) assms(4)] by (simp add: Node_at_def deref_def)
qed

lemma NodeState_at_read:
  assumes "state_tree b o1 s" "length b < max_size"
  shows "NodeState_at (pre @ b @ post) (pos (length pre) b o1) = Inr s"
proof -
  obtain nd fr name ip port frm st where
    t: "table_at b o1 5 (state_fields nd st (fs_dominant s) fr (fs_timeStamp s))"
      "node_tree b nd name ip port" "str_at b fr frm" "no_null name" "no_null ip" "no_null frm"
      "fs_node s = Some \<lparr>fn_name = Some name, fn_ip = Some ip, fn_port = port\<rparr>" "fs_from s = Some frm"
      "fs_state s = STATE_of_i8 (state_i8 st)"
    using assms(1) unfolding state_tree_def by blast
  let ?m = "pre @ b @ post" and ?p = "pos (length pre) b o1"
  have "GetPointer ?m ?p 4 = Inr (Some (pos (length pre) b nd))" "GetPointer ?m ?p 10 = Inr (Some (pos (length pre) b fr))"
    using GetPointer_table[OF t(1) assms(2), of 0] GetPointer_table[OF t(1) assms(2), of 3]
    by (simp_all add: state_fields_def scalar_field_def)
  moreover have "GetField ?m ?p 6 (0 :: u8) = Inr (state_i8 st)" "GetField ?m ?p 8 (0 :: u64) = Inr (fs_dominant s)"
    "GetField ?m ?p 12 (0 :: u64) = Inr (fs_timeStamp s)"
    using GetField_table[OF t(1) assms(2), of 1 "state_i8 st" 0] GetField_table[OF t(1) assms(2), of 2 "fs_dominant s" 0]
      GetField_table[OF t(1) assms(2), of 4 "fs_timeStamp s" 0]
    by (simp_all add: state_fields_def scalar_field_def)
  moreover have "Node_at ?m (pos (length pre) b nd) = Inr \<lparr>fn_name = Some name, fn_ip = Some ip, fn_port = port\<rparr>"
    using Node_at_read[OF t(2) assms(2) t(4,5)] .
  moreover have "str ?m (pos (length pre) b fr) = Inr frm" using str_at_read[OF t(3,6)] .
  ultimately show ?thesis using t(7-9) by (simp add: NodeState_at_def deref_def)
qed

lemma NodeStates_at_read:
  assumes "table_at b o1 1 [(4, Ref v)]" "vec_at b v offs" "list_all2 (state_tree b) offs ss" "length b < max_size"
    "length offs < 2 ^ 32"
  shows "NodeStates_at (pre @ b @ post) (pos (length pre) b o1) = Inr \<lparr>fss_nodes = Some ss\<rparr>"
proof -
  let ?m = "pre @ b @ post" and ?p = "pos (length pre) b"
  have len: "length offs = length ss" using assms(3) by (rule list_all2_lengthD)
  have u: "unat (of_nat (length offs) :: u32) = length offs" using assms(5) by (simp only: unat_of_nat) simp
  have "rbind (vec_Get ?m (?p v) i) (NodeState_at ?m) = Inr (ss ! i)" if "i \<in> set [0..<length offs]" for i
    using that vec_Get_at[OF assms(2,5), of i pre post] NodeState_at_read[OF list_all2_nthD[OF assms(3)] assms(4), of i pre post]
    by simp
  then have "rmap (\<lambda>i. rbind (vec_Get ?m (?p v) i) (NodeState_at ?m)) [0..<length offs] = Inr (map (\<lambda>i. ss ! i) [0..<length offs])"
    by (rule rmap_map)
  moreover have "vec_size ?m (?p v) = Inr (of_nat (length offs))" using vec_size_at[OF assms(2,4)] .
  ultimately have "nodes_at ?m (?p v) = Inr ss" by (simp add: nodes_at_def u) (simp add: len map_nth)
  moreover have "GetPointer ?m (?p o1) 4 = Inr (Some (?p v))"
    using GetPointer_table[OF assms(1,4), of 0] by simp
  ultimately show ?thesis by (simp add: NodeStates_at_def deref_def)
qed

lemma Ping_at_read:
  assumes "table_at b o1 2 (ping_fields seqNo f)" "str_at b f frm" "no_null frm" "length b < max_size"
  shows "Ping_at (pre @ b @ post) (pos (length pre) b o1) = Inr \<lparr>pi_seqNo = seqNo, pi_from = Some frm\<rparr>"
proof -
  let ?m = "pre @ b @ post" and ?p = "pos (length pre) b o1"
  have "GetPointer ?m ?p 6 = Inr (Some (pos (length pre) b f))"
    using GetPointer_table[OF assms(1,4), of 1] by (simp add: ping_fields_def scalar_field_def)
  moreover have "GetField ?m ?p 4 (0 :: u64) = Inr seqNo"
    using GetField_table[OF assms(1,4), of 0 seqNo 0] by (simp add: ping_fields_def scalar_field_def)
  ultimately show ?thesis using str_at_read[OF assms(2,3)] by (simp add: Ping_at_def deref_def)
qed

lemma Pong_at_read:
  assumes "table_at b o1 1 (scalar_field 4 seqNo)" "length b < max_size"
  shows "Pong_at (pre @ b @ post) (pos (length pre) b o1) = Inr \<lparr>po_seqNo = seqNo\<rparr>"
  using GetField_table[OF assms, of 0 seqNo 0 pre post] by (simp add: Pong_at_def scalar_field_def)

end
