(* ===== verification/Utils.thy ===== *)
theory Utils
  imports Prelude
begin

text \<open>
  \<^verbatim>\<open>Split\<close> of \<^verbatim>\<open>src/src/utils.hpp\<close>, and the conversions between integers and decimal strings the program
  takes from the standard library: \<^verbatim>\<open>std::string::find\<close>, \<^verbatim>\<open>std::to_string\<close> and \<^verbatim>\<open>std::stoi\<close>.

  The positions of \<^verbatim>\<open>Split\<close> are natural numbers here and \<^verbatim>\<open>int\<close> in the code, which agree for
  strings shorter than \<open>2 ^ 31\<close>; \<^verbatim>\<open>npos\<close> is \<open>None\<close>. The loop of \<^verbatim>\<open>Split\<close> does not end on an empty
  separator, so it is a partial function: \<open>None\<close> means that it does not return.
\<close>

section \<open>Splitting a string\<close>

function str_find :: "string \<Rightarrow> string \<Rightarrow> nat \<Rightarrow> nat option" where
  "str_find s sep i =
     (if length s < i then None
      else if take (length sep) (drop i s) = sep then Some i
      else str_find s sep (Suc i))"
  by pat_completeness auto
termination
  by (relation "measure (\<lambda>(s, sep, i). Suc (length s) - i)") auto

declare str_find.simps [simp del]

partial_function (option) split_loop ::
  "string \<Rightarrow> string \<Rightarrow> nat \<Rightarrow> nat option \<Rightarrow> string list \<Rightarrow> string list option" where
  "split_loop s sep start mark rst =
     (case mark of
        None \<Rightarrow> Some (if start < length s then rst @ [drop start s] else rst)
      | Some k \<Rightarrow>
          split_loop s sep (k + length sep) (str_find s sep (k + length sep))
            (rst @ [take (k - start) (drop start s)]))"

definition Split :: "string \<Rightarrow> string \<Rightarrow> string list option" where
  "Split s sep = split_loop s sep 0 (str_find s sep 0) []"

section \<open>Integers and decimal strings\<close>

definition digit_char :: "nat \<Rightarrow> char" where
  "digit_char d = char_of (48 + d)"

fun nat_digits :: "nat \<Rightarrow> string" where
  "nat_digits n =
     (if n < 10 then [digit_char n] else nat_digits (n div 10) @ [digit_char (n mod 10)])"

declare nat_digits.simps [simp del]

definition to_string :: "int \<Rightarrow> string" where
  "to_string i = (if i < 0 then CHR ''-'' # nat_digits (nat (- i)) else nat_digits (nat i))"

definition is_digit :: "char \<Rightarrow> bool" where
  "is_digit c \<longleftrightarrow> 48 \<le> (of_char c :: nat) \<and> (of_char c :: nat) \<le> 57"

definition is_space :: "char \<Rightarrow> bool" where
  "is_space c \<longleftrightarrow> (of_char c :: nat) \<in> {9, 10, 11, 12, 13, 32}"

fun digits_val :: "nat \<Rightarrow> string \<Rightarrow> nat" where
  "digits_val acc [] = acc"
| "digits_val acc (c # cs) = digits_val (acc * 10 + (of_char c - 48)) cs"

text \<open>
  \<^verbatim>\<open>std::stoi\<close>: white space and an optional sign are skipped, then the longest run of digits is read
  and the rest ignored; no digits is \<^verbatim>\<open>invalid_argument\<close>, a value outside \<^verbatim>\<open>int\<close> is \<^verbatim>\<open>out_of_range\<close>.
\<close>

definition stoi :: "string \<Rightarrow> int result" where
  "stoi s =
     (let s1 = dropWhile is_space s;
          neg = (s1 \<noteq> [] \<and> hd s1 = CHR ''-'');
          s2 = (if s1 \<noteq> [] \<and> hd s1 \<in> {CHR ''-'', CHR ''+''} then tl s1 else s1);
          ds = takeWhile is_digit s2;
          v = (if neg then - int (digits_val 0 ds) else int (digits_val 0 ds))
      in if ds = [] then Inl InvalidArgument
         else if v < - (2 ^ 31) \<or> 2 ^ 31 \<le> v then Inl OutOfRange
         else Inr v)"

text \<open>What \<^verbatim>\<open>Split\<close> computes for a one-character separator, as a recursion over the string.\<close>

function split_fields :: "char \<Rightarrow> string \<Rightarrow> string list" where
  "split_fields c s =
     (if s = [] then []
      else if c \<in> set s
      then takeWhile (\<lambda>x. x \<noteq> c) s # split_fields c (tl (dropWhile (\<lambda>x. x \<noteq> c) s))
      else [s])"
  by pat_completeness auto
termination
proof (relation "measure (\<lambda>(c, s). length s)")
  fix c :: char and s :: string
  assume "s \<noteq> []" "c \<in> set s"
  then have "dropWhile (\<lambda>x. x \<noteq> c) s \<noteq> []" by simp
  then have "length (tl (dropWhile (\<lambda>x. x \<noteq> c) s)) < length (dropWhile (\<lambda>x. x \<noteq> c) s)"
    by (cases "dropWhile (\<lambda>x. x \<noteq> c) s") simp_all
  also have "\<dots> \<le> length s" by (rule length_dropWhile_le)
  finally show "((c, tl (dropWhile (\<lambda>x. x \<noteq> c) s)), c, s) \<in> measure (\<lambda>(c, s). length s)" by simp
qed simp

declare split_fields.simps [simp del]

section \<open>Facts on find\<close>

lemma str_find_Some:
  "str_find s sep i = Some k \<Longrightarrow>
     i \<le> k \<and> k + length sep \<le> length s \<and> take (length sep) (drop k s) = sep"
proof (induction s sep i rule: str_find.induct)
  case (1 s sep i)
  show ?case
  proof (cases "length s < i \<or> take (length sep) (drop i s) = sep")
    case True
    with "1.prems" have "k = i" "i \<le> length s" "take (length sep) (drop i s) = sep"
      by (auto simp: str_find.simps[of s sep i] split: if_splits)
    moreover from this have "length sep \<le> length s - i" by (metis length_drop length_take min.cobounded1)
    ultimately show ?thesis by simp
  next
    case False
    with "1.prems" "1.IH" show ?thesis by (simp add: str_find.simps[of s sep i])
  qed
qed

lemma str_find_char:
  assumes "i \<le> length s"
  shows "str_find s [c] i =
    (if c \<in> set (drop i s) then Some (i + length (takeWhile (\<lambda>x. x \<noteq> c) (drop i s))) else None)"
  using assms
proof (induction s "[c]" i rule: str_find.induct)
  case (1 s i)
  show ?case
  proof (cases "drop i s")
    case Nil
    then have "length s < Suc i" by simp
    then have "str_find s [c] (Suc i) = None" by (subst str_find.simps) simp
    with Nil show ?thesis using "1.prems" by (subst str_find.simps) simp
  next
    case (Cons x xs)
    then have xs: "drop (Suc i) s = xs" by (metis drop_Suc list.sel(3) tl_drop)
    have len: "Suc i \<le> length s" using Cons by (metis drop_eq_Nil2 list.distinct(1) not_less_eq_eq)
    have step: "str_find s [c] i = (if x = c then Some i else str_find s [c] (Suc i))"
      using "1.prems" Cons by (subst str_find.simps) simp
    show ?thesis
      using "1.hyps"[OF _ _ len] "1.prems" Cons xs by (auto simp: step)
  qed
qed

section \<open>Facts on Split\<close>

lemma split_loop_returns:
  assumes "sep \<noteq> []"
  shows "\<exists>r. split_loop s sep start (str_find s sep start) rst = Some r"
proof (induction "Suc (length s) - start" arbitrary: start rst rule: less_induct)
  case less
  show ?case
  proof (cases "str_find s sep start")
    case None
    then show ?thesis by (subst split_loop.simps) simp
  next
    case (Some k)
    from str_find_Some[OF this] assms have "Suc (length s) - (k + length sep) < Suc (length s) - start"
      by (cases sep) auto
    from less[OF this] Some show ?thesis by (subst split_loop.simps) simp
  qed
qed

lemma split_loop_empty_sep:
  assumes "start \<le> length s"
  shows "split_loop s [] start (Some start) rst = None"
proof (rule ccontr)
  assume "split_loop s [] start (Some start) rst \<noteq> None"
  then obtain r where r: "split_loop s [] start (Some start) rst = Some r" by auto
  let ?P = "\<lambda>(s :: string) (sep :: string) start mark (rst :: string list) (r :: string list). \<not> (sep = [] \<and> start \<le> length s \<and> mark = Some start)"
  have "?P s [] start (Some start) rst r"
  proof (rule split_loop.raw_induct[where P = ?P, OF _ r])
    fix f s sep start mark rst and r :: "string list"
    assume IH: "\<And>s sep start mark rst r. f s sep start mark rst = Some r \<Longrightarrow> ?P s sep start mark rst r"
      and eq: "(case mark of
          None \<Rightarrow> Some (if start < length s then rst @ [drop start s] else rst)
        | Some k \<Rightarrow> f s sep (k + length sep) (str_find s sep (k + length sep))
            (rst @ [take (k - start) (drop start s)])) = Some r"
    show "?P s sep start mark rst r"
    proof
      assume a: "sep = [] \<and> start \<le> length s \<and> mark = Some start"
      have "str_find s [] start = Some start" using a by (subst str_find.simps) simp
      with a eq have "f s [] start (Some start) (rst @ [take (start - start) (drop start s)]) = Some r" by simp
      from IH[OF this] a show False by simp
    qed
  qed
  with assms show False by simp
qed

lemma split_loop_char:
  assumes "start \<le> length s"
  shows "split_loop s [c] start (str_find s [c] start) rst = Some (rst @ split_fields c (drop start s))"
  using assms
proof (induction "length s - start" arbitrary: start rst rule: less_induct)
  case less
  let ?d = "drop start s" and ?n = "length (takeWhile (\<lambda>x. x \<noteq> c) (drop start s))"
  show ?case
  proof (cases "c \<in> set ?d")
    case False
    then have "str_find s [c] start = None" using less.prems by (simp add: str_find_char)
    then show ?thesis using False by (subst split_loop.simps) (simp add: split_fields.simps[of c ?d])
  next
    case True
    then have f: "str_find s [c] start = Some (start + ?n)" using less.prems by (simp add: str_find_char)
    have rest: "drop (Suc (start + ?n)) s = tl (dropWhile (\<lambda>x. x \<noteq> c) ?d)"
      by (simp add: dropWhile_eq_drop drop_Suc tl_drop add.commute)
    from str_find_Some[OF f] have le: "start + ?n + 1 \<le> length s" by simp
    have "split_loop s [c] start (str_find s [c] start) rst =
        split_loop s [c] (start + ?n + 1) (str_find s [c] (start + ?n + 1)) (rst @ [take ?n ?d])"
      unfolding f by (subst split_loop.simps) simp
    also have "\<dots> = Some ((rst @ [take ?n ?d]) @ split_fields c (drop (start + ?n + 1) s))"
      using le by (intro less.hyps) simp_all
    also have "(rst @ [take ?n ?d]) @ split_fields c (drop (start + ?n + 1) s) =
        rst @ takeWhile (\<lambda>x. x \<noteq> c) ?d # split_fields c (tl (dropWhile (\<lambda>x. x \<noteq> c) ?d))"
      using rest takeWhile_eq_take[of "\<lambda>x. x \<noteq> c" ?d] by simp
    also have "\<dots> = rst @ split_fields c ?d"
      using True by (subst (2) split_fields.simps) auto
    finally show ?thesis .
  qed
qed

lemma Split_char: "Split s [c] = Some (split_fields c s)"
  using split_loop_char[of 0 s c "[]"] by (simp add: Split_def)

lemma split_fields_two:
  assumes "c \<notin> set a" "c \<notin> set b" "b \<noteq> []"
  shows "split_fields c (a @ c # b) = [a, b]"
proof -
  have "takeWhile (\<lambda>x. x \<noteq> c) (a @ c # b) = a"
    using assms(1) by (induction a) auto
  moreover have "dropWhile (\<lambda>x. x \<noteq> c) (a @ c # b) = c # b"
    using assms(1) by (induction a) auto
  moreover have "split_fields c b = [b]"
    using assms by (simp add: split_fields.simps[of c b])
  ultimately show ?thesis by (simp add: split_fields.simps[of c "a @ c # b"])
qed

lemma join_split_fields: "length (split_fields c s) = 2 \<Longrightarrow>
  \<exists>a b. split_fields c s = [a, b] \<and> (s = a @ c # b \<or> s = a @ c # b @ [c])"
proof -
  assume len: "length (split_fields c s) = 2"
  then have cs: "c \<in> set s" by (auto simp: split_fields.simps[of c s] split: if_splits)
  define a where "a = takeWhile (\<lambda>x. x \<noteq> c) s"
  define t where "t = tl (dropWhile (\<lambda>x. x \<noteq> c) s)"
  have "dropWhile (\<lambda>x. x \<noteq> c) s \<noteq> []" "hd (dropWhile (\<lambda>x. x \<noteq> c) s) = c"
    using cs hd_dropWhile[of "\<lambda>x. x \<noteq> c" s] by auto
  then have s: "s = a @ c # t" unfolding a_def t_def by (metis list.collapse takeWhile_dropWhile_id)
  have f: "split_fields c s = a # split_fields c t"
    using cs by (auto simp: split_fields.simps[of c s] a_def t_def)
  with len have lt: "length (split_fields c t) = 1" by simp
  show ?thesis
  proof (cases "c \<in> set t")
    case False
    with lt f s show ?thesis by (auto simp: split_fields.simps[of c t] split: if_splits)
  next
    case True
    define b where "b = takeWhile (\<lambda>x. x \<noteq> c) t"
    define u where "u = tl (dropWhile (\<lambda>x. x \<noteq> c) t)"
    have "dropWhile (\<lambda>x. x \<noteq> c) t \<noteq> []" "hd (dropWhile (\<lambda>x. x \<noteq> c) t) = c"
      using True hd_dropWhile[of "\<lambda>x. x \<noteq> c" t] by auto
    then have t: "t = b @ c # u" unfolding b_def u_def by (metis list.collapse takeWhile_dropWhile_id)
    have "split_fields c t = b # split_fields c u"
      using True by (auto simp: split_fields.simps[of c t] b_def u_def)
    with lt have "split_fields c u = []" "split_fields c t = [b]" by simp_all
    then have "u = []" by (auto simp: split_fields.simps[of c u] split: if_splits)
    with t s f \<open>split_fields c t = [b]\<close> show ?thesis by simp
  qed
qed

section \<open>Facts on decimal strings\<close>

lemma of_char_digit: "d < 10 \<Longrightarrow> (of_char (digit_char d) :: nat) = 48 + d"
  by (simp add: digit_char_def)

lemma is_digit_digit_char: "d < 10 \<Longrightarrow> is_digit (digit_char d)"
  by (simp add: is_digit_def of_char_digit)

lemma nat_digits_digits: "list_all is_digit (nat_digits n)"
proof (induction n rule: nat_digits.induct)
  case (1 n)
  then show ?case by (subst nat_digits.simps) (simp add: is_digit_digit_char)
qed

lemma nat_digits_not_Nil: "nat_digits n \<noteq> []"
  by (subst nat_digits.simps) simp

lemma digits_val_append: "digits_val acc (xs @ ys) = digits_val (digits_val acc xs) ys"
  by (induction xs arbitrary: acc) simp_all

lemma digits_val_nat_digits: "digits_val 0 (nat_digits n) = n"
proof (induction n rule: nat_digits.induct)
  case (1 n)
  show ?case
  proof (cases "n < 10")
    case True
    then show ?thesis by (subst nat_digits.simps) (simp add: of_char_digit)
  next
    case False
    with "1.IH" show ?thesis
      by (subst nat_digits.simps) (simp add: digits_val_append of_char_digit)
  qed
qed

lemma is_digit_not_space: "is_digit c \<Longrightarrow> \<not> is_space c"
  by (auto simp: is_digit_def is_space_def)

lemma is_digit_not_sign: "\<not> is_digit (CHR ''-'')" "\<not> is_digit (CHR ''+'')" "\<not> is_digit (CHR '':'')"
  by (simp_all add: is_digit_def)

lemma takeWhile_digits:
  "list_all is_digit ds \<Longrightarrow> rest = [] \<or> \<not> is_digit (hd rest) \<Longrightarrow> takeWhile is_digit (ds @ rest) = ds"
  by (induction ds) (auto simp: takeWhile_eq_Nil_iff)

lemma stoi_to_string_append:
  assumes "- (2 ^ 31) \<le> i" "i < 2 ^ 31" "rest = [] \<or> \<not> is_digit (hd rest)"
  shows "stoi (to_string i @ rest) = Inr i"
proof (cases "i < 0")
  case True
  let ?ds = "nat_digits (nat (- i))"
  have "dropWhile is_space (CHR ''-'' # ?ds @ rest) = CHR ''-'' # ?ds @ rest"
    by (simp add: is_space_def)
  moreover have "takeWhile is_digit (?ds @ rest) = ?ds"
    using nat_digits_digits assms(3) by (rule takeWhile_digits)
  ultimately show ?thesis
    using True assms by (simp add: stoi_def to_string_def nat_digits_not_Nil digits_val_nat_digits)
next
  case False
  let ?ds = "nat_digits (nat i)"
  obtain d ds where ds: "?ds = d # ds" by (meson list.exhaust nat_digits_not_Nil)
  have d: "is_digit d" using nat_digits_digits[of "nat i"] ds by simp
  then have "\<not> is_space d" "d \<noteq> CHR ''-''" "d \<noteq> CHR ''+''"
    using is_digit_not_space is_digit_not_sign by blast+
  moreover have "takeWhile is_digit (?ds @ rest) = ?ds"
    using nat_digits_digits assms(3) by (rule takeWhile_digits)
  ultimately show ?thesis
    using False assms ds digits_val_nat_digits[of "nat i"] by (simp add: stoi_def to_string_def)
qed

lemma stoi_to_string: "- (2 ^ 31) \<le> i \<Longrightarrow> i < 2 ^ 31 \<Longrightarrow> stoi (to_string i) = Inr i"
  using stoi_to_string_append[of i "[]"] by simp

lemma to_string_inject:
  "- (2 ^ 31) \<le> i \<Longrightarrow> i < 2 ^ 31 \<Longrightarrow> - (2 ^ 31) \<le> j \<Longrightarrow> j < 2 ^ 31 \<Longrightarrow>
   to_string i = to_string j \<longleftrightarrow> i = j"
  by (metis stoi_to_string sum.inject(2))

lemma to_string_no_colon: "CHR '':'' \<notin> set (to_string i)"
  using nat_digits_digits is_digit_not_sign(3) by (auto simp: to_string_def list_all_iff)

lemma to_string_not_Nil: "to_string i \<noteq> []"
  by (simp add: to_string_def nat_digits_not_Nil)

section \<open>Properties\<close>

text \<open>
  \<^verbatim>\<open>Split\<close> returns exactly when the separator is not empty; on a one-character separator its
  result is the list of the fields between the separators, without an empty last field.
\<close>

theorem Split_returns_iff:
  "((\<exists>r. Split s sep = Some r) \<longleftrightarrow> sep \<noteq> []) \<and> Split s [c] = Some (split_fields c s)"
proof -
  have "Split s [] = None"
    using split_loop_empty_sep[of 0 s "[]"] str_find.simps[of s "[]" 0] by (simp add: Split_def)
  moreover have "\<exists>r. Split s sep = Some r" if "sep \<noteq> []"
    using split_loop_returns[OF that] by (simp add: Split_def)
  ultimately show ?thesis using Split_char by (metis option.distinct(1))
qed

end
