(* ===== verification/Config.thy ===== *)
theory Config
  imports Utils Message
begin

text \<open>
  \<^verbatim>\<open>struct config\<close> of \<^verbatim>\<open>src/src/config.hpp\<close>. The constructor parses an address \<^verbatim>\<open>ip:port\<close>; a string that
  does not have two fields, or whose second field \<^verbatim>\<open>std::stoi\<close> rejects, ends the program
  (\<open>Inl Terminate\<close>). \<open>None\<close> would be a constructor that does not return. \<^verbatim>\<open>Port_\<close> is a \<^verbatim>\<open>short\<close>:
  the parsed number is narrowed to 16 bits. \<^verbatim>\<open>Gossip_node_num_\<close> is never initialised nor read and has no field here.
\<close>

record config =
  conf_Name :: string
  conf_Addr :: string
  conf_Port :: i16
  conf_Indirect_checks :: i16
  conf_Sync_state_timeout :: u32
  conf_Probe_interval :: u32
  conf_Probe_timeout :: u32
  conf_Gossip_interval :: u32

definition getLocalAddr :: string where
  "getLocalAddr = ''127.0.0.1''"

definition config_new :: "string \<Rightarrow> config result option" where
  "config_new addr =
     (case Split addr '':'' of
        None \<Rightarrow> None
      | Some fs \<Rightarrow> Some
          (if length fs \<noteq> 2 then Inl Terminate
           else (case stoi (fs ! 1) of
                   Inl _ \<Rightarrow> Inl Terminate
                 | Inr p \<Rightarrow> Inr
                     \<lparr>conf_Name = addr, conf_Addr = fs ! 0, conf_Port = word_of_int p,
                      conf_Indirect_checks = 1000, conf_Sync_state_timeout = 0,
                      conf_Probe_interval = 500, conf_Probe_timeout = 500,
                      conf_Gossip_interval = 1000\<rparr>)))"

definition DefaultConfig :: "config result option" where
  "DefaultConfig = config_new ''127.0.0.1:29011''"

text \<open>\<^verbatim>\<open>std::to_string(conf_.Port_)\<close>: the port as the program prints it, signed.\<close>

definition port_string :: "i16 \<Rightarrow> string" where
  "port_string p = to_string (sint p)"

section \<open>Facts\<close>

lemma sint_i16_bounds: "- (2 ^ 31) \<le> sint (p :: i16)" "sint (p :: i16) < 2 ^ 31"
  using sint_range_size[of p] by (simp_all add: word_size)

lemma stoi_port_string: "stoi (port_string p) = Inr (sint p)"
  using stoi_to_string sint_i16_bounds by (simp add: port_string_def)

lemma port_string_inject: "port_string p = port_string q \<longleftrightarrow> p = q"
  by (metis stoi_port_string sum.inject(2) signed_word_eqI)

lemma config_new_addr:
  assumes "CHR '':'' \<notin> set ip" "- (2 ^ 31) \<le> n" "n < 2 ^ 31"
  shows "\<exists>conf. config_new (ip @ '':'' @ to_string n) = Some (Inr conf) \<and>
    conf_Name conf = ip @ '':'' @ to_string n \<and> conf_Addr conf = ip \<and> conf_Port conf = word_of_int n"
proof -
  have "Split (ip @ '':'' @ to_string n) '':'' = Some [ip, to_string n]"
    using split_fields_two[OF assms(1) to_string_no_colon to_string_not_Nil, of n] by (simp add: Split_char)
  then show ?thesis using stoi_to_string[OF assms(2,3)] by (simp add: config_new_def)
qed

section \<open>Properties\<close>

text \<open>
  The constructor always returns, with a configuration or by ending the program; an address made of
  a host without a colon and a printed port number is accepted, the host and the name are kept,
  and the port is the number modulo \<open>2 ^ 16\<close>.
\<close>

theorem config_new_parses:
  assumes "CHR '':'' \<notin> set ip" "- (2 ^ 31) \<le> n" "n < 2 ^ 31"
  shows "(\<exists>r. config_new addr = Some r \<and> (r = Inl Terminate \<or> is_ok r)) \<and>
    (\<exists>conf. config_new (ip @ '':'' @ to_string n) = Some (Inr conf) \<and>
      conf_Name conf = ip @ '':'' @ to_string n \<and> conf_Addr conf = ip \<and>
      conf_Port conf = word_of_int n)"
  using config_new_addr[OF assms] by (auto simp: config_new_def Split_char split: sum.splits)

theorem config_new_parses_witness:
  "(\<exists>r. config_new ''localhost'' = Some r \<and> (r = Inl Terminate \<or> is_ok r)) \<and>
    (\<exists>conf. config_new (''10.0.0.7'' @ '':'' @ to_string 29011) = Some (Inr conf) \<and>
      conf_Name conf = ''10.0.0.7'' @ '':'' @ to_string 29011 \<and> conf_Addr conf = ''10.0.0.7'' \<and>
      conf_Port conf = word_of_int 29011)"
  by (rule config_new_parses) simp_all

text \<open>
  The port comparison of \<^verbatim>\<open>Join\<close> recognises a member's own address exactly when its port fits a
  \<^verbatim>\<open>short\<close>: for a port from 32768 to 65535 the printed \<^verbatim>\<open>Port_\<close> is a negative number and
  differs from the port the address was given with.
\<close>

theorem own_port_recognised_iff:
  assumes "0 \<le> n" "n < 2 ^ 16"
  shows "port_string (word_of_int n) = to_string n \<longleftrightarrow> n < 2 ^ 15"
proof -
  have "port_string (word_of_int n) = to_string n \<longleftrightarrow> sint (word_of_int n :: i16) = n"
    using assms sint_i16_bounds by (simp add: port_string_def to_string_inject)
  also have "sint (word_of_int n :: i16) = signed_take_bit 15 n"
    by (simp add: sint_sbintrunc')
  also have "signed_take_bit 15 n = n \<longleftrightarrow> n < 2 ^ 15"
    using assms by (simp add: signed_take_bit_int_eq_self_iff)
  finally show ?thesis .
qed

theorem own_port_recognised_iff_witness:
  "port_string (word_of_int 40000) \<noteq> to_string 40000 \<and> port_string (word_of_int 29011) = to_string 29011"
  using own_port_recognised_iff[of 40000] own_port_recognised_iff[of 29011] by simp

end
