(* ===== verification/Node.thy ===== *)
theory Node
  imports Message
begin

text \<open>
  \<^verbatim>\<open>struct node_state\<close> of \<^verbatim>\<open>src/src/node.hpp\<close>: what a member knows of a node. The copy and move
  operations copy every field, so a value of the record stands for each of them. A field is
  named after the member it models, without the trailing underscore.
\<close>

record node_state =
  ns_Name :: string
  ns_IP :: string
  ns_Port :: string
  ns_Dominant :: u64
  ns_State :: STATE
  ns_From :: string
  ns_Timestamp :: u64

text \<open>
  When a message about a node takes precedence over another one: a higher dominant, or the
  same dominant and a worse state.
\<close>

definition supersedes :: "node_state \<Rightarrow> node_state \<Rightarrow> bool" where
  "supersedes a b \<longleftrightarrow>
     ns_Dominant b < ns_Dominant a \<or> (ns_State b < ns_State a \<and> ns_Dominant a = ns_Dominant b)"

section \<open>Precedence between messages\<close>

text \<open>
  A precedence between values, and what keeping the preferred value of a stream of them
  gives. The laws are those of a strict weak order: values that do not precede each other are
  interchangeable.
\<close>

locale precedence =
  fixes newer :: "'a \<Rightarrow> 'a \<Rightarrow> bool"
  assumes newer_irrefl: "\<not> newer a a"
    and newer_trans: "newer a b \<Longrightarrow> newer b c \<Longrightarrow> newer a c"
    and not_newer_trans: "\<not> newer a b \<Longrightarrow> \<not> newer b c \<Longrightarrow> \<not> newer a c"
begin

definition keep :: "'a \<Rightarrow> 'a \<Rightarrow> 'a" where
  "keep old new = (if newer new old then new else old)"

lemma newer_asym: "newer a b \<Longrightarrow> \<not> newer b a"
  using newer_irrefl newer_trans by blast

lemma keep_not_beaten: "\<not> newer old (keep old new)" "\<not> newer new (keep old new)"
  by (auto simp: keep_def newer_irrefl newer_asym)

lemma foldl_keep_mem: "foldl keep a xs \<in> insert a (set xs)"
proof (induction xs arbitrary: a)
  case (Cons y ys)
  have "keep a y \<in> {a, y}" by (simp add: keep_def)
  with Cons.IH[of "keep a y"] show ?case by auto
qed simp

lemma foldl_keep_not_beaten: "x \<in> insert a (set xs) \<Longrightarrow> \<not> newer x (foldl keep a xs)"
proof (induction xs arbitrary: a x)
  case (Cons y ys)
  have "\<not> newer (keep a y) (foldl keep (keep a y) ys)"
    using Cons.IH by blast
  then have "\<not> newer a (foldl keep (keep a y) ys)" "\<not> newer y (foldl keep (keep a y) ys)"
    using keep_not_beaten not_newer_trans by blast+
  with Cons show ?case by auto
qed (simp add: newer_irrefl)

lemma keep_idem: "keep (keep a x) x = keep a x"
  by (simp add: keep_def newer_irrefl)

end

interpretation msg: precedence supersedes
  by standard (auto simp: supersedes_def STATE_less_iff)

end
