(* ===== verification/Umap.thy ===== *)
theory Umap
  imports Prelude
begin

text \<open>
  The part of \<^verbatim>\<open>std::unordered_map\<close> the program uses (\<^verbatim>\<open>src/src/broadcast.hpp\<close>,
  \<^verbatim>\<open>src/src/gossiper.hpp\<close>): \<^verbatim>\<open>find\<close>, \<^verbatim>\<open>operator[]\<close>, \<^verbatim>\<open>erase\<close>, \<^verbatim>\<open>size\<close> and forward iterators.

  A container is the list of its entries in iteration order. Where a new key goes in that order,
  and how a rehash reorders the others, is not specified by the standard: it is the field
  \<open>um_order\<close>, which maps a new key and the present key order to the next key order, and the only
  thing assumed of it (in \<open>um_wf\<close>) is that it yields a permutation. An iterator is the key of
  the node it refers to, \<open>None\<close> for \<^verbatim>\<open>end()\<close>; nodes stay where they are under insertion, and an iterator to a node survives
  a rehash, as in the node-based containers of libstdc++ and libc++. The standard does not promise the latter;
  what its weaker promise means for the one class that keeps iterators is in the theory \<open>Broadcast\<close>, section
  Rehashing.
\<close>

section \<open>The container\<close>

record ('k, 'v) umap =
  um_order :: "'k \<Rightarrow> 'k list \<Rightarrow> 'k list"
  entries :: "('k \<times> 'v) list"

type_synonym 'k iter = "'k option"

definition um_empty :: "('k \<Rightarrow> 'k list \<Rightarrow> 'k list) \<Rightarrow> ('k, 'v) umap" where
  "um_empty ord = \<lparr>um_order = ord, entries = []\<rparr>"

definition um_keys :: "('k, 'v) umap \<Rightarrow> 'k list" where
  "um_keys m = map fst (entries m)"

definition um_find :: "('k, 'v) umap \<Rightarrow> 'k \<Rightarrow> 'v option" where
  "um_find m = map_of (entries m)"

definition um_size :: "('k, 'v) umap \<Rightarrow> nat" where
  "um_size m = length (entries m)"

text \<open>\<^verbatim>\<open>m[k] = v\<close>: the node of \<open>k\<close> keeps its place, a new key is placed by \<open>um_order\<close>.\<close>

definition um_set :: "('k, 'v) umap \<Rightarrow> 'k \<Rightarrow> 'v \<Rightarrow> ('k, 'v) umap" where
  "um_set m k v =
     (if k \<in> set (um_keys m)
      then m\<lparr>entries := map (\<lambda>(k', v'). (k', if k' = k then v else v')) (entries m)\<rparr>
      else m\<lparr>entries := map (\<lambda>k'. (k', if k' = k then v else the (um_find m k')))
                          (um_order m k (um_keys m))\<rparr>)"

definition um_erase :: "('k, 'v) umap \<Rightarrow> 'k \<Rightarrow> ('k, 'v) umap" where
  "um_erase m k = m\<lparr>entries := filter (\<lambda>e. fst e \<noteq> k) (entries m)\<rparr>"

text \<open>\<^verbatim>\<open>begin()\<close> and \<^verbatim>\<open>++it\<close>.\<close>

definition um_begin :: "('k, 'v) umap \<Rightarrow> 'k iter" where
  "um_begin m = (case um_keys m of [] \<Rightarrow> None | k # _ \<Rightarrow> Some k)"

definition um_next :: "('k, 'v) umap \<Rightarrow> 'k \<Rightarrow> 'k iter" where
  "um_next m k = (case dropWhile (\<lambda>k'. k' \<noteq> k) (um_keys m) of
     _ # k' # _ \<Rightarrow> Some k' | _ \<Rightarrow> None)"

definition order_ok :: "('k \<Rightarrow> 'k list \<Rightarrow> 'k list) \<Rightarrow> bool" where
  "order_ok ord \<longleftrightarrow> (\<forall>k ks. mset (ord k ks) = add_mset k (mset ks))"

definition um_wf :: "('k, 'v) umap \<Rightarrow> bool" where
  "um_wf m \<longleftrightarrow> distinct (um_keys m) \<and> order_ok (um_order m)"

section \<open>The contract of an associative container\<close>

locale assoc_container =
  fixes find :: "'m \<Rightarrow> 'k \<Rightarrow> 'v option"
    and put :: "'m \<Rightarrow> 'k \<Rightarrow> 'v \<Rightarrow> 'm"
    and erase :: "'m \<Rightarrow> 'k \<Rightarrow> 'm"
    and wf :: "'m \<Rightarrow> bool"
  assumes find_put: "wf m \<Longrightarrow> find (put m k v) = (find m)(k \<mapsto> v)"
    and find_erase: "wf m \<Longrightarrow> find (erase m k) = (find m)(k := None)"
    and wf_put: "wf m \<Longrightarrow> wf (put m k v)"
    and wf_erase: "wf m \<Longrightarrow> wf (erase m k)"
begin

lemma find_put_same [simp]: "wf m \<Longrightarrow> find (put m k v) k = Some v"
  by (simp add: find_put)

lemma find_put_other: "wf m \<Longrightarrow> k' \<noteq> k \<Longrightarrow> find (put m k v) k' = find m k'"
  by (simp add: find_put)

lemma find_put_put: "wf m \<Longrightarrow> find (put (put m k v) k w) = find (put m k w)"
  by (simp add: find_put wf_put)

lemma dom_put: "wf m \<Longrightarrow> dom (find (put m k v)) = insert k (dom (find m))"
  by (simp add: find_put)

lemma dom_erase: "wf m \<Longrightarrow> dom (find (erase m k)) = dom (find m) - {k}"
  by (simp add: find_erase)

end

section \<open>Laws of the model\<close>

lemma order_ok_set: "order_ok ord \<Longrightarrow> set (ord k ks) = insert k (set ks)"
  unfolding order_ok_def by (metis set_mset_add_mset_insert set_mset_mset)

lemma order_ok_distinct:
  assumes "order_ok ord" "distinct ks" "k \<notin> set ks"
  shows "distinct (ord k ks)"
proof -
  have "mset (ord k ks) = mset (k # ks)"
    using assms(1) by (simp add: order_ok_def)
  then show ?thesis using assms(2,3) by (metis distinct.simps(2) mset_eq_imp_distinct_iff)
qed

lemma order_ok_length: "order_ok ord \<Longrightarrow> length (ord k ks) = Suc (length ks)"
  unfolding order_ok_def by (metis size_add_mset size_mset)

lemma order_ok_Cons: "order_ok (#)"
  by (simp add: order_ok_def)

lemma um_find_None: "um_find m k = None \<longleftrightarrow> k \<notin> set (um_keys m)"
  by (simp add: um_find_def um_keys_def map_of_eq_None_iff)

lemma um_keys_dom: "set (um_keys m) = dom (um_find m)"
  by (simp add: um_keys_def um_find_def dom_map_of_conv_image_fst)

lemma um_find_in_keys: "um_find m k = Some v \<Longrightarrow> k \<in> set (um_keys m)"
  by (auto simp: um_keys_dom)

lemma um_find_entry: "um_wf m \<Longrightarrow> um_find m k = Some v \<longleftrightarrow> (k, v) \<in> set (entries m)"
  by (simp add: um_wf_def um_find_def um_keys_def)

lemma um_keys_set:
  "um_keys (um_set m k v) =
     (if k \<in> set (um_keys m) then um_keys m else um_order m k (um_keys m))"
  by (auto simp: um_set_def um_keys_def comp_def split_beta)

lemma um_keys_erase: "um_keys (um_erase m k) = filter (\<lambda>k'. k' \<noteq> k) (um_keys m)"
  by (simp add: um_erase_def um_keys_def filter_map comp_def)

lemma map_of_update_in_place:
  "map_of (map (\<lambda>(k', v'). (k', if k' = k then v else v')) es) =
     (if k \<in> fst ` set es then (map_of es)(k \<mapsto> v) else map_of es)"
  by (induction es) (auto simp: fun_eq_iff)

lemma map_of_filter_neq: "map_of (filter (\<lambda>e. fst e \<noteq> k) es) = (map_of es)(k := None)"
  by (induction es) (auto simp: fun_eq_iff)

lemma um_find_set:
  assumes "um_wf m"
  shows "um_find (um_set m k v) = (um_find m)(k \<mapsto> v)"
proof (cases "k \<in> set (um_keys m)")
  case True
  then show ?thesis
    by (simp add: um_set_def um_find_def map_of_update_in_place) (simp add: um_keys_def)
next
  case False
  with assms have keys: "set (um_order m k (um_keys m)) = insert k (set (um_keys m))"
    by (simp add: um_wf_def order_ok_set)
  show ?thesis
  proof
    fix x
    have "um_find (um_set m k v) x =
        (if x = k \<or> x \<in> set (um_keys m) then Some (if x = k then v else the (um_find m x)) else None)"
      using False keys by (simp add: um_set_def um_find_def[of "m\<lparr>entries := _\<rparr>"] map_of_tabulate)
    also have "\<dots> = ((um_find m)(k \<mapsto> v)) x"
      by (auto simp: um_keys_dom)
    finally show "um_find (um_set m k v) x = ((um_find m)(k \<mapsto> v)) x" .
  qed
qed

lemma um_wf_set: "um_wf m \<Longrightarrow> um_wf (um_set m k v)"
  by (auto simp: um_wf_def um_keys_set order_ok_distinct) (simp_all add: um_set_def)

lemma um_wf_erase: "um_wf m \<Longrightarrow> um_wf (um_erase m k)"
  by (simp add: um_wf_def um_keys_erase) (simp add: um_erase_def)

interpretation um: assoc_container um_find um_set um_erase um_wf
proof
  fix m :: "('a, 'b) umap" and k v
  assume "um_wf m"
  then show "um_find (um_set m k v) = (um_find m)(k \<mapsto> v)"
    and "um_wf (um_set m k v)" and "um_wf (um_erase m k)"
    by (simp_all add: um_find_set um_wf_set um_wf_erase)
  show "um_find (um_erase m k) = (um_find m)(k := None)"
    by (simp add: um_erase_def um_find_def map_of_filter_neq)
qed

lemma um_wf_empty: "order_ok ord \<Longrightarrow> um_wf (um_empty ord)"
  by (simp add: um_wf_def um_empty_def um_keys_def)

lemma um_find_empty [simp]: "um_find (um_empty ord) k = None"
  by (simp add: um_find_def um_empty_def)

lemma um_size_keys: "um_size m = length (um_keys m)"
  by (simp add: um_size_def um_keys_def)

lemma um_size_dom: "um_wf m \<Longrightarrow> um_size m = card (dom (um_find m))"
  by (simp add: um_size_keys um_keys_dom[symmetric] distinct_card um_wf_def)

lemma um_order_um_set [simp]: "um_order (um_set m k v) = um_order m"
  by (simp add: um_set_def)

lemma um_order_um_erase [simp]: "um_order (um_erase m k) = um_order m"
  by (simp add: um_erase_def)

section \<open>Iterators\<close>

lemma um_next_split:
  assumes "um_wf m" and "um_keys m = xs @ k # ys"
  shows "um_next m k = (case ys of [] \<Rightarrow> None | k' # _ \<Rightarrow> Some k')"
proof -
  have "k \<notin> set xs" using assms by (simp add: um_wf_def)
  then have "dropWhile (\<lambda>k'. k' \<noteq> k) (um_keys m) = k # ys"
    using assms(2) by (simp add: dropWhile_append3 dropWhile_append2)
      (metis (mono_tags, lifting) dropWhile.simps(2) dropWhile_append2)
  then show ?thesis by (simp add: um_next_def split: list.splits)
qed

lemma um_next_in_keys: "um_next m k = Some k' \<Longrightarrow> k' \<in> set (um_keys m)"
  unfolding um_next_def by (auto split: list.splits dest: arg_cong[where f = set] dest!: set_dropWhileD
      intro: set_dropWhileD) (metis list.set_intros(1) list.set_intros(2) set_dropWhileD)

lemma um_begin_in_keys: "um_begin m = Some k \<Longrightarrow> k \<in> set (um_keys m)"
  by (auto simp: um_begin_def split: list.splits)

lemma um_begin_None: "um_begin m = None \<longleftrightarrow> entries m = []"
  by (auto simp: um_begin_def um_keys_def split: list.splits)

end
