(* ===== verification/Ceil_Log.thy ===== *)
theory Ceil_Log
  imports Complex_Main Prelude
begin

text \<open>
  \<^verbatim>\<open>std::ceil(std::log10(n))\<close> and \<^verbatim>\<open>std::ceil(std::log2(n))\<close> of a 32-bit unsigned \<open>n\<close>, as the
  broadcast counter (\<^verbatim>\<open>src/src/broadcast.hpp\<close>) and the suspicion threshold
  (\<^verbatim>\<open>src/src/suspicion.hpp\<close>) use them. \<open>ceil_log b n\<close> computes the value by repeated division;
  \<open>ceil_log_eq\<close> shows that it is the ceiling of the real logarithm.
\<close>

lemma ceil_div_le_iff:
  assumes "0 < (b :: nat)"
  shows "(n + b - 1) div b \<le> m \<longleftrightarrow> n \<le> m * b"
proof -
  have "(n + b - 1) div b \<le> m \<longleftrightarrow> (n + b - 1) div b < Suc m"
    by (rule less_Suc_eq_le [symmetric])
  also have "\<dots> \<longleftrightarrow> n + b - 1 < Suc m * b"
    using assms by (simp only: div_less_iff_less_mult)
  also have "\<dots> \<longleftrightarrow> n \<le> m * b" using assms by auto
  finally show ?thesis .
qed

lemma ceil_div_less:
  assumes "1 < (b :: nat)" "1 < n"
  shows "(n + b - 1) div b < n"
proof -
  have "n \<le> (n - 1) * 2" using assms(2) by simp
  also have "\<dots> \<le> (n - 1) * b" using assms(1) by (intro mult_le_mono2) simp
  finally have "(n + b - 1) div b \<le> n - 1" using assms(1) by (subst ceil_div_le_iff) simp_all
  with assms(2) show ?thesis by simp
qed

function ceil_log :: "nat \<Rightarrow> nat \<Rightarrow> nat" where
  "ceil_log b n = (if n \<le> 1 \<or> b \<le> 1 then 0 else Suc (ceil_log b ((n + b - 1) div b)))"
  by pat_completeness auto
termination
  by (relation "measure snd") (use ceil_div_less in auto)

declare ceil_log.simps [simp del]

lemma ceil_log_le_iff:
  assumes "1 < b"
  shows "ceil_log b n \<le> k \<longleftrightarrow> n \<le> b ^ k"
  using assms
proof (induction b n arbitrary: k rule: ceil_log.induct)
  case (1 b n)
  show ?case
  proof (cases "n \<le> 1")
    case True
    moreover have "1 \<le> b ^ k" using "1.prems" by simp
    ultimately show ?thesis by (simp add: ceil_log.simps[of b n])
  next
    case False
    show ?thesis
    proof (cases k)
      case 0
      with False show ?thesis by (simp add: ceil_log.simps[of b n]) (use "1.prems" in simp)
    next
      case (Suc j)
      have "ceil_log b ((n + b - 1) div b) \<le> j \<longleftrightarrow> n \<le> b ^ j * b"
        using "1.IH"[of j] False "1.prems" ceil_div_le_iff[of b n "b ^ j"] by simp
      with False Suc "1.prems" show ?thesis by (simp add: ceil_log.simps[of b n] mult.commute)
    qed
  qed
qed

lemma ceil_log_eq:
  assumes "1 < b" "0 < n"
  shows "ceil_log b n = nat \<lceil>log b n\<rceil>"
proof -
  have "nat \<lceil>log b n\<rceil> \<le> k \<longleftrightarrow> n \<le> b ^ k" for k
  proof -
    have "nat \<lceil>log b n\<rceil> \<le> k \<longleftrightarrow> log b n \<le> real k"
      by (simp add: nat_le_iff ceiling_le_iff)
    also have "\<dots> \<longleftrightarrow> real n \<le> b powr real k"
      using assms by (simp add: log_le_iff)
    also have "\<dots> \<longleftrightarrow> real n \<le> real (b ^ k)"
      using assms by (simp add: powr_realpow)
    finally show ?thesis by simp
  qed
  then have "nat \<lceil>log b n\<rceil> \<le> k \<longleftrightarrow> ceil_log b n \<le> k" for k
    using ceil_log_le_iff[OF assms(1)] by simp
  then show ?thesis by (metis le_antisym order_refl)
qed

lemma ceil_log_pos: "1 < b \<Longrightarrow> 1 < n \<Longrightarrow> 0 < ceil_log b n"
  using ceil_log_le_iff[of b n 0] by simp

lemma ceil_log_mono: "1 < b \<Longrightarrow> m \<le> n \<Longrightarrow> ceil_log b m \<le> ceil_log b n"
  using ceil_log_le_iff by (meson le_trans order_refl)

end
