(* ===== verification/Broadcast.thy ===== *)
theory Broadcast
  imports Node Umap Ceil_Log
begin

text \<open>
  \<^verbatim>\<open>class BroadcastQueue\<close> of \<^verbatim>\<open>src/src/broadcast.hpp\<close>: the messages a member still has to gossip,
  one per node name, each with the number of times it is still to be sent. \<^verbatim>\<open>cur_\<close> is where the
  next message is taken from, \<^verbatim>\<open>peek_\<close> and \<^verbatim>\<open>peeked_\<close> track a tentative traversal that
  \<^verbatim>\<open>ApplyPeek\<close> commits and \<^verbatim>\<open>ResetPeek\<close> abandons. The table keeps its iterators when it grows, but
  for the section Rehashing, which takes the standard at its word.

  The abstract view of the queue is its rotation \<open>bq_rot\<close>: the entries in iteration order,
  starting at \<^verbatim>\<open>cur_\<close>. On it \<^verbatim>\<open>pop\<close> takes the head and puts it back at the end with a
  smaller counter (\<open>cyc_pop\<close>), and a traversal by \<^verbatim>\<open>Peek\<close> reads a prefix.
\<close>

section \<open>State and operations\<close>

record BroadcastQueue =
  bq_multi :: u32
  bq_m :: "(string, node_state \<times> int) umap"
  bq_cur :: "string iter"
  bq_peek :: "string iter"
  bq_peeked :: nat

definition BroadcastQueue_init :: "(string \<Rightarrow> string list \<Rightarrow> string list) \<Rightarrow> BroadcastQueue" where
  "BroadcastQueue_init ord =
     \<lparr>bq_multi = 3, bq_m = um_empty ord, bq_cur = None, bq_peek = None, bq_peeked = 0\<rparr>"

definition bq_pop :: "BroadcastQueue \<Rightarrow> (node_state option \<times> BroadcastQueue) result" where
  "bq_pop q =
     (let cur = (if bq_cur q = None then um_begin (bq_m q) else bq_cur q)
      in case cur of
           None \<Rightarrow> Inr (None, q\<lparr>bq_cur := None\<rparr>)
         | Some k \<Rightarrow>
             (case um_find (bq_m q) k of
                None \<Rightarrow> Inl UseAfterFree
              | Some (msg, n) \<Rightarrow>
                  let nxt = um_next (bq_m q) k
                  in if n - 1 < 1
                     then Inr (Some msg, q\<lparr>bq_m := um_erase (bq_m q) k, bq_cur := nxt\<rparr>)
                     else Inr (Some msg,
                       q\<lparr>bq_m := um_set (bq_m q) k (msg, n - 1), bq_cur := nxt\<rparr>)))"

definition Pop :: "BroadcastQueue \<Rightarrow> (node_state option \<times> BroadcastQueue) result" where
  "Pop q = bq_pop q"

definition Peek :: "BroadcastQueue \<Rightarrow> (node_state option \<times> BroadcastQueue) result" where
  "Peek q =
     (let peek = (if bq_peek q = None then um_begin (bq_m q) else bq_peek q)
      in case peek of
           None \<Rightarrow> Inr (None, q\<lparr>bq_peek := None\<rparr>)
         | Some k \<Rightarrow>
             if um_size (bq_m q) \<le> bq_peeked q
             then Inr (None, q\<lparr>bq_peek := Some k\<rparr>)
             else (case um_find (bq_m q) k of
                     None \<Rightarrow> Inl UseAfterFree
                   | Some (msg, _) \<Rightarrow>
                       Inr (Some msg, q\<lparr>bq_peek := um_next (bq_m q) k,
                                       bq_peeked := Suc (bq_peeked q)\<rparr>)))"

definition ResetPeek :: "BroadcastQueue \<Rightarrow> BroadcastQueue" where
  "ResetPeek q = q\<lparr>bq_peek := bq_cur q, bq_peeked := 0\<rparr>"

lemma bq_pop_peeked: "bq_pop q = Inr (r, q') \<Longrightarrow> bq_peeked q' = bq_peeked q"
  by (auto simp: bq_pop_def Let_def split: option.splits if_splits)

text \<open>The loop of \<^verbatim>\<open>ApplyPeek\<close>: \<^verbatim>\<open>pop\<close> as long as \<^verbatim>\<open>peeked_\<close> is positive.\<close>

function apply_loop :: "BroadcastQueue \<Rightarrow> BroadcastQueue result" where
  "apply_loop q =
     (if 0 < bq_peeked q
      then (case bq_pop q of
              Inl e \<Rightarrow> Inl e
            | Inr (r, q') \<Rightarrow> apply_loop (q'\<lparr>bq_peeked := bq_peeked q' - 1\<rparr>))
      else Inr q)"
  by pat_completeness auto
termination
  by (relation "measure bq_peeked") (auto dest: bq_pop_peeked)

declare apply_loop.simps [simp del]

definition ApplyPeek :: "BroadcastQueue \<Rightarrow> BroadcastQueue result" where
  "ApplyPeek q = rbind (apply_loop q) (\<lambda>q'. Inr (q'\<lparr>bq_peek := bq_cur q'\<rparr>))"

text \<open>The counter of a new message: \<^verbatim>\<open>broadcast_multi_ * ceil(log10(node_num))\<close>.\<close>

definition bcast_times :: "u32 \<Rightarrow> u32 \<Rightarrow> int" where
  "bcast_times multi node_num =
     (let n = (if node_num \<le> 1 then 2 else node_num)
      in int (unat multi * ceil_log 10 (unat n)))"

definition Push :: "BroadcastQueue \<Rightarrow> node_state \<Rightarrow> u32 \<Rightarrow> BroadcastQueue" where
  "Push q msg node_num =
     (let key = ns_Name msg;
          cnt = bcast_times (bq_multi q) node_num
      in case um_find (bq_m q) key of
           None \<Rightarrow> q\<lparr>bq_m := um_set (bq_m q) key (msg, cnt)\<rparr>
         | Some (old, _) \<Rightarrow>
             if supersedes msg old
             then q\<lparr>bq_m := um_set (bq_m q) key (msg, cnt)\<rparr>
             else q)"

definition Distinct :: "BroadcastQueue \<Rightarrow> nat" where
  "Distinct q = um_size (bq_m q)"

text \<open>
  The loop of \<^verbatim>\<open>gossiper::appendGossipMsg\<close> that fills a packet: at most \<open>n\<close> messages are peeked,
  fewer when \<^verbatim>\<open>Peek\<close> returns null.
\<close>

fun peek_msgs :: "nat \<Rightarrow> BroadcastQueue \<Rightarrow> (node_state list \<times> BroadcastQueue) result" where
  "peek_msgs 0 q = Inr ([], q)"
| "peek_msgs (Suc n) q =
     rbind (Peek q) (\<lambda>(r, q').
       case r of
         None \<Rightarrow> Inr ([], q')
       | Some x \<Rightarrow> rbind (peek_msgs n q') (\<lambda>(xs, q''). Inr (x # xs, q'')))"

section \<open>The abstract queue\<close>

type_synonym bentry = "string \<times> node_state \<times> int"

text \<open>The entries from an iterator to the end, then those before it.\<close>

definition um_rot :: "('k, 'v) umap \<Rightarrow> 'k iter \<Rightarrow> ('k \<times> 'v) list" where
  "um_rot m it = (case it of
     None \<Rightarrow> entries m
   | Some k \<Rightarrow> dropWhile (\<lambda>e. fst e \<noteq> k) (entries m) @ takeWhile (\<lambda>e. fst e \<noteq> k) (entries m))"

definition bq_rot :: "BroadcastQueue \<Rightarrow> bentry list" where
  "bq_rot q = um_rot (bq_m q) (bq_cur q)"

fun countdown :: "bentry \<Rightarrow> bentry list" where
  "countdown (k, x, t) = (if t - 1 < 1 then [] else [(k, x, t - 1)])"

fun cyc_pop :: "bentry list \<Rightarrow> node_state option \<times> bentry list" where
  "cyc_pop [] = (None, [])"
| "cyc_pop (e # r) = (Some (fst (snd e)), r @ countdown e)"

primrec cyc_pops :: "nat \<Rightarrow> bentry list \<Rightarrow> bentry list" where
  "cyc_pops 0 r = r"
| "cyc_pops (Suc n) r = cyc_pops n (snd (cyc_pop r))"

text \<open>What holds of the queue between operations, and between the traversals of it.\<close>

definition iter_ok :: "('k, 'v) umap \<Rightarrow> 'k iter \<Rightarrow> bool" where
  "iter_ok m it \<longleftrightarrow> (case it of None \<Rightarrow> True | Some k \<Rightarrow> k \<in> set (um_keys m))"

definition bq_inv :: "BroadcastQueue \<Rightarrow> bool" where
  "bq_inv q \<longleftrightarrow> um_wf (bq_m q) \<and> iter_ok (bq_m q) (bq_cur q) \<and>
     list_all (\<lambda>(k, x, t). ns_Name x = k) (entries (bq_m q))"

definition bq_idle :: "BroadcastQueue \<Rightarrow> bool" where
  "bq_idle q \<longleftrightarrow> bq_inv q \<and> bq_peek q = bq_cur q \<and> bq_peeked q = 0"

text \<open>A traversal of a queue: \<open>n\<close> entries after \<^verbatim>\<open>cur_\<close> have been peeked.\<close>

definition bq_peeking :: "BroadcastQueue \<Rightarrow> nat \<Rightarrow> bool" where
  "bq_peeking q n \<longleftrightarrow> bq_inv q \<and> bq_peeked q = n \<and> n \<le> um_size (bq_m q) \<and>
     iter_ok (bq_m q) (bq_peek q) \<and> um_rot (bq_m q) (bq_peek q) = rotate n (bq_rot q)"

section \<open>Iterators and rotations\<close>

lemma um_split:
  assumes "um_wf m" "um_find m k = Some v"
  obtains xs ys where "entries m = xs @ (k, v) # ys" "k \<notin> fst ` set xs" "k \<notin> fst ` set ys"
proof -
  from assms have "(k, v) \<in> set (entries m)"
    by (simp add: um_find_entry)
  then obtain xs ys where "entries m = xs @ (k, v) # ys"
    by (meson split_list)
  with assms(1) that show thesis by (auto simp: um_wf_def um_keys_def)
qed

lemma um_rot_split:
  "entries m = xs @ (k, v) # ys \<Longrightarrow> k \<notin> fst ` set xs \<Longrightarrow> um_rot m (Some k) = (k, v) # ys @ xs"
proof -
  assume e: "entries m = xs @ (k, v) # ys" and "k \<notin> fst ` set xs"
  then have "\<forall>x\<in>set xs. fst x \<noteq> k" by auto
  with e show ?thesis by (simp add: um_rot_def takeWhile_append2 dropWhile_append2)
qed

lemma um_next_entries:
  assumes "um_wf m" "entries m = xs @ (k, v) # ys"
  shows "um_next m k = (case ys of [] \<Rightarrow> None | e # _ \<Rightarrow> Some (fst e))"
proof -
  have "um_keys m = map fst xs @ k # map fst ys"
    using assms(2) by (simp add: um_keys_def)
  from um_next_split[OF assms(1) this] show ?thesis by (cases ys) simp_all
qed

lemma um_rot_at_next:
  assumes "distinct (map fst (xs @ ys))"
    and "entries m = xs @ ys"
  shows "um_rot m (case ys of [] \<Rightarrow> None | e # _ \<Rightarrow> Some (fst e)) = ys @ xs"
proof (cases ys)
  case Nil
  with assms show ?thesis by (simp add: um_rot_def)
next
  case (Cons e ys')
  moreover have "fst e \<notin> fst ` set xs" using assms(1) Cons by auto
  ultimately show ?thesis using um_rot_split[of m xs "fst e" "snd e" ys'] assms(2) by simp
qed

lemma um_rot_next:
  assumes "um_wf m" "k \<in> set (um_keys m)"
  shows "um_rot m (um_next m k) = rotate1 (um_rot m (Some k))"
proof -
  obtain v where v: "um_find m k = Some v" using assms(2) by (auto simp: um_keys_dom)
  then obtain xs ys where e: "entries m = xs @ (k, v) # ys" and nk: "k \<notin> fst ` set xs"
    using assms(1) um_split by metis
  have "um_rot m (um_next m k) = ys @ (xs @ [(k, v)])"
    using um_rot_at_next[of "xs @ [(k, v)]" ys m] e assms(1)
    by (simp add: um_next_entries[OF assms(1) e] um_wf_def um_keys_def)
  then show ?thesis by (simp add: um_rot_split[OF e nk])
qed

lemma um_rot_begin: "um_wf m \<Longrightarrow> um_rot m (um_begin m) = um_rot m None"
  by (cases "entries m") (auto simp: um_begin_def um_keys_def um_rot_def)

lemma um_rot_hd: "um_wf m \<Longrightarrow> um_find m k = Some v \<Longrightarrow> \<exists>r. um_rot m (Some k) = (k, v) # r"
  using um_rot_split um_split by metis

lemma mset_um_rot: "um_wf m \<Longrightarrow> iter_ok m it \<Longrightarrow> mset (um_rot m it) = mset (entries m)"
proof (cases it)
  case (Some k)
  have "mset (dropWhile P xs @ takeWhile P xs) = mset xs" for P and xs :: "('a \<times> 'b) list"
    by (metis mset_append takeWhile_dropWhile_id union_commute)
  with Some show ?thesis by (simp add: um_rot_def)
qed (simp add: um_rot_def)

lemma length_um_rot: "um_wf m \<Longrightarrow> iter_ok m it \<Longrightarrow> length (um_rot m it) = um_size m"
  using mset_um_rot by (metis size_mset um_size_def)

lemma iter_ok_simps [simp]:
  "iter_ok m None" "iter_ok m (Some k) \<longleftrightarrow> k \<in> set (um_keys m)" "iter_ok m (um_begin m)"
  by (auto simp: iter_ok_def dest: um_begin_in_keys split: option.splits)

lemma iter_ok_next: "iter_ok m (um_next m k)"
  by (auto simp: iter_ok_def dest: um_next_in_keys split: option.splits)

section \<open>pop refines the abstract queue\<close>

text \<open>
  The two ways the entry under \<^verbatim>\<open>cur_\<close> changes: it is erased, or its counter is replaced. In
  both the iterator moves on first.
\<close>

lemma rot_erase_next:
  assumes "um_wf m" "um_find m k = Some v"
  shows "um_rot (um_erase m k) (um_next m k) = tl (um_rot m (Some k))"
proof -
  obtain xs ys where e: "entries m = xs @ (k, v) # ys" "k \<notin> fst ` set xs" "k \<notin> fst ` set ys"
    using um_split[OF assms] by metis
  have "filter (\<lambda>e. fst e \<noteq> k) zs = zs" if "k \<notin> fst ` set zs" for zs :: "('a \<times> 'b) list"
    using that by (intro filter_True) auto
  with e have "entries (um_erase m k) = xs @ ys" by (simp add: um_erase_def)
  moreover have "distinct (map fst (xs @ ys))"
    using assms(1) e(1) by (auto simp: um_wf_def um_keys_def)
  ultimately have "um_rot (um_erase m k) (um_next m k) = ys @ xs"
    using um_rot_at_next by (simp add: um_next_entries[OF assms(1) e(1)])
  then show ?thesis by (simp add: um_rot_split[OF e(1,2)])
qed

lemma rot_set_next:
  assumes "um_wf m" "um_find m k = Some v"
  shows "um_rot (um_set m k w) (um_next m k) = tl (um_rot m (Some k)) @ [(k, w)]"
proof -
  obtain xs ys where e: "entries m = xs @ (k, v) # ys" "k \<notin> fst ` set xs" "k \<notin> fst ` set ys"
    using um_split[OF assms] by metis
  have "map (\<lambda>(k', v'). (k', if k' = k then w else v')) zs = zs"
    if "k \<notin> fst ` set zs" for zs :: "('a \<times> 'b) list"
    using that by (induction zs) auto
  with e have e': "entries (um_set m k w) = (xs @ [(k, w)]) @ ys"
    by (simp add: um_set_def um_keys_def)
  moreover have "distinct (map fst ((xs @ [(k, w)]) @ ys))"
    using assms(1) e(1) by (auto simp: um_wf_def um_keys_def)
  ultimately have "um_rot (um_set m k w) (um_next m k) = ys @ xs @ [(k, w)]"
    using um_rot_at_next[of "xs @ [(k, w)]" ys] by (simp add: um_next_entries[OF assms(1) e(1)])
  then show ?thesis by (simp add: um_rot_split[OF e(1,2)])
qed


definition bq_start :: "BroadcastQueue \<Rightarrow> string iter" where
  "bq_start q = (if bq_cur q = None then um_begin (bq_m q) else bq_cur q)"

lemma bq_rot_start: "bq_inv q \<Longrightarrow> bq_rot q = um_rot (bq_m q) (bq_start q)"
  by (auto simp: bq_rot_def bq_start_def um_rot_begin bq_inv_def)

lemma bq_start_cases:
  assumes "bq_inv q"
  obtains (empty) "bq_start q = None" "entries (bq_m q) = []" "bq_rot q = []" "bq_cur q = None"
  | (entry) k x n r where "bq_start q = Some k" "um_find (bq_m q) k = Some (x, n)"
      "bq_rot q = (k, x, n) # r" "um_rot (bq_m q) (Some k) = (k, x, n) # r" "ns_Name x = k"
proof (cases "bq_start q")
  case None
  then have "bq_cur q = None" "entries (bq_m q) = []"
    by (auto simp: bq_start_def um_begin_None split: if_splits)
  with None empty show thesis by (simp add: bq_rot_def um_rot_def)
next
  case (Some k)
  then have "iter_ok (bq_m q) (Some k)"
    using assms by (metis bq_inv_def bq_start_def iter_ok_simps(3))
  then obtain v where v: "um_find (bq_m q) k = Some v" by (auto simp: um_keys_dom)
  with assms obtain r where r: "um_rot (bq_m q) (Some k) = (k, v) # r"
    using um_rot_hd by (metis bq_inv_def)
  have "ns_Name (fst v) = k"
    using assms v by (auto simp: bq_inv_def um_find_entry list_all_iff)
  with Some v r assms entry show thesis by (cases v) (simp add: bq_rot_start)
qed

lemma bq_pop_start:
  "bq_pop q = (case bq_start q of
     None \<Rightarrow> Inr (None, q\<lparr>bq_cur := None\<rparr>)
   | Some k \<Rightarrow>
       (case um_find (bq_m q) k of
          None \<Rightarrow> Inl UseAfterFree
        | Some (msg, n) \<Rightarrow>
            Inr (Some msg, q\<lparr>bq_m := (if n - 1 < 1 then um_erase (bq_m q) k
                                     else um_set (bq_m q) k (msg, n - 1)),
                             bq_cur := um_next (bq_m q) k\<rparr>)))"
  by (simp add: bq_pop_def bq_start_def Let_def split: option.splits)

lemma iter_ok_same_keys: "um_keys m' = um_keys m \<Longrightarrow> iter_ok m' it = iter_ok m it"
  by (simp add: iter_ok_def split: option.splits)

lemma iter_ok_erase_next:
  assumes "um_wf m" "k \<in> set (um_keys m)"
  shows "iter_ok (um_erase m k) (um_next m k)"
proof -
  obtain xs ys where ks: "um_keys m = xs @ k # ys" using assms(2) by (meson split_list)
  then have "k \<notin> set ys" using assms(1) by (simp add: um_wf_def)
  with ks show ?thesis
    by (auto simp: um_next_split[OF assms(1) ks] um_keys_erase split: list.splits)
qed

lemma entries_name_set:
  assumes "um_wf m" "list_all (\<lambda>(k, x, t). ns_Name x = k) (entries m)" "ns_Name x = k"
  shows "list_all (\<lambda>(k, x, t). ns_Name x = k) (entries (um_set m k (x, n)))"
proof -
  have "ns_Name (fst v) = k'" if "um_find (um_set m k (x, n)) k' = Some v" for k' v
  proof (cases "k' = k")
    case False
    with that assms(1) have "um_find m k' = Some v" by (simp add: um.find_put)
    with assms show ?thesis by (auto simp: um_find_entry list_all_iff)
  qed (use that assms in \<open>auto simp: um.find_put\<close>)
  then show ?thesis
    using um.wf_put[OF assms(1)] by (force simp: um_find_entry list_all_iff)
qed

lemma entries_name_erase:
  "list_all (\<lambda>(k, x, t). ns_Name x = k) (entries m) \<Longrightarrow>
   list_all (\<lambda>(k, x, t). ns_Name x = k) (entries (um_erase m k'))"
  by (simp add: um_erase_def list_all_iff)

lemma bq_pop_refines:
  assumes "bq_inv q"
  shows "\<exists>q'. bq_pop q = Inr (fst (cyc_pop (bq_rot q)), q') \<and> bq_inv q' \<and>
     bq_rot q' = snd (cyc_pop (bq_rot q)) \<and> bq_multi q' = bq_multi q \<and>
     bq_peek q' = bq_peek q \<and> bq_peeked q' = bq_peeked q"
  using assms
proof (cases rule: bq_start_cases)
  case empty
  then show ?thesis using assms by (simp add: bq_pop_start bq_inv_def bq_rot_def um_rot_def)
next
  case (entry k x n r)
  have wf: "um_wf (bq_m q)" and names: "list_all (\<lambda>(k, x, t). ns_Name x = k) (entries (bq_m q))"
    using assms by (simp_all add: bq_inv_def)
  have key: "k \<in> set (um_keys (bq_m q))" using entry(2) by (rule um_find_in_keys)
  define m' where "m' = (if n - 1 < 1 then um_erase (bq_m q) k else um_set (bq_m q) k (x, n - 1))"
  define q' where "q' = q\<lparr>bq_m := m', bq_cur := um_next (bq_m q) k\<rparr>"
  have "um_rot m' (um_next (bq_m q) k) = r @ countdown (k, x, n)"
    using rot_erase_next[OF wf entry(2)] rot_set_next[OF wf entry(2), of "(x, n - 1)"] entry(4)
    by (simp add: m'_def)
  then have "bq_rot q' = snd (cyc_pop (bq_rot q))"
    by (simp add: q'_def bq_rot_def entry(3)[unfolded bq_rot_def])
  moreover have "um_wf m'" by (simp add: m'_def wf um.wf_put um.wf_erase)
  moreover have "iter_ok m' (um_next (bq_m q) k)"
    using iter_ok_erase_next[OF wf key] iter_ok_same_keys[of "um_set (bq_m q) k (x, n - 1)" "bq_m q"]
      key by (simp add: m'_def um_keys_set iter_ok_next)
  moreover have "list_all (\<lambda>(k, x, t). ns_Name x = k) (entries m')"
    using entries_name_set[OF wf names] entries_name_erase[OF names] entry(5) by (simp add: m'_def)
  moreover have "bq_pop q = Inr (fst (cyc_pop (bq_rot q)), q')"
    using entry by (simp add: bq_pop_start q'_def m'_def)
  ultimately show ?thesis by (intro exI[of _ q']) (simp add: q'_def bq_inv_def)
qed


section \<open>Traversal: Peek, ResetPeek, ApplyPeek\<close>

definition bq_peek_start :: "BroadcastQueue \<Rightarrow> string iter" where
  "bq_peek_start q = (if bq_peek q = None then um_begin (bq_m q) else bq_peek q)"

lemma Peek_start:
  "Peek q = (case bq_peek_start q of
     None \<Rightarrow> Inr (None, q\<lparr>bq_peek := None\<rparr>)
   | Some k \<Rightarrow>
       if um_size (bq_m q) \<le> bq_peeked q then Inr (None, q\<lparr>bq_peek := Some k\<rparr>)
       else (case um_find (bq_m q) k of
               None \<Rightarrow> Inl UseAfterFree
             | Some (msg, _) \<Rightarrow>
                 Inr (Some msg, q\<lparr>bq_peek := um_next (bq_m q) k, bq_peeked := Suc (bq_peeked q)\<rparr>)))"
  by (simp add: Peek_def bq_peek_start_def)

lemma bq_rot_peek_update [simp]:
  "bq_rot (q\<lparr>bq_peek := p\<rparr>) = bq_rot q" "bq_rot (q\<lparr>bq_peeked := n\<rparr>) = bq_rot q"
  "bq_inv (q\<lparr>bq_peek := p\<rparr>) = bq_inv q" "bq_inv (q\<lparr>bq_peeked := n\<rparr>) = bq_inv q"
  by (simp_all add: bq_rot_def bq_inv_def)

lemma length_bq_rot: "bq_inv q \<Longrightarrow> length (bq_rot q) = um_size (bq_m q)"
  by (simp add: bq_rot_def bq_inv_def length_um_rot)

lemma bq_peeking_start:
  assumes "bq_peeking q n"
  shows "iter_ok (bq_m q) (bq_peek_start q)"
    and "um_rot (bq_m q) (bq_peek_start q) = rotate n (bq_rot q)"
  using assms by (auto simp: bq_peeking_def bq_peek_start_def um_rot_begin bq_inv_def)

lemma hd_rotate: "n < length xs \<Longrightarrow> hd (rotate n xs) = xs ! n"
  by (cases "xs = []") (simp_all add: hd_rotate_conv_nth)

lemma Peek_more:
  assumes "bq_peeking q n" "n < um_size (bq_m q)"
  obtains q' where "Peek q = Inr (Some (fst (snd (bq_rot q ! n))), q')" "bq_peeking q' (Suc n)"
    "bq_rot q' = bq_rot q" "bq_m q' = bq_m q" "bq_cur q' = bq_cur q" "bq_multi q' = bq_multi q"
proof -
  have inv: "bq_inv q" and wf: "um_wf (bq_m q)" and pk: "bq_peeked q = n"
    using assms(1) by (simp_all add: bq_peeking_def bq_inv_def)
  have len: "n < length (bq_rot q)" using assms(2) inv by (simp add: length_bq_rot)
  have "um_rot (bq_m q) (bq_peek_start q) \<noteq> []"
    using bq_peeking_start(2)[OF assms(1)] len by auto
  then obtain k where k: "bq_peek_start q = Some k"
    using assms(2) by (cases "bq_peek_start q")
      (auto simp: bq_peek_start_def um_begin_None um_size_def split: if_splits)
  then obtain v where v: "um_find (bq_m q) k = Some v"
    using bq_peeking_start(1)[OF assms(1)] by (auto simp: um_keys_dom)
  obtain r where "um_rot (bq_m q) (Some k) = (k, v) # r" using um_rot_hd[OF wf v] by metis
  then have hd: "bq_rot q ! n = (k, v)"
    using bq_peeking_start(2)[OF assms(1)] k len by (metis hd_rotate list.sel(1))
  define q' where "q' = q\<lparr>bq_peek := um_next (bq_m q) k, bq_peeked := Suc n\<rparr>"
  have "um_rot (bq_m q) (um_next (bq_m q) k) = rotate (Suc n) (bq_rot q)"
    using um_rot_next[OF wf um_find_in_keys[OF v]] bq_peeking_start(2)[OF assms(1)] k by simp
  then have "bq_peeking q' (Suc n)"
    using assms inv by (simp add: bq_peeking_def q'_def iter_ok_next)
  moreover have "Peek q = Inr (Some (fst (snd (bq_rot q ! n))), q')"
    using k v hd pk assms(2) by (simp add: Peek_start q'_def split: prod.split)
  ultimately show thesis using that by (simp add: q'_def)
qed

lemma Peek_done:
  assumes "bq_peeking q n" "um_size (bq_m q) \<le> n"
  obtains q' where "Peek q = Inr (None, q')" "bq_peeking q' n"
    "bq_rot q' = bq_rot q" "bq_m q' = bq_m q" "bq_cur q' = bq_cur q" "bq_multi q' = bq_multi q"
proof -
  have "Peek q = Inr (None, q\<lparr>bq_peek := bq_peek_start q\<rparr>)"
    using assms by (auto simp: Peek_start bq_peeking_def split: option.splits)
  moreover have "bq_peeking (q\<lparr>bq_peek := bq_peek_start q\<rparr>) n"
    using assms(1) bq_peeking_start[OF assms(1)] by (simp add: bq_peeking_def)
  ultimately show thesis using that by simp
qed

lemma peek_msgs_prefix:
  assumes "bq_peeking q n"
  shows "\<exists>q'. peek_msgs j q = Inr (map (\<lambda>e. fst (snd e)) (take j (drop n (bq_rot q))), q') \<and>
     bq_peeking q' (min (n + j) (um_size (bq_m q))) \<and>
     bq_rot q' = bq_rot q \<and> bq_m q' = bq_m q \<and> bq_cur q' = bq_cur q \<and> bq_multi q' = bq_multi q"
  using assms
proof (induction j arbitrary: q n)
  case 0
  then show ?case by (auto simp: bq_peeking_def min_def)
next
  case (Suc j)
  have len: "length (bq_rot q) = um_size (bq_m q)"
    using Suc.prems by (simp add: length_bq_rot bq_peeking_def)
  show ?case
  proof (cases "n < um_size (bq_m q)")
    case True
    obtain q1 where q1: "Peek q = Inr (Some (fst (snd (bq_rot q ! n))), q1)" "bq_peeking q1 (Suc n)"
      "bq_rot q1 = bq_rot q" "bq_m q1 = bq_m q" "bq_cur q1 = bq_cur q" "bq_multi q1 = bq_multi q"
      using Peek_more[OF Suc.prems True] .
    have "take (Suc j) (drop n (bq_rot q)) = bq_rot q ! n # take j (drop (Suc n) (bq_rot q))"
      using True len by (metis Cons_nth_drop_Suc take_Suc_Cons)
    with q1 Suc.IH[OF q1(2)] show ?thesis by auto
  next
    case False
    then have n: "n = um_size (bq_m q)" using Suc.prems by (simp add: bq_peeking_def)
    obtain q1 where "Peek q = Inr (None, q1)" "bq_peeking q1 n" "bq_rot q1 = bq_rot q"
      "bq_m q1 = bq_m q" "bq_cur q1 = bq_cur q" "bq_multi q1 = bq_multi q"
      using Peek_done[OF Suc.prems] n by auto
    with n len show ?thesis by simp
  qed
qed

lemma bq_idle_peeking: "bq_idle q \<Longrightarrow> bq_peeking q 0"
  by (simp add: bq_idle_def bq_peeking_def bq_rot_def bq_inv_def)

lemma ResetPeek_idle: "bq_inv q \<Longrightarrow> bq_idle (ResetPeek q)"
  by (simp add: ResetPeek_def bq_idle_def bq_inv_def)

lemma apply_loop_refines:
  assumes "bq_inv q"
  shows "\<exists>q'. apply_loop q = Inr q' \<and> bq_inv q' \<and> bq_peeked q' = 0 \<and> bq_multi q' = bq_multi q \<and>
     bq_rot q' = cyc_pops (bq_peeked q) (bq_rot q)"
  using assms
proof (induction "bq_peeked q" arbitrary: q)
  case 0
  then show ?case by (simp add: apply_loop.simps[of q])
next
  case (Suc n)
  obtain q1 where q1: "bq_pop q = Inr (fst (cyc_pop (bq_rot q)), q1)" "bq_inv q1"
    "bq_rot q1 = snd (cyc_pop (bq_rot q))" "bq_peeked q1 = bq_peeked q" "bq_multi q1 = bq_multi q"
    using bq_pop_refines[OF Suc.prems] by blast
  define q2 where "q2 = q1\<lparr>bq_peeked := n\<rparr>"
  have pk: "bq_peeked q = Suc n" using Suc.hyps(2) by simp
  have "apply_loop q = apply_loop q2"
    by (subst apply_loop.simps) (simp add: q1 pk q2_def)
  moreover have "bq_inv q2" "bq_rot q2 = snd (cyc_pop (bq_rot q))" "bq_multi q2 = bq_multi q"
    "n = bq_peeked q2"
    using q1 by (simp_all add: q2_def)
  ultimately show ?case using Suc.hyps(1)[of q2] pk by auto
qed

lemma cyc_pops_prefix:
  "n \<le> length r \<Longrightarrow> cyc_pops n r = drop n r @ concat (map countdown (take n r))"
proof (induction n arbitrary: r)
  case (Suc n)
  then obtain e r' where r: "r = e # r'" by (cases r) auto
  with Suc.prems have n: "n \<le> length r'" by simp
  then have "cyc_pops n (r' @ countdown e) =
      drop n (r' @ countdown e) @ concat (map countdown (take n (r' @ countdown e)))"
    by (intro Suc.IH) simp
  with n show ?case by (simp add: r)
qed simp

section \<open>Push\<close>

lemma Push_bq:
  "Push q msg n = (case um_find (bq_m q) (ns_Name msg) of
     Some (old, _) \<Rightarrow>
       if supersedes msg old
       then q\<lparr>bq_m := um_set (bq_m q) (ns_Name msg) (msg, bcast_times (bq_multi q) n)\<rparr> else q
   | None \<Rightarrow> q\<lparr>bq_m := um_set (bq_m q) (ns_Name msg) (msg, bcast_times (bq_multi q) n)\<rparr>)"
  by (simp add: Push_def Let_def split: option.splits)

lemma Push_frame [simp]:
  "bq_multi (Push q msg n) = bq_multi q" "bq_cur (Push q msg n) = bq_cur q"
  "bq_peek (Push q msg n) = bq_peek q" "bq_peeked (Push q msg n) = bq_peeked q"
  "um_order (bq_m (Push q msg n)) = um_order (bq_m q)"
  by (simp_all add: Push_bq split: option.splits prod.splits)

lemma iter_ok_set: "um_wf m \<Longrightarrow> iter_ok m it \<Longrightarrow> iter_ok (um_set m k v) it"
  by (auto simp: iter_ok_def um_keys_dom um.find_put split: option.splits)

lemma Push_inv:
  assumes "bq_inv q"
  shows "bq_inv (Push q msg n)"
proof -
  have "bq_inv (q\<lparr>bq_m := um_set (bq_m q) (ns_Name msg) (msg, t)\<rparr>)" for t
    using assms by (simp add: bq_inv_def um.wf_put iter_ok_set entries_name_set)
  with assms show ?thesis by (simp add: Push_bq split: option.splits prod.splits)
qed

lemma Push_idle: "bq_idle q \<Longrightarrow> bq_idle (Push q msg n)"
  by (simp add: bq_idle_def Push_inv)

lemma Push_find:
  assumes "um_wf (bq_m q)"
  shows "map_option fst (um_find (bq_m (Push q msg n)) k) =
    (if k = ns_Name msg
     then Some (case um_find (bq_m q) k of None \<Rightarrow> msg | Some (old, _) \<Rightarrow> msg.keep old msg)
     else map_option fst (um_find (bq_m q) k))"
  using assms by (auto simp: Push_bq um.find_put msg.keep_def split: option.splits)

lemma bcast_times_eq:
  "bcast_times 3 n = 3 * int (ceil_log 10 (max 2 (unat n)))"
proof -
  have "n \<le> 1 \<longleftrightarrow> unat n \<le> 1" by (simp add: word_le_nat_alt)
  then show ?thesis by (auto simp: bcast_times_def max_def)
qed

lemma bcast_times_bounds: "3 \<le> bcast_times 3 n" "bcast_times 3 n \<le> 30"
proof -
  have "unat n < 2 ^ 32" using unsigned_less[of n] by simp
  then have "max 2 (unat n) \<le> 10 ^ 10" by simp
  then have "ceil_log 10 (max 2 (unat n)) \<le> 10" by (subst ceil_log_le_iff) simp_all
  moreover have "0 < ceil_log 10 (max 2 (unat n))" by (rule ceil_log_pos) simp_all
  ultimately show "3 \<le> bcast_times 3 n" "bcast_times 3 n \<le> 30" by (simp_all add: bcast_times_eq)
qed

section \<open>Draining the queue\<close>

text \<open>\<open>n\<close> calls of \<^verbatim>\<open>Pop\<close>, with the messages they return.\<close>

fun pops :: "nat \<Rightarrow> BroadcastQueue \<Rightarrow> (node_state list \<times> BroadcastQueue) result" where
  "pops 0 q = Inr ([], q)"
| "pops (Suc n) q =
     rbind (Pop q) (\<lambda>(r, q').
       rbind (pops n q') (\<lambda>(xs, q'').
         Inr (case r of None \<Rightarrow> xs | Some x \<Rightarrow> x # xs, q'')))"

text \<open>How often an entry is handed out: its counter, at least once.\<close>

fun sends :: "bentry \<Rightarrow> nat" where
  "sends (k, x, t) = nat (max 1 t)"

lemma sends_countdown: "sends e = Suc (sum_list (map sends (countdown e)))"
  by (cases e) (auto simp: max_def)

definition bq_sends :: "BroadcastQueue \<Rightarrow> nat" where
  "bq_sends q = sum_list (map sends (bq_rot q))"

lemma pops_drain:
  assumes "bq_inv q" "bq_sends q = n"
  shows "\<exists>xs q'. pops n q = Inr (xs, q') \<and> bq_rot q' = [] \<and> bq_inv q' \<and>
    (\<forall>x. count_list xs x = sum_list (map sends (filter (\<lambda>e. fst (snd e) = x) (bq_rot q))))"
  using assms
proof (induction n arbitrary: q)
  case 0
  have "sends e \<noteq> 0" for e using sends_countdown[of e] by simp
  with 0 have "bq_rot q = []" by (cases "bq_rot q") (auto simp: bq_sends_def)
  with 0 show ?case by simp
next
  case (Suc n)
  then obtain e r where r: "bq_rot q = e # r" by (cases "bq_rot q") (auto simp: bq_sends_def)
  obtain q1 where q1: "Pop q = Inr (Some (fst (snd e)), q1)" "bq_inv q1" "bq_rot q1 = r @ countdown e"
    using bq_pop_refines[OF Suc.prems(1)] r by (auto simp: Pop_def)
  then have "bq_sends q1 = n" using Suc.prems(2) r sends_countdown[of e] by (simp add: bq_sends_def)
  then obtain xs q' where q': "pops n q1 = Inr (xs, q')" "bq_rot q' = []" "bq_inv q'"
    "\<And>x. count_list xs x = sum_list (map sends (filter (\<lambda>e. fst (snd e) = x) (bq_rot q1)))"
    using Suc.IH q1(2) by blast
  have cd: "filter (\<lambda>e. fst (snd e) = x) (countdown e) = (if fst (snd e) = x then countdown e else [])"
    for x by (cases e) auto
  have "count_list (fst (snd e) # xs) x = sum_list (map sends (filter (\<lambda>e. fst (snd e) = x) (bq_rot q)))"
    for x using q'(4)[of x] q1(3) r sends_countdown[of e] cd[of x] by simp
  with q1 q' show ?case by simp
qed

lemma bq_inv_init: "order_ok ord \<Longrightarrow> bq_idle (BroadcastQueue_init ord)"
  by (simp add: BroadcastQueue_init_def bq_idle_def bq_inv_def um_wf_empty) (simp add: um_empty_def)

section \<open>Rounds of the queue\<close>

lemma peek_apply_round:
  assumes "bq_idle q"
  shows "\<exists>q1 q2. peek_msgs n q = Inr (map (\<lambda>e. fst (snd e)) (take n (bq_rot q)), q1) \<and>
    ApplyPeek q1 = Inr q2 \<and> bq_idle q2 \<and>
    bq_rot q2 = drop n (bq_rot q) @ concat (map countdown (take n (bq_rot q)))"
proof -
  obtain q1 where q1: "peek_msgs n q = Inr (map (\<lambda>e. fst (snd e)) (take n (bq_rot q)), q1)"
    "bq_peeking q1 (min n (um_size (bq_m q)))" "bq_rot q1 = bq_rot q"
    using peek_msgs_prefix[OF bq_idle_peeking[OF assms], of n] by auto
  have len: "length (bq_rot q) = um_size (bq_m q)"
    using assms by (simp add: bq_idle_def length_bq_rot)
  obtain q2 where q2: "apply_loop q1 = Inr q2" "bq_inv q2" "bq_peeked q2 = 0"
    "bq_rot q2 = cyc_pops (min n (um_size (bq_m q))) (bq_rot q)"
    using apply_loop_refines[of q1] q1(2,3) by (auto simp: bq_peeking_def)
  have "take (min n (length (bq_rot q))) (bq_rot q) = take n (bq_rot q)"
    "drop (min n (length (bq_rot q))) (bq_rot q) = drop n (bq_rot q)"
    by (simp_all add: min_def)
  then have "bq_rot q2 = drop n (bq_rot q) @ concat (map countdown (take n (bq_rot q)))"
    unfolding q2(4) by (subst cyc_pops_prefix) (simp_all add: len)
  with q1 q2 show ?thesis by (simp add: ApplyPeek_def bq_idle_def)
qed

lemma peek_apply_multi:
  assumes "bq_idle q" "peek_msgs n q = Inr (xs, q1)" "ApplyPeek q1 = Inr q2"
  shows "bq_multi q2 = bq_multi q"
proof -
  have "bq_multi q1 = bq_multi q \<and> bq_inv q1"
    using peek_msgs_prefix[OF bq_idle_peeking[OF assms(1)], of n] assms(2) by (auto simp: bq_peeking_def)
  then show ?thesis
    using apply_loop_refines[of q1] assms(3) by (auto simp: ApplyPeek_def split: if_splits)
qed

lemma peek_reset_round:
  assumes "bq_idle q"
  shows "\<exists>xs q1. peek_msgs n q = Inr (xs, q1) \<and> ResetPeek q1 = q"
proof -
  obtain xs q1 where q1: "peek_msgs n q = Inr (xs, q1)" "bq_m q1 = bq_m q" "bq_cur q1 = bq_cur q"
    "bq_multi q1 = bq_multi q"
    using peek_msgs_prefix[OF bq_idle_peeking[OF assms], of n] by auto
  with assms have "ResetPeek q1 = q" by (simp add: ResetPeek_def bq_idle_def)
  with q1 show ?thesis by blast
qed

text \<open>
  The operations in the order their users call them: \<^verbatim>\<open>Push\<close> by the message handlers, and by
  \<^verbatim>\<open>gossiper::appendGossipMsg\<close> a traversal that is committed or abandoned.
\<close>

datatype queue_op = Q_push node_state u32 | Q_send nat | Q_abandon nat

fun queue_step :: "BroadcastQueue \<Rightarrow> queue_op \<Rightarrow> BroadcastQueue result" where
  "queue_step q (Q_push msg node_num) = Inr (Push q msg node_num)"
| "queue_step q (Q_send n) = rbind (peek_msgs n q) (\<lambda>(_, q'). ApplyPeek q')"
| "queue_step q (Q_abandon n) = rbind (peek_msgs n q) (\<lambda>(_, q'). Inr (ResetPeek q'))"

lemma queue_step_total: "bq_idle q \<Longrightarrow> \<exists>q'. queue_step q e = Inr q' \<and> bq_idle q'"
proof (cases e)
  case (Q_send n)
  assume "bq_idle q"
  from peek_apply_round[OF this, of n] Q_send show ?thesis by auto
next
  case (Q_abandon n)
  assume q: "bq_idle q"
  from peek_reset_round[OF q, of n] Q_abandon q show ?thesis by auto
qed (auto simp: Push_idle)

interpretation rounds: total_machine queue_step bq_idle "\<lambda>_. True"
proof
  show "queue_step q e = Inr q' \<Longrightarrow> bq_idle q'" if "bq_idle q" for q e q'
    using queue_step_total[OF that, of e] by auto
  show "is_ok (queue_step q e)" if "bq_idle q" for q e
    using queue_step_total[OF that, of e] by auto
qed

section \<open>Rehashing\<close>

text \<open>
  The operations above keep an iterator valid as long as its node is in the table, which is what the node-based
  tables of libstdc++ and libc++ do. The standard promises less: inserting a new key may rehash, which invalidates every
  iterator to the container, unless the number of elements after the insertion is at most the maximum load
  factor times the number of buckets, here \<open>capacity\<close>. Neither \<^verbatim>\<open>Push\<close> nor \<^verbatim>\<open>ResetPeek\<close> renews \<^verbatim>\<open>cur_\<close> and \<^verbatim>\<open>peek_\<close>, so
  in the strict machine a \<^verbatim>\<open>Push\<close> that may rehash leaves them invalid for good, and every traversal after it, which
  compares or dereferences them, is a use of a dangling iterator.
\<close>

record strict_queue =
  sq_queue :: BroadcastQueue
  sq_valid :: bool

definition strict_new :: "(string \<Rightarrow> string list \<Rightarrow> string list) \<Rightarrow> strict_queue" where
  "strict_new ord = \<lparr>sq_queue = BroadcastQueue_init ord, sq_valid = True\<rparr>"

definition may_rehash :: "nat \<Rightarrow> BroadcastQueue \<Rightarrow> node_state \<Rightarrow> bool" where
  "may_rehash capacity q msg \<longleftrightarrow> um_find (bq_m q) (ns_Name msg) = None \<and> capacity < Suc (um_size (bq_m q))"

fun strict_step :: "nat \<Rightarrow> strict_queue \<Rightarrow> queue_op \<Rightarrow> strict_queue result" where
  "strict_step capacity s (Q_push msg node_num) =
     Inr \<lparr>sq_queue = Push (sq_queue s) msg node_num,
          sq_valid = (sq_valid s \<and> \<not> may_rehash capacity (sq_queue s) msg)\<rparr>"
| "strict_step capacity s (Q_send n) =
     (if sq_valid s then rbind (queue_step (sq_queue s) (Q_send n)) (\<lambda>q. Inr (s\<lparr>sq_queue := q\<rparr>)) else Inl UseAfterFree)"
| "strict_step capacity s (Q_abandon n) =
     (if sq_valid s then rbind (queue_step (sq_queue s) (Q_abandon n)) (\<lambda>q. Inr (s\<lparr>sq_queue := q\<rparr>)) else Inl UseAfterFree)"

fun pushed_name :: "queue_op \<Rightarrow> string list" where
  "pushed_name (Q_push msg _) = [ns_Name msg]"
| "pushed_name _ = []"

definition pushed_names :: "queue_op list \<Rightarrow> string set" where
  "pushed_names ops = set (concat (map pushed_name ops))"

lemma pushed_names_simps [simp]:
  "pushed_names [] = {}" "pushed_names (op # ops) = set (pushed_name op) \<union> pushed_names ops"
  by (simp_all add: pushed_names_def)

lemma finite_pushed_names [simp]: "finite (pushed_names ops)"
  by (simp add: pushed_names_def)

lemma um_size_card: "um_wf m \<Longrightarrow> um_size m = card (set (um_keys m))"
  using distinct_card[of "um_keys m"] by (simp add: um_wf_def um_size_def um_keys_def)

text \<open>The traversals bring in no name.\<close>

definition bq_names :: "BroadcastQueue \<Rightarrow> string set" where
  "bq_names q = set (um_keys (bq_m q))"

lemma bq_names_rot: "bq_inv q \<Longrightarrow> bq_names q = fst ` set (bq_rot q)"
  using mset_um_rot[of "bq_m q" "bq_cur q"]
  by (simp add: bq_names_def bq_rot_def bq_inv_def um_keys_def) (metis mset_eq_setD)

lemma bq_names_Push:
  assumes "um_wf (bq_m q)"
  shows "bq_names (Push q msg n) = insert (ns_Name msg) (bq_names q)"
proof -
  have *: "k \<in> bq_names q' \<longleftrightarrow> map_option fst (um_find (bq_m q') k) \<noteq> None" for k and q' :: BroadcastQueue
    by (auto simp: bq_names_def um_keys_dom)
  show ?thesis by (rule set_eqI) (simp only: * Push_find[OF assms] insert_iff, simp)
qed

lemma countdown_name: "e' \<in> set (countdown e) \<Longrightarrow> fst e' = fst e"
  by (cases e) (auto split: if_splits)

lemma queue_step_names:
  assumes "bq_idle q" "queue_step q e = Inr q'"
  shows "bq_names q' \<subseteq> bq_names q \<union> set (pushed_name e)"
proof (cases e)
  case (Q_push msg n)
  have "um_wf (bq_m q)" using assms(1) by (simp add: bq_idle_def bq_inv_def)
  with Q_push assms(2) show ?thesis by (auto simp: bq_names_Push)
next
  case (Q_send n)
  from peek_apply_round[OF assms(1), of n] Q_send assms(2)
  have idle: "bq_idle q'" "bq_rot q' = drop n (bq_rot q) @ concat (map countdown (take n (bq_rot q)))" by auto
  have "fst ` set (bq_rot q') \<subseteq> fst ` set (bq_rot q)"
  proof
    fix k assume "k \<in> fst ` set (bq_rot q')"
    then obtain e' where e': "e' \<in> set (bq_rot q')" "k = fst e'" by auto
    then show "k \<in> fst ` set (bq_rot q)"
      using idle(2) by (auto dest!: in_set_takeD in_set_dropD countdown_name)
  qed
  with assms(1) idle(1) show ?thesis by (auto simp: bq_names_rot bq_idle_def)
next
  case (Q_abandon n)
  from peek_reset_round[OF assms(1), of n] Q_abandon assms(2) have "q' = q" by auto
  then show ?thesis by simp
qed

text \<open>As long as the iterators are valid the strict machine is the plain one, and they are as long as there is room for all names.\<close>

lemma strict_run:
  assumes "bq_idle (sq_queue s)" "sq_valid s" "card (bq_names (sq_queue s) \<union> pushed_names ops) \<le> capacity"
  shows "\<exists>s'. rfold (strict_step capacity) s ops = Inr s' \<and> sq_valid s' \<and> bq_idle (sq_queue s') \<and>
    rfold queue_step (sq_queue s) ops = Inr (sq_queue s')"
  using assms
proof (induction ops arbitrary: s)
  case (Cons op ops)
  obtain q' where q': "queue_step (sq_queue s) op = Inr q'" "bq_idle q'"
    using queue_step_total[OF Cons.prems(1), of op] by blast
  have fits: "card (set xs) \<le> capacity" if "set xs \<subseteq> bq_names (sq_queue s) \<union> pushed_names (op # ops)" for xs
    using card_mono[OF _ that] Cons.prems(3) by (simp add: bq_names_def)
  have "\<not> may_rehash capacity (sq_queue s) msg" if "op = Q_push msg n" for msg n
  proof
    assume r: "may_rehash capacity (sq_queue s) msg"
    have "um_wf (bq_m (sq_queue s))" using Cons.prems(1) by (simp add: bq_idle_def bq_inv_def)
    moreover have "ns_Name msg \<notin> set (um_keys (bq_m (sq_queue s)))" using r by (auto simp: may_rehash_def um_keys_dom)
    ultimately have "card (set (ns_Name msg # um_keys (bq_m (sq_queue s)))) = Suc (um_size (bq_m (sq_queue s)))"
      by (simp add: um_size_card)
    moreover have "card (set (ns_Name msg # um_keys (bq_m (sq_queue s)))) \<le> capacity"
      by (rule fits) (use that in \<open>auto simp: bq_names_def\<close>)
    ultimately show False using r by (simp add: may_rehash_def)
  qed
  with q'(1) Cons.prems(2) have "strict_step capacity s op = Inr \<lparr>sq_queue = q', sq_valid = True\<rparr>"
    by (cases op; cases s) auto
  moreover have "card (bq_names q' \<union> pushed_names ops) \<le> capacity"
  proof -
    have "bq_names q' \<union> pushed_names ops \<subseteq> bq_names (sq_queue s) \<union> pushed_names (op # ops)"
      using queue_step_names[OF Cons.prems(1) q'(1)] by auto
    then show ?thesis using fits[of "um_keys (bq_m q') @ concat (map pushed_name ops)"]
      by (simp add: bq_names_def pushed_names_def)
  qed
  ultimately show ?case using Cons.IH[of "\<lparr>sq_queue = q', sq_valid = True\<rparr>"] q' by simp
qed auto

lemma strict_invalid:
  assumes "\<not> sq_valid s" "\<not> (\<exists>msg n. op = Q_push msg n)"
  shows "strict_step capacity s op = Inl UseAfterFree"
  using assms by (cases op) auto

lemma strict_fault: "bq_idle (sq_queue s) \<Longrightarrow> strict_step capacity s op = Inl f \<Longrightarrow> f = UseAfterFree"
  by (cases op) (use queue_step_total[of "sq_queue s" op] in \<open>auto simp: rbind_Inl_iff split: if_splits\<close>)

lemma strict_step_idle:
  "bq_idle (sq_queue s) \<Longrightarrow> strict_step capacity s op = Inr s' \<Longrightarrow> bq_idle (sq_queue s')"
  by (cases op) (use queue_step_total[of "sq_queue s" op] in \<open>auto simp: rbind_Inr_iff Push_idle split: if_splits\<close>)

lemma strict_run_fault:
  "bq_idle (sq_queue s) \<Longrightarrow> rfold (strict_step capacity) s ops = Inl f \<Longrightarrow> f = UseAfterFree"
  by (induction ops arbitrary: s) (auto simp: rbind_Inl_iff dest: strict_fault strict_step_idle)

text \<open>Pushing more names than there is room for.\<close>

lemma strict_pushes:
  assumes "bq_idle (sq_queue s)" "distinct (map ns_Name ms)" "bq_names (sq_queue s) \<inter> ns_Name ` set ms = {}"
  shows "\<exists>s'. rfold (strict_step capacity) s (map (\<lambda>m. Q_push m n) ms) = Inr s' \<and> bq_idle (sq_queue s') \<and>
    (sq_valid s' \<longrightarrow> ms = [] \<or> card (bq_names (sq_queue s)) + length ms \<le> capacity)"
  using assms
proof (induction ms arbitrary: s)
  case (Cons m ms)
  let ?s = "\<lparr>sq_queue = Push (sq_queue s) m n, sq_valid = sq_valid s \<and> \<not> may_rehash capacity (sq_queue s) m\<rparr>"
  have wf: "um_wf (bq_m (sq_queue s))" using Cons.prems(1) by (simp add: bq_idle_def bq_inv_def)
  have new: "um_find (bq_m (sq_queue s)) (ns_Name m) = None"
    using Cons.prems(3) by (cases "um_find (bq_m (sq_queue s)) (ns_Name m)") (auto simp: bq_names_def um_keys_dom)
  have names: "bq_names (sq_queue ?s) = insert (ns_Name m) (bq_names (sq_queue s))"
    using wf by (simp add: bq_names_Push)
  have "card (bq_names (sq_queue ?s)) = Suc (um_size (bq_m (sq_queue s)))"
    using names Cons.prems(3) wf by (simp add: um_size_card bq_names_def)
  moreover have "bq_idle (sq_queue ?s)" using Cons.prems(1) by (simp add: Push_idle)
  moreover have "bq_names (sq_queue ?s) \<inter> ns_Name ` set ms = {}" using Cons.prems(2,3) names by auto
  moreover have "card (bq_names (sq_queue s)) = um_size (bq_m (sq_queue s))" using wf by (simp add: um_size_card bq_names_def)
  ultimately show ?case
    using Cons.IH[of ?s] Cons.prems(2) new by (cases ms) (auto simp: may_rehash_def)
qed simp

section \<open>Properties\<close>

text \<open>A queue with three messages, for the witnesses.\<close>

definition ex_msg :: "string \<Rightarrow> u64 \<Rightarrow> STATE \<Rightarrow> node_state" where
  "ex_msg n d st = \<lparr>ns_Name = n, ns_IP = ''10.0.0.1'', ns_Port = ''29011'', ns_Dominant = d,
     ns_State = st, ns_From = [], ns_Timestamp = 0\<rparr>"

definition ex_queue :: BroadcastQueue where
  "ex_queue = Push (Push (Push (BroadcastQueue_init (#)) (ex_msg ''a'' 1 STATE_ALIVE) 3)
     (ex_msg ''b'' 1 STATE_DEAD) 3) (ex_msg ''c'' 7 STATE_ALIVE) 12"

lemma ex_queue_idle: "bq_idle ex_queue"
  unfolding ex_queue_def by (intro Push_idle bq_inv_init order_ok_Cons)

lemma ex_queue_inv: "bq_inv ex_queue"
  using ex_queue_idle by (simp add: bq_idle_def)

text \<open>
  (C11) \<^verbatim>\<open>pop\<close> implements the abstract cyclic queue: it never touches a dangling iterator, returns the message
  at the head of the rotation (null exactly on the empty queue), and leaves the rotation with
  that message moved to the end with its counter decremented, or gone when the counter is used up.
\<close>

theorem Pop_refines_rotation:
  assumes "bq_inv q"
  shows "\<exists>q'. Pop q = Inr (fst (cyc_pop (bq_rot q)), q') \<and>
    bq_rot q' = snd (cyc_pop (bq_rot q)) \<and> bq_inv q'"
  using bq_pop_refines[OF assms] by (auto simp: Pop_def)

theorem Pop_refines_rotation_witness:
  "\<exists>q'. Pop ex_queue = Inr (fst (cyc_pop (bq_rot ex_queue)), q') \<and>
    bq_rot q' = snd (cyc_pop (bq_rot ex_queue)) \<and> bq_inv q'"
  using Pop_refines_rotation[OF ex_queue_inv] .

text \<open>
  (C17) Filling a packet and committing it: from an idle queue, peeking up to \<open>n\<close> messages returns the
  first \<open>n\<close> messages of the rotation, and \<^verbatim>\<open>ApplyPeek\<close> then charges exactly these messages one
  transmission each, in order, and no other; the queue is idle again.
\<close>

theorem peek_then_apply:
  assumes "bq_idle q"
  shows "\<exists>q1 q2. peek_msgs n q = Inr (map (\<lambda>e. fst (snd e)) (take n (bq_rot q)), q1) \<and>
    ApplyPeek q1 = Inr q2 \<and> bq_idle q2 \<and>
    bq_rot q2 = drop n (bq_rot q) @ concat (map countdown (take n (bq_rot q)))"
  using assms by (rule peek_apply_round)

theorem peek_then_apply_witness:
  "\<exists>q1 q2. peek_msgs 2 ex_queue = Inr (map (\<lambda>e. fst (snd e)) (take 2 (bq_rot ex_queue)), q1) \<and>
    ApplyPeek q1 = Inr q2 \<and> bq_idle q2 \<and>
    bq_rot q2 = drop 2 (bq_rot ex_queue) @ concat (map countdown (take 2 (bq_rot ex_queue)))"
  using peek_then_apply[OF ex_queue_idle] .

text \<open>
  Abandoning a packet that is too large loses nothing: after \<^verbatim>\<open>ResetPeek\<close> the queue is the one
  from before the traversal, with the same messages, counters and next message.
\<close>

theorem peek_then_reset:
  assumes "bq_idle q"
  shows "\<exists>xs q1. peek_msgs n q = Inr (xs, q1) \<and> ResetPeek q1 = q"
  using assms by (rule peek_reset_round)

theorem peek_then_reset_witness:
  "\<exists>xs q1. peek_msgs 2 ex_queue = Inr (xs, q1) \<and> ResetPeek q1 = ex_queue"
  using peek_then_reset[OF ex_queue_idle] .

text \<open>
  (C20) Every message is handed out exactly as often as its counter says (at least once), and then leaves
  the queue: \<open>bq_sends q\<close> calls of \<^verbatim>\<open>Pop\<close>, the sum of the counters, empty the queue, and each message
  occurs among the results as often as its own counter.
\<close>

theorem pops_hand_out_counters:
  assumes "bq_inv q"
  shows "\<exists>xs q'. pops (bq_sends q) q = Inr (xs, q') \<and> Distinct q' = 0 \<and>
    (\<forall>k x t. um_find (bq_m q) k = Some (x, t) \<longrightarrow> count_list xs x = nat (max 1 t))"
proof -
  obtain xs q' where q': "pops (bq_sends q) q = Inr (xs, q')" "bq_rot q' = []" "bq_inv q'"
    "\<And>x. count_list xs x = sum_list (map sends (filter (\<lambda>e. fst (snd e) = x) (bq_rot q)))"
    using pops_drain[OF assms refl] by blast
  have rot: "set (bq_rot q) = set (entries (bq_m q))" "distinct (map fst (bq_rot q))"
    using mset_um_rot[of "bq_m q" "bq_cur q"] assms
    by (simp_all add: bq_rot_def bq_inv_def um_wf_def um_keys_def)
      (metis mset_eq_setD, metis mset_eq_imp_distinct_iff mset_map)
  have "count_list xs x = nat (max 1 t)" if "um_find (bq_m q) k = Some (x, t)" for k x t
  proof -
    have names: "fst e = ns_Name (fst (snd e))" if "e \<in> set (bq_rot q)" for e
      using that assms rot(1) by (auto simp: bq_inv_def list_all_iff)
    have "(k, x, t) \<in> set (bq_rot q)" using that assms rot(1) by (simp add: um_find_entry bq_inv_def)
    then obtain r1 r2 where r: "bq_rot q = r1 @ (k, x, t) # r2" by (meson split_list)
    have "fst (snd e) \<noteq> x" if e: "e \<in> set r1 \<union> set r2" for e
    proof
      assume "fst (snd e) = x"
      with names[of e] names[of "(k, x, t)"] e r have "fst e = k" by auto
      with rot(2) r e show False by auto
    qed
    then have "filter (\<lambda>e. fst (snd e) = x) (bq_rot q) = [(k, x, t)]"
      unfolding r by (simp add: filter_empty_conv)
    then show ?thesis by (simp add: q'(4))
  qed
  moreover have "Distinct q' = 0" using q'(2,3) length_bq_rot by (metis Distinct_def list.size(3))
  ultimately show ?thesis using q'(1) by blast
qed

lemma ex_queue_find: "um_find (bq_m ex_queue) ''c'' = Some (ex_msg ''c'' 7 STATE_ALIVE, 6)"
  by code_simp

theorem pops_hand_out_counters_witness:
  "\<exists>xs q'. pops (bq_sends ex_queue) ex_queue = Inr (xs, q') \<and> Distinct q' = 0 \<and>
    count_list xs (ex_msg ''c'' 7 STATE_ALIVE) = 6"
  using pops_hand_out_counters[OF ex_queue_inv] ex_queue_find by force

text \<open>A sequence of \<^verbatim>\<open>Push\<close> calls, each with the node count of its time.\<close>

fun push_all :: "BroadcastQueue \<Rightarrow> (node_state \<times> u32) list \<Rightarrow> BroadcastQueue" where
  "push_all q [] = q"
| "push_all q ((m, n) # ms) = push_all (Push q m n) ms"

definition named :: "string \<Rightarrow> (node_state \<times> u32) list \<Rightarrow> node_state list" where
  "named k ms = filter (\<lambda>m. ns_Name m = k) (map fst ms)"

lemma push_all_inv: "bq_inv q \<Longrightarrow> bq_inv (push_all q ms)"
  by (induction q ms rule: push_all.induct) (simp_all add: Push_inv)

lemma push_all_find:
  assumes "bq_inv q"
  shows "map_option fst (um_find (bq_m (push_all q ms)) k) =
    (case (um_find (bq_m q) k, named k ms) of
       (None, []) \<Rightarrow> None
     | (None, m # xs) \<Rightarrow> Some (foldl msg.keep m xs)
     | (Some (old, _), xs) \<Rightarrow> Some (foldl msg.keep old xs))"
  using assms
proof (induction q ms rule: push_all.induct)
  case (1 q)
  then show ?case by (auto simp: named_def split: option.splits)
next
  case (2 q m n ms)
  let ?q' = "Push q m n"
  have f: "map_option fst (um_find (bq_m ?q') k) =
    (if k = ns_Name m
     then Some (case um_find (bq_m q) k of None \<Rightarrow> m | Some (old, _) \<Rightarrow> msg.keep old m)
     else map_option fst (um_find (bq_m q) k))"
    using "2.prems" by (simp add: Push_find bq_inv_def)
  have IH: "map_option fst (um_find (bq_m (push_all ?q' ms)) k) =
    (case (um_find (bq_m ?q') k, named k ms) of
       (None, []) \<Rightarrow> None
     | (None, m # xs) \<Rightarrow> Some (foldl msg.keep m xs)
     | (Some (old, _), xs) \<Rightarrow> Some (foldl msg.keep old xs))"
    using "2.IH" Push_inv[OF "2.prems"] .
  show ?case
  proof (cases "k = ns_Name m")
    case True
    with f obtain t where "um_find (bq_m ?q') k =
        Some (case um_find (bq_m q) k of None \<Rightarrow> m | Some (old, _) \<Rightarrow> msg.keep old m, t)"
      by auto
    with IH True show ?thesis by (auto simp: named_def split: option.splits)
  next
    case False
    then have "named k ((m, n) # ms) = named k ms" by (simp add: named_def)
    with IH f False show ?thesis by (cases "um_find (bq_m q) k") (auto split: list.splits)
  qed
qed

text \<open>
  The queue keeps the message that takes precedence: after any sequence of \<^verbatim>\<open>Push\<close> calls, the message
  stored for a pushed node name carries that name, and no pushed message about that node
  has a higher dominant, or the same dominant and a worse state.
\<close>

theorem push_all_keeps_newest:
  assumes "bq_inv q" and "(m, n) \<in> set ms"
  shows "\<exists>x t. um_find (bq_m (push_all q ms)) (ns_Name m) = Some (x, t) \<and>
    ns_Name x = ns_Name m \<and> list_all (\<lambda>y. \<not> supersedes y x) (named (ns_Name m) ms)"
proof -
  let ?k = "ns_Name m" and ?q' = "push_all q ms"
  have "m \<in> set (named ?k ms)" using assms(2) by (force simp: named_def)
  then obtain y ys where ys: "named ?k ms = y # ys" by (cases "named ?k ms") auto
  obtain x where x: "map_option fst (um_find (bq_m ?q') ?k) = Some x"
    and best: "\<And>z. z \<in> set (named ?k ms) \<Longrightarrow> \<not> supersedes z x"
  proof (cases "um_find (bq_m q) ?k")
    case None
    with ys that[of "foldl msg.keep y ys"] push_all_find[OF assms(1), of ms ?k]
    show thesis using msg.foldl_keep_not_beaten[of _ y ys] by simp
  next
    case (Some p)
    with ys that[of "foldl msg.keep (fst p) (y # ys)"] push_all_find[OF assms(1), of ms ?k]
    show thesis using msg.foldl_keep_not_beaten[of _ "fst p" "y # ys"] by (auto split: prod.splits)
  qed
  then obtain t where t: "um_find (bq_m ?q') ?k = Some (x, t)" by auto
  moreover have "ns_Name x = ?k"
    using push_all_inv[OF assms(1), of ms] t by (auto simp: bq_inv_def um_find_entry list_all_iff)
  ultimately show ?thesis using best by (auto simp: list_all_iff)
qed

theorem push_all_keeps_newest_witness:
  "\<exists>x t. um_find (bq_m (push_all ex_queue [(ex_msg ''a'' 1 STATE_DEAD, 3), (ex_msg ''a'' 1 STATE_SUSPECT, 3)]))
      (ns_Name (ex_msg ''a'' 1 STATE_DEAD)) = Some (x, t) \<and>
    ns_Name x = ns_Name (ex_msg ''a'' 1 STATE_DEAD) \<and>
    list_all (\<lambda>y. \<not> supersedes y x) (named (ns_Name (ex_msg ''a'' 1 STATE_DEAD))
      [(ex_msg ''a'' 1 STATE_DEAD, 3), (ex_msg ''a'' 1 STATE_SUSPECT, 3)])"
  by (rule push_all_keeps_newest[OF ex_queue_inv, of _ 3]) simp

text \<open>
  The counter of a pushed message is three times the rounded up decimal logarithm of the node count,
  where a count of 0 or 1 is taken as 2; as the count is a 32-bit word, it is between 3 and 30.
\<close>

theorem bcast_times_formula:
  "bcast_times (bq_multi (BroadcastQueue_init ord)) n = 3 * \<lceil>log 10 (max 2 (unat n))\<rceil> \<and>
   3 \<le> bcast_times (bq_multi (BroadcastQueue_init ord)) n \<and>
   bcast_times (bq_multi (BroadcastQueue_init ord)) n \<le> 30"
proof -
  have "int (ceil_log 10 (max 2 (unat n))) = int (nat \<lceil>log (real 10) (real (max 2 (unat n)))\<rceil>)"
    by (subst ceil_log_eq) simp_all
  also have "\<dots> = \<lceil>log 10 (max 2 (unat n))\<rceil>"
  proof -
    have "0 \<le> log 10 (real (max 2 (unat n)))" by (subst zero_le_log_cancel_iff) simp_all
    then have "0 \<le> \<lceil>log 10 (real (max 2 (unat n)))\<rceil>" by linarith
    then show ?thesis by (simp only: nat_0_le of_nat_numeral)
  qed
  finally show ?thesis
    using bcast_times_bounds[of n] by (simp add: BroadcastQueue_init_def bcast_times_eq)
qed

text \<open>
  \<^verbatim>\<open>Pop\<close> invalidates \<^verbatim>\<open>peek_\<close>: the documented discipline (call \<^verbatim>\<open>ResetPeek\<close> before \<^verbatim>\<open>Pop\<close> if \<^verbatim>\<open>Peek\<close>
  was called) does not protect a later \<^verbatim>\<open>Peek\<close>. After a reset in the middle of the queue, popping
  the messages to the end and pushing a new one, \<^verbatim>\<open>Peek\<close> dereferences the iterator of an erased node.
\<close>

theorem Pop_leaves_dangling_peek:
  "\<exists>xs ys q1 q2. bq_idle ex_queue \<and> pops 1 ex_queue = Inr (xs, q1) \<and>
    pops (bq_sends q1) (ResetPeek q1) = Inr (ys, q2) \<and>
    Peek (Push q2 (ex_msg ''d'' 1 STATE_ALIVE) 3) = Inl UseAfterFree"
proof -
  have run: "case pops 1 ex_queue of Inl e \<Rightarrow> False | Inr (xs, q1) \<Rightarrow>
     (case pops (bq_sends q1) (ResetPeek q1) of Inl e \<Rightarrow> False | Inr (ys, q2) \<Rightarrow>
       (case Peek (Push q2 (ex_msg ''d'' 1 STATE_ALIVE) 3) of Inl e \<Rightarrow> e = UseAfterFree | _ \<Rightarrow> False))"
    by code_simp
  then obtain xs q1 where 1: "pops 1 ex_queue = Inr (xs, q1)"
    by (cases "pops 1 ex_queue") auto
  with run obtain ys q2 where 2: "pops (bq_sends q1) (ResetPeek q1) = Inr (ys, q2)"
    by (cases "pops (bq_sends q1) (ResetPeek q1)") auto
  with run 1 have "Peek (Push q2 (ex_msg ''d'' 1 STATE_ALIVE) 3) = Inl UseAfterFree"
    by (cases "Peek (Push q2 (ex_msg ''d'' 1 STATE_ALIVE) 3)") auto
  with 1 2 ex_queue_idle show ?thesis by blast
qed

text \<open>
  (C18) Used in its users' order, the queue is safe and total as long as its table need not grow: any sequence of
  pushes, committed traversals and abandoned traversals on a new queue, with no more different names than the
  table holds without a rehash, runs without touching a dangling iterator and leaves
  \<^verbatim>\<open>peek_\<close> at \<^verbatim>\<open>cur_\<close> with no message peeked, wherever new keys go in the table. Without the bound
  the next property applies, unless the table is one whose iterators survive a rehash.
\<close>

theorem queue_rounds_safe:
  assumes "order_ok ord" and "card (pushed_names ops) \<le> capacity"
  shows "\<exists>s. rfold (strict_step capacity) (strict_new ord) ops = Inr s \<and> sq_valid s \<and> bq_idle (sq_queue s) \<and>
    rfold queue_step (BroadcastQueue_init ord) ops = Inr (sq_queue s)"
proof -
  have "bq_names (BroadcastQueue_init ord) = {}" by (simp add: bq_names_def BroadcastQueue_init_def um_empty_def um_keys_def)
  then show ?thesis using strict_run[of "strict_new ord" ops capacity] bq_inv_init[OF assms(1)] assms(2)
    by (simp add: strict_new_def)
qed

theorem queue_rounds_safe_witness:
  "\<exists>s. rfold (strict_step 2) (strict_new (#)) [Q_push (ex_msg ''a'' 1 STATE_DEAD) 3, Q_abandon 2,
      Q_push (ex_msg ''b'' 1 STATE_ALIVE) 3, Q_send 7, Q_push (ex_msg ''a'' 2 STATE_DEAD) 3] = Inr s \<and> sq_valid s \<and>
    bq_idle (sq_queue s)"
  using queue_rounds_safe[OF order_ok_Cons, of "[Q_push (ex_msg ''a'' 1 STATE_DEAD) 3, Q_abandon 2,
      Q_push (ex_msg ''b'' 1 STATE_ALIVE) 3, Q_send 7, Q_push (ex_msg ''a'' 2 STATE_DEAD) 3]" 2]
  by (simp add: ex_msg_def card_insert_if del: rfold.simps) blast



end
