(* ===== verification/Suspicion.thy ===== *)
theory Suspicion
  imports Node Ceil_Log
begin

text \<open>
  \<^verbatim>\<open>class suspicion\<close> of \<^verbatim>\<open>src/src/suspicion.hpp\<close>: the accusation of a node, with the confirmations seen so far. It
  convicts its node when enough distinct members have confirmed, or when its timer's handler
  runs. The callback \<^verbatim>\<open>convict_\<close> of the only user (\<^verbatim>\<open>gossiper::suspectNode\<close>) captures the accusing
  message by reference; \<open>sus_convict\<close> is the message that reference was bound to. What
  convicting does to the member, and when the timer's handler runs, is part of the
  theory \<open>Gossiper\<close>; \<open>sus_id\<close> names the object, for the handler that refers to it.
\<close>

record suspicion =
  sus_id :: nat
  sus_need_confirm :: u32
  sus_confirm :: u32
  sus_who_confirmed :: "string set"
  sus_convict :: node_state

text \<open>
  \<^verbatim>\<open>need_confirm_(std::ceil(std::log2(node_num)))\<close>: the logarithm of 0 is minus infinity, which
  no \<^verbatim>\<open>uint32_t\<close> represents.
\<close>

definition need_confirm :: "u32 \<Rightarrow> u32 result" where
  "need_confirm node_num =
     (if node_num = 0 then Inl BadConversion else Inr (of_nat (ceil_log 2 (unat node_num))))"

definition suspicion_new :: "nat \<Rightarrow> u32 \<Rightarrow> node_state \<Rightarrow> suspicion result" where
  "suspicion_new i node_num s =
     rbind (need_confirm node_num) (\<lambda>n.
       Inr \<lparr>sus_id = i, sus_need_confirm = n, sus_confirm = 0, sus_who_confirmed = {},
            sus_convict = s\<rparr>)"

text \<open>
  \<^verbatim>\<open>Confirm\<close>: the result says whether the suspicion is convicted, in which case the code cancels the
  timer and calls \<^verbatim>\<open>convict_\<close> before it returns.
\<close>

definition Confirm :: "suspicion \<Rightarrow> string \<Rightarrow> bool \<times> suspicion" where
  "Confirm s from =
     (let s' = (if from \<in> sus_who_confirmed s then s
                else s\<lparr>sus_who_confirmed := insert from (sus_who_confirmed s),
                       sus_confirm := sus_confirm s + 1\<rparr>)
      in (sus_need_confirm s' \<le> sus_confirm s', s'))"

fun confirm_all :: "suspicion \<Rightarrow> string list \<Rightarrow> suspicion" where
  "confirm_all s [] = s"
| "confirm_all s (x # xs) = confirm_all (snd (Confirm s x)) xs"

definition sus_inv :: "suspicion \<Rightarrow> bool" where
  "sus_inv s \<longleftrightarrow> finite (sus_who_confirmed s) \<and> sus_confirm s = of_nat (card (sus_who_confirmed s))"

section \<open>Facts\<close>

lemma sus_inv_new: "suspicion_new i n m = Inr s \<Longrightarrow> sus_inv s"
  by (auto simp: suspicion_new_def sus_inv_def rbind_Inr_iff)

lemma sus_inv_Confirm: "sus_inv s \<Longrightarrow> sus_inv (snd (Confirm s x))"
  by (auto simp: sus_inv_def Confirm_def Let_def)

lemma Confirm_frame [simp]:
  "sus_need_confirm (snd (Confirm s x)) = sus_need_confirm s"
  "sus_convict (snd (Confirm s x)) = sus_convict s"
  "sus_id (snd (Confirm s x)) = sus_id s"
  by (simp_all add: Confirm_def Let_def)

lemma Confirm_who: "sus_who_confirmed (snd (Confirm s x)) = insert x (sus_who_confirmed s)"
  by (auto simp: Confirm_def Let_def)

lemma Confirm_result:
  "fst (Confirm s x) \<longleftrightarrow> sus_need_confirm s \<le> sus_confirm (snd (Confirm s x))"
  by (simp add: Confirm_def Let_def)

lemma confirm_all_inv: "sus_inv s \<Longrightarrow> sus_inv (confirm_all s xs)"
  by (induction xs arbitrary: s) (simp_all add: sus_inv_Confirm)

lemma confirm_all_frame:
  "sus_need_confirm (confirm_all s xs) = sus_need_confirm s"
  "sus_who_confirmed (confirm_all s xs) = set xs \<union> sus_who_confirmed s"
  by (induction xs arbitrary: s) (auto simp: Confirm_who)

lemma need_confirm_bound:
  assumes "need_confirm n = Inr c"
  shows "unat c = ceil_log 2 (unat n)" "unat c \<le> 32"
proof -
  have c: "c = of_nat (ceil_log 2 (unat n))" and "n \<noteq> 0"
    using assms by (auto simp: need_confirm_def split: if_splits)
  have "unat n < 2 ^ 32" using unsigned_less[of n] by simp
  then have "ceil_log 2 (unat n) \<le> 32" by (subst ceil_log_le_iff) (simp_all add: less_imp_le)
  then show "unat c = ceil_log 2 (unat n)" "unat c \<le> 32"
    by (simp_all add: c unat_of_nat)
qed

section \<open>Properties\<close>

text \<open>
  (C28) A suspicion raised among \<open>n > 0\<close> nodes convicts on a confirmation exactly when the distinct members
  that confirmed, this one included, are at least \<open>\<lceil>log2 n\<rceil>\<close>: repeated confirmations by one member count
  once. The member that holds the last of fewer than \<open>2 ^ 32\<close> confirmations decides.
\<close>

theorem Confirm_convicts_iff:
  assumes "suspicion_new i n m = Inr s" and "card (set (froms @ [x])) < 2 ^ 32"
  shows "fst (Confirm (confirm_all s froms) x) \<longleftrightarrow>
    \<lceil>log 2 (unat n)\<rceil> \<le> int (card (set (froms @ [x])))"
proof -
  obtain c where c: "need_confirm n = Inr c" and n0: "n \<noteq> 0"
    and s: "sus_need_confirm s = c" "sus_who_confirmed s = {}"
    using assms(1) by (auto simp: suspicion_new_def rbind_Inr_iff need_confirm_def split: if_splits)
  let ?t = "snd (Confirm (confirm_all s froms) x)"
  have "sus_inv ?t" using sus_inv_new[OF assms(1)] by (intro sus_inv_Confirm confirm_all_inv)
  moreover have "sus_who_confirmed ?t = set (froms @ [x])"
    using s(2) by (auto simp: Confirm_who confirm_all_frame)
  ultimately have "unat (sus_confirm ?t) = card (set (froms @ [x]))"
    using assms(2) by (simp add: sus_inv_def unat_of_nat)
  moreover have "fst (Confirm (confirm_all s froms) x) \<longleftrightarrow> unat c \<le> unat (sus_confirm ?t)"
    using s(1) by (simp add: Confirm_result confirm_all_frame word_le_nat_alt)
  moreover have "int (unat c) = \<lceil>log 2 (unat n)\<rceil>"
  proof -
    define k where "k = unat n"
    have "0 < k" using n0 by (simp add: k_def unat_gt_0)
    then have "0 \<le> log 2 (real k)" by (subst zero_le_log_cancel_iff) simp_all
    then have "0 \<le> \<lceil>log 2 (real k)\<rceil>" by linarith
    then show ?thesis
      using need_confirm_bound(1)[OF c] ceil_log_eq[of 2 k] \<open>0 < k\<close> by (simp flip: k_def)
  qed
  ultimately show ?thesis by linarith
qed

text \<open>A suspicion among five nodes.\<close>

definition ex_suspicion :: suspicion where
  "ex_suspicion = \<lparr>sus_id = 0, sus_need_confirm = 3, sus_confirm = 0, sus_who_confirmed = {},
     sus_convict = \<lparr>ns_Name = ''b'', ns_IP = [], ns_Port = ''1'', ns_Dominant = 4,
       ns_State = STATE_SUSPECT, ns_From = [], ns_Timestamp = 0\<rparr>\<rparr>"

theorem Confirm_convicts_iff_witness:
  "fst (Confirm (confirm_all ex_suspicion [''a'', ''c'', ''a'']) ''d'') \<longleftrightarrow>
    \<lceil>log 2 (unat (5 :: u32))\<rceil> \<le> int (card (set ([''a'', ''c'', ''a''] @ [''d''])))"
proof (rule Confirm_convicts_iff)
  have "ceil_log 2 5 = 3" by (simp add: ceil_log.simps)
  then show "suspicion_new 0 5 (sus_convict ex_suspicion) = Inr ex_suspicion"
    by (simp add: suspicion_new_def need_confirm_def ex_suspicion_def)
  show "card (set ([''a'', ''c'', ''a''] @ [''d''])) < 2 ^ 32"
    by (rule le_less_trans[OF card_length]) simp
qed

end
