(* ===== verification/Gossiper.thy ===== *)
theory Gossiper
  imports Config Broadcast Suspicion
begin

text \<open>
  The membership state machine of \<^verbatim>\<open>class gossiper\<close>, \<^verbatim>\<open>src/src/gossiper.hpp\<close>: the node table, the
  handlers of ALIVE, SUSPECT and DEAD messages, objections, probing order and merging. A
  handler maps the state to the next state, or to a fault. The mutexes are left out: a handler is
  one step, as it is when the handlers run on one thread (\<^verbatim>\<open>THREAD_NUM\<close> 1).

  The pointers of \<^verbatim>\<open>node_map_\<close> own their targets and no handler keeps one, so the table maps names to
  values. Five fields have no counterpart in the class and record what the code leaves to the outside:
  \<^item> \<open>g_events\<close>: the calls of \<^verbatim>\<open>notify_join_\<close> and \<^verbatim>\<open>notify_leave_\<close>, oldest first;
  \<^item> \<open>g_waits\<close> and \<open>g_next_id\<close>: the pending timer handlers of suspicion objects, by object;
  \<^item> \<open>g_indet\<close>: the value of an uninitialised \<^verbatim>\<open>Timestamp_\<close>;
  \<^item> \<open>g_reread\<close>: what the reference that \<^verbatim>\<open>suspectNode\<close> captures in a suspicion's callback reads when the
    callback runs, given the message it was bound to. The message's lifetime has ended by then,
    so nothing is assumed of this function; the identity is the case of intact storage.
\<close>

section \<open>State\<close>

datatype event = Joined string | Left string

record gossiper =
  g_conf :: config
  g_seq_num :: u64
  g_dominant :: u64
  g_is_leaving :: bool
  g_node_map :: "(string, node_state) umap"
  g_nodes :: "string list"
  g_node_num :: u32
  g_suspicions :: "(string, suspicion) umap"
  g_bc_queue :: BroadcastQueue
  g_MAX_APPENDED_MSG :: nat
  g_notify_join :: bool
  g_notify_leave :: bool
  g_cursor :: nat
  g_events :: "event list"
  g_waits :: "nat list"
  g_next_id :: nat
  g_indet :: u64
  g_reread :: "node_state \<Rightarrow> node_state"

abbreviation g_name :: "gossiper \<Rightarrow> string" where
  "g_name g \<equiv> conf_Name (g_conf g)"

text \<open>The constructor. \<open>ord\<close>, \<open>indet\<close> and \<open>reread\<close> fix what the code leaves open.\<close>

definition gossiper_new ::
  "config \<Rightarrow> (string \<Rightarrow> string list \<Rightarrow> string list) \<Rightarrow> u64 \<Rightarrow> (node_state \<Rightarrow> node_state) \<Rightarrow> gossiper" where
  "gossiper_new conf ord indet reread =
     \<lparr>g_conf = conf, g_seq_num = 0, g_dominant = 0, g_is_leaving = False,
      g_node_map = um_empty ord, g_nodes = [], g_node_num = 0, g_suspicions = um_empty ord,
      g_bc_queue = BroadcastQueue_init ord, g_MAX_APPENDED_MSG = 10,
      g_notify_join = False, g_notify_leave = False, g_cursor = 0,
      g_events = [], g_waits = [], g_next_id = 0, g_indet = indet, g_reread = reread\<rparr>"

text \<open>\<^verbatim>\<open>RegisterNotifier\<close>: the arguments say whether each callback is set.\<close>

definition RegisterNotifier :: "gossiper \<Rightarrow> bool \<Rightarrow> bool \<Rightarrow> gossiper" where
  "RegisterNotifier g join leave = g\<lparr>g_notify_join := join, g_notify_leave := leave\<rparr>"

definition GetAliveNodes :: "gossiper \<Rightarrow> string list" where
  "GetAliveNodes g = g_nodes g"

section \<open>Counters and the node table\<close>

definition nextDominant :: "gossiper \<Rightarrow> u64 \<Rightarrow> u64 \<times> gossiper" where
  "nextDominant g shift = (g_dominant g + shift, g\<lparr>g_dominant := g_dominant g + shift\<rparr>)"

definition nextSeqNum :: "gossiper \<Rightarrow> u64 \<times> gossiper" where
  "nextSeqNum g = (g_seq_num g + 1, g\<lparr>g_seq_num := g_seq_num g + 1\<rparr>)"

definition getNodeState :: "gossiper \<Rightarrow> string \<Rightarrow> node_state option" where
  "getNodeState g name = um_find (g_node_map g) name"

text \<open>
  \<^verbatim>\<open>node_map_[name]\<close> of an unknown name inserts a null pointer, which the next line dereferences.
\<close>

definition updateNodeState :: "gossiper \<Rightarrow> string \<Rightarrow> node_state \<Rightarrow> gossiper result" where
  "updateNodeState g name from =
     (case um_find (g_node_map g) name of
        None \<Rightarrow> Inl NullDeref
      | Some _ \<Rightarrow> Inr (g\<lparr>g_node_map := um_set (g_node_map g) name (from\<lparr>ns_Timestamp := 0\<rparr>)\<rparr>))"

definition addNodeState :: "gossiper \<Rightarrow> string \<Rightarrow> node_state \<Rightarrow> gossiper" where
  "addNodeState g name state =
     g\<lparr>g_node_map := um_set (g_node_map g) name state,
       g_nodes := g_nodes g @ [name],
       g_node_num := g_node_num g + 1\<rparr>"

text \<open>The loop of \<^verbatim>\<open>removeNodeState\<close>: the first index from \<open>i\<close> on that holds the name.\<close>

fun index_of :: "string \<Rightarrow> string list \<Rightarrow> nat \<Rightarrow> nat option" where
  "index_of name [] i = None"
| "index_of name (x # xs) i = (if x = name then Some i else index_of name xs (Suc i))"

definition swap_pop :: "string list \<Rightarrow> nat \<Rightarrow> string list" where
  "swap_pop nodes i =
     (let num = length nodes
      in butlast (nodes[i := nodes ! (num - 1), num - 1 := nodes ! i]))"

definition removeNodeState :: "gossiper \<Rightarrow> string \<Rightarrow> gossiper" where
  "removeNodeState g name =
     (case index_of name (g_nodes g) 0 of
        None \<Rightarrow> g
      | Some i \<Rightarrow> g\<lparr>g_nodes := swap_pop (g_nodes g) i, g_node_num := g_node_num g - 1\<rparr>)"

definition getSuspicion :: "gossiper \<Rightarrow> string \<Rightarrow> suspicion option" where
  "getSuspicion g name = um_find (g_suspicions g) name"

text \<open>\<^verbatim>\<open>bc_queue_.Push(msg, node_num_)\<close>.\<close>

definition push_bc :: "gossiper \<Rightarrow> node_state \<Rightarrow> gossiper" where
  "push_bc g msg = g\<lparr>g_bc_queue := Push (g_bc_queue g) msg (g_node_num g)\<rparr>"

section \<open>Handlers of membership messages\<close>

definition fuckyou :: "gossiper \<Rightarrow> u64 \<Rightarrow> gossiper" where
  "fuckyou g dominant =
     (let (d, g1) = nextDominant g 1;
          (d', g2) = (if d \<le> dominant then nextDominant g1 (dominant - d + 1) else (d, g1));
          alive = \<lparr>ns_Name = g_name g, ns_IP = conf_Addr (g_conf g),
                   ns_Port = port_string (conf_Port (g_conf g)), ns_Dominant = d',
                   ns_State = STATE_ALIVE, ns_From = [], ns_Timestamp = g_indet g\<rparr>
      in push_bc g2 alive)"

definition aliveNode :: "gossiper \<Rightarrow> node_state \<Rightarrow> bool \<Rightarrow> gossiper result" where
  "aliveNode g a need_bc =
     (if g_is_leaving g \<and> ns_Name a = g_name g then Inr g
      else
        let name = ns_Name a;
            state = (case getNodeState g name of
                       None \<Rightarrow> a\<lparr>ns_Dominant := 0, ns_State := STATE_DEAD\<rparr>
                     | Some st \<Rightarrow> st)
        in if ns_Dominant a \<le> ns_Dominant state then Inr g
           else
             let need_notify = (ns_State state = STATE_DEAD);
                 g1 = (if need_notify then addNodeState g name state else g)
             in rbind (updateNodeState g1 name a) (\<lambda>g2.
                  let g3 = g2\<lparr>g_suspicions := um_erase (g_suspicions g2) name\<rparr>;
                      g4 = (if need_bc then push_bc g3 a else g3);
                      g5 = (if name = g_name g then g4\<lparr>g_dominant := ns_Dominant a\<rparr> else g4);
                      g6 = (if need_notify \<and> name \<noteq> g_name g \<and> g_notify_join g
                            then g5\<lparr>g_events := g_events g5 @ [Joined name]\<rparr> else g5)
                  in Inr g6))"

definition deadNode :: "gossiper \<Rightarrow> node_state \<Rightarrow> gossiper result" where
  "deadNode g d =
     (let name = ns_Name d
      in case getNodeState g name of
           None \<Rightarrow> Inr g
         | Some state \<Rightarrow>
             if ns_Dominant d < ns_Dominant state then Inr g
             else
               let g1 = g\<lparr>g_suspicions := um_erase (g_suspicions g) name,
                          g_node_num := g_node_num g - 1\<rparr>
               in if ns_State state = STATE_DEAD then Inr g1
                  else if name = g_name g \<and> \<not> g_is_leaving g then Inr (fuckyou g1 (ns_Dominant d))
                  else
                    rbind (updateNodeState g1 name d) (\<lambda>g2.
                      let g3 = removeNodeState g2 name;
                          g4 = push_bc g3 d;
                          g5 = (if name \<noteq> g_name g \<and> g_notify_leave g
                                then g4\<lparr>g_events := g_events g4 @ [Left name]\<rparr> else g4)
                      in Inr g5))"

text \<open>The callback of a suspicion, \<^verbatim>\<open>convict\<close> in \<^verbatim>\<open>suspectNode\<close>.\<close>

definition convict :: "gossiper \<Rightarrow> suspicion \<Rightarrow> gossiper result" where
  "convict g sus = deadNode g ((g_reread g (sus_convict sus))\<lparr>ns_State := STATE_DEAD\<rparr>)"

definition suspectNode :: "gossiper \<Rightarrow> node_state \<Rightarrow> gossiper result" where
  "suspectNode g s =
     (let name = ns_Name s
      in case getNodeState g name of
           None \<Rightarrow> Inr g
         | Some state \<Rightarrow>
             if ns_Dominant s < ns_Dominant state then Inr g
             else (case getSuspicion g name of
                     Some sus \<Rightarrow>
                       let (convicted, sus') = Confirm sus (ns_From s);
                           g1 = g\<lparr>g_suspicions := um_set (g_suspicions g) name sus'\<rparr>
                       in if convicted then convict g1 sus' else Inr (push_bc g1 s)
                   | None \<Rightarrow>
                       if ns_State state \<noteq> STATE_ALIVE then Inr g
                       else
                         let g1 = (if g_name g = name then fuckyou g (ns_Dominant s) else push_bc g s)
                         in rbind (updateNodeState g1 name s) (\<lambda>g2.
                            rbind (suspicion_new (g_next_id g2) (g_node_num g2) s) (\<lambda>sus.
                              Inr (g2\<lparr>g_suspicions := um_set (g_suspicions g2) name sus,
                                     g_waits := g_waits g2 @ [g_next_id g2],
                                     g_next_id := Suc (g_next_id g2)\<rparr>)))))"

text \<open>
  The handler a suspicion gives to \<^verbatim>\<open>async_wait\<close>. It ignores the error code, so it runs the callback
  when the timer expires and also when it was cancelled, and it reaches the callback through
  \<^verbatim>\<open>this\<close>: the object must still exist, that is, be held by \<^verbatim>\<open>suspicions_\<close>.
\<close>

definition timer_handler :: "gossiper \<Rightarrow> nat \<Rightarrow> gossiper result" where
  "timer_handler g i =
     (let g1 = g\<lparr>g_waits := remove1 i (g_waits g)\<rparr>
      in case find (\<lambda>e. sus_id (snd e) = i) (entries (g_suspicions g)) of
           None \<Rightarrow> Inl UseAfterFree
         | Some (_, sus) \<Rightarrow> convict g1 sus)"

section \<open>Merging received states\<close>

text \<open>
  \<^verbatim>\<open>convert\<close> dereferences every string and table of the message. It returns a reference to its local result, which
  \<^verbatim>\<open>mergeStates\<close> binds and reads after the local is destroyed: \<open>moved st\<close> is what the dead variable that held \<open>st\<close> reads
  as then, \<open>moved = id\<close> when nothing has reused its memory.
\<close>

definition convert :: "fb_NodeState \<Rightarrow> node_state result" where
  "convert from =
     rbind (of_option NullDeref (fs_node from)) (\<lambda>node.
     rbind (of_option NullDeref (fn_name node)) (\<lambda>name.
     rbind (of_option NullDeref (fn_ip node)) (\<lambda>ip.
     rbind (of_option NullDeref (fs_from from)) (\<lambda>frm.
       Inr \<lparr>ns_Name = name, ns_IP = ip, ns_Port = port_string (fn_port node),
            ns_Dominant = fs_dominant from, ns_State = fs_state from, ns_From = frm,
            ns_Timestamp = fs_timeStamp from\<rparr>))))"

text \<open>The other \<^verbatim>\<open>convert\<close> assigns the fields of \<open>to\<close> one by one; it comes to the same.\<close>

definition convert_to :: "node_state \<Rightarrow> fb_NodeState \<Rightarrow> node_state result" where
  "convert_to to from =
     rbind (rbind (of_option NullDeref (fs_node from)) (\<lambda>node. of_option NullDeref (fn_name node))) (\<lambda>name.
       let to = to\<lparr>ns_Name := name\<rparr> in
     rbind (rbind (of_option NullDeref (fs_node from)) (\<lambda>node. of_option NullDeref (fn_ip node))) (\<lambda>ip.
       let to = to\<lparr>ns_IP := ip\<rparr> in
     rbind (of_option NullDeref (fs_node from)) (\<lambda>node.
       let to = to\<lparr>ns_Port := port_string (fn_port node)\<rparr>;
           to = to\<lparr>ns_Dominant := fs_dominant from\<rparr>;
           to = to\<lparr>ns_State := fs_state from\<rparr> in
     rbind (of_option NullDeref (fs_from from)) (\<lambda>frm.
       let to = to\<lparr>ns_From := frm\<rparr> in
       Inr (to\<lparr>ns_Timestamp := fs_timeStamp from\<rparr>)))))"

lemma convert_to_convert: "convert_to to from = convert from"
  by (auto simp: convert_to_def convert_def of_option_def Let_def rbind_def split: option.split)

definition merge_state :: "gossiper \<Rightarrow> bool \<Rightarrow> node_state \<Rightarrow> gossiper result" where
  "merge_state g need_bc state =
     (case ns_State state of
        STATE_ALIVE \<Rightarrow> aliveNode g state need_bc
      | STATE_SUSPECT \<Rightarrow> suspectNode g state
      | STATE_DEAD \<Rightarrow> deadNode g state
      | STATE_OTHER _ \<Rightarrow> Inr g)"

definition mergeStates :: "(node_state \<Rightarrow> node_state) \<Rightarrow> gossiper \<Rightarrow> fb_NodeStates \<Rightarrow> bool \<Rightarrow> gossiper result" where
  "mergeStates moved g remote_states need_bc =
     rbind (of_option NullDeref (fss_nodes remote_states)) (\<lambda>nss.
       rfold (\<lambda>g ns. rbind (convert ns) (\<lambda>st. merge_state g need_bc (moved st))) g nss)"

section \<open>Probing\<close>

definition roundrobinNode :: "gossiper \<Rightarrow> nat \<Rightarrow> string list \<times> gossiper" where
  "roundrobinNode g num =
     (let size = length (g_nodes g)
      in if size \<le> num then (g_nodes g, g)
         else (map (\<lambda>i. g_nodes g ! ((g_cursor g + i) mod size)) [0..<num],
               g\<lparr>g_cursor := (g_cursor g + num) mod size\<rparr>))"

text \<open>\<^verbatim>\<open>probe\<close>, up to the decision which node to ping, if any.\<close>

definition probe :: "gossiper \<Rightarrow> (node_state option \<times> gossiper) result" where
  "probe g =
     (let (candi, g1) = roundrobinNode g 1
      in case candi of
           [] \<Rightarrow> Inl OutOfBounds
         | c # _ \<Rightarrow>
             rbind (of_option NullDeref (getNodeState g1 c)) (\<lambda>node.
               Inr (if ns_State node = STATE_ALIVE \<and> ns_Name node \<noteq> g_name g1 then Some node else None,
                    g1)))"

text \<open>\<^verbatim>\<open>shrinkMaxAppendedMsg\<close>.\<close>

definition shrinkMaxAppendedMsg :: "gossiper \<Rightarrow> gossiper" where
  "shrinkMaxAppendedMsg g =
     (if g_MAX_APPENDED_MSG g = 1 then g
      else g\<lparr>g_MAX_APPENDED_MSG := g_MAX_APPENDED_MSG g div 2\<rparr>)"

text \<open>The first half of \<^verbatim>\<open>Join\<close>: the member's own entry.\<close>

definition self_state :: "gossiper \<Rightarrow> u64 \<Rightarrow> node_state" where
  "self_state g d =
     \<lparr>ns_Name = g_name g, ns_IP = conf_Addr (g_conf g), ns_Port = port_string (conf_Port (g_conf g)),
      ns_Dominant = d, ns_State = STATE_ALIVE, ns_From = [], ns_Timestamp = g_indet g\<rparr>"

definition join_self :: "gossiper \<Rightarrow> gossiper result" where
  "join_self g = (let (d, g1) = nextDominant g 1 in aliveNode g1 (self_state g1 d) False)"

end
