(* ===== verification/Gossiper_Inv.thy ===== *)
theory Gossiper_Inv
  imports Gossiper
begin

text \<open>
  The invariant of the membership state machine and what the handlers keep of it: the table is
  well formed and keyed by node name, \<^verbatim>\<open>nodes_\<close> lists exactly the nodes that are not dead, without
  repetition, and the broadcast queue is idle between handlers. The two accepting cases of each
  handler are summarised as an update of the table (\<open>aliveNode_cases\<close>, \<open>deadNode_cases\<close>,
  \<open>suspectNode_cases\<close>), on which the invariants and the progress relation rest.
\<close>

section \<open>The invariant\<close>

abbreviation g_find :: "gossiper \<Rightarrow> string \<Rightarrow> node_state option" where
  "g_find g \<equiv> um_find (g_node_map g)"

definition alive_names :: "(string, node_state) umap \<Rightarrow> string set" where
  "alive_names m = {n. \<exists>st. um_find m n = Some st \<and> ns_State st \<noteq> STATE_DEAD}"

definition proper_state :: "STATE \<Rightarrow> bool" where
  "proper_state st \<longleftrightarrow> st \<in> {STATE_ALIVE, STATE_SUSPECT, STATE_DEAD}"

definition g_inv :: "gossiper \<Rightarrow> bool" where
  "g_inv g \<longleftrightarrow> um_wf (g_node_map g) \<and> um_wf (g_suspicions g) \<and>
     bq_idle (g_bc_queue g) \<and> bq_multi (g_bc_queue g) = 3 \<and>
     (\<forall>n st. g_find g n = Some st \<longrightarrow> ns_Name st = n \<and> proper_state (ns_State st)) \<and>
     distinct (g_nodes g) \<and> set (g_nodes g) = alive_names (g_node_map g)"

section \<open>Removing a name from the node list\<close>

lemma index_of_None: "index_of n xs i = None \<longleftrightarrow> n \<notin> set xs"
  by (induction xs arbitrary: i) auto

lemma index_of_Some: "index_of n xs i = Some j \<Longrightarrow> i \<le> j \<and> j < i + length xs \<and> xs ! (j - i) = n"
proof (induction xs arbitrary: i)
  case (Cons x xs)
  show ?case
  proof (cases "x = n")
    case False
    with Cons.prems have "index_of n xs (Suc i) = Some j" by simp
    from Cons.IH[OF this] show ?thesis by (auto simp: nth_Cons' Suc_diff_Suc)
  qed (use Cons.prems in simp)
qed simp

lemma mset_swap_pop:
  assumes "i < length xs"
  shows "mset xs = add_mset (xs ! i) (mset (swap_pop xs i))"
proof -
  let ?l = "length xs - 1"
  let ?ys = "xs[i := xs ! ?l, ?l := xs ! i]"
  have ne: "?ys \<noteq> []" and l: "?l < length xs" using assms by auto
  have "last ?ys = xs ! i" using l ne by (simp add: last_conv_nth)
  then have "?ys = butlast ?ys @ [xs ! i]" using ne by (metis append_butlast_last_id)
  then have "mset ?ys = add_mset (xs ! i) (mset (butlast ?ys))"
    by (metis add_mset_add_single mset.simps(1) mset.simps(2) mset_append)
  moreover have "mset ?ys = mset xs"
    using mset_swap[OF l assms] by simp
  ultimately show ?thesis by (simp add: swap_pop_def Let_def)
qed

lemma removeNodeState_nodes:
  assumes "distinct (g_nodes g)"
  shows "distinct (g_nodes (removeNodeState g n))"
    and "set (g_nodes (removeNodeState g n)) = set (g_nodes g) - {n}"
proof -
  have "distinct (g_nodes (removeNodeState g n)) \<and> set (g_nodes (removeNodeState g n)) = set (g_nodes g) - {n}"
  proof (cases "index_of n (g_nodes g) 0")
    case None
    then have "n \<notin> set (g_nodes g)" by (simp add: index_of_None)
    with None show ?thesis using assms by (simp add: removeNodeState_def)
  next
    case (Some i)
    with index_of_Some[OF Some] have i: "i < length (g_nodes g)" "g_nodes g ! i = n" by auto
    let ?r = "swap_pop (g_nodes g) i"
    have m: "mset (g_nodes g) = mset (n # ?r)" using mset_swap_pop[OF i(1)] i(2) by simp
    then have "distinct (n # ?r)" using assms by (metis mset_eq_imp_distinct_iff)
    moreover have "set (g_nodes g) = insert n (set ?r)" using m by (metis list.simps(15) mset_eq_setD)
    ultimately show ?thesis using Some by (auto simp: removeNodeState_def)
  qed
  then show "distinct (g_nodes (removeNodeState g n))"
    and "set (g_nodes (removeNodeState g n)) = set (g_nodes g) - {n}" by auto
qed

lemma removeNodeState_frame [simp]:
  "g_node_map (removeNodeState g n) = g_node_map g" "g_suspicions (removeNodeState g n) = g_suspicions g"
  "g_bc_queue (removeNodeState g n) = g_bc_queue g" "g_conf (removeNodeState g n) = g_conf g"
  "g_events (removeNodeState g n) = g_events g" "g_dominant (removeNodeState g n) = g_dominant g"
  "g_is_leaving (removeNodeState g n) = g_is_leaving g" "g_reread (removeNodeState g n) = g_reread g"
  "g_notify_join (removeNodeState g n) = g_notify_join g"
  "g_notify_leave (removeNodeState g n) = g_notify_leave g"
  "g_waits (removeNodeState g n) = g_waits g" "g_next_id (removeNodeState g n) = g_next_id g"
  by (simp_all add: removeNodeState_def split: option.splits)

section \<open>Objections and broadcasts leave the table alone\<close>

lemma push_bc_frame [simp]:
  "g_node_map (push_bc g m) = g_node_map g" "g_suspicions (push_bc g m) = g_suspicions g"
  "g_nodes (push_bc g m) = g_nodes g" "g_conf (push_bc g m) = g_conf g"
  "g_events (push_bc g m) = g_events g" "g_dominant (push_bc g m) = g_dominant g"
  "g_node_num (push_bc g m) = g_node_num g" "g_is_leaving (push_bc g m) = g_is_leaving g"
  "g_notify_join (push_bc g m) = g_notify_join g" "g_notify_leave (push_bc g m) = g_notify_leave g"
  "g_waits (push_bc g m) = g_waits g" "g_next_id (push_bc g m) = g_next_id g"
  "g_reread (push_bc g m) = g_reread g"
  "bq_multi (g_bc_queue (push_bc g m)) = bq_multi (g_bc_queue g)"
  by (simp_all add: push_bc_def)

lemma push_bc_idle: "bq_idle (g_bc_queue g) \<Longrightarrow> bq_idle (g_bc_queue (push_bc g m))"
  by (simp add: push_bc_def Push_idle)

text \<open>The dominant an objection to \<open>dominant\<close> takes.\<close>

definition objection :: "gossiper \<Rightarrow> u64 \<Rightarrow> u64" where
  "objection g dominant = (if g_dominant g + 1 \<le> dominant then dominant + 1 else g_dominant g + 1)"

lemma fuckyou_eq:
  "fuckyou g dominant =
     push_bc (g\<lparr>g_dominant := objection g dominant\<rparr>) (self_state g (objection g dominant))"
  by (simp add: fuckyou_def nextDominant_def objection_def self_state_def Let_def add.commute)

lemma fuckyou_frame [simp]:
  "g_node_map (fuckyou g d) = g_node_map g" "g_suspicions (fuckyou g d) = g_suspicions g"
  "g_nodes (fuckyou g d) = g_nodes g" "g_conf (fuckyou g d) = g_conf g"
  "g_events (fuckyou g d) = g_events g" "g_node_num (fuckyou g d) = g_node_num g"
  "g_is_leaving (fuckyou g d) = g_is_leaving g" "g_dominant (fuckyou g d) = objection g d"
  "g_notify_join (fuckyou g d) = g_notify_join g" "g_notify_leave (fuckyou g d) = g_notify_leave g"
  "g_waits (fuckyou g d) = g_waits g" "g_next_id (fuckyou g d) = g_next_id g"
  "g_reread (fuckyou g d) = g_reread g"
  "bq_multi (g_bc_queue (fuckyou g d)) = bq_multi (g_bc_queue g)"
  by (simp_all add: fuckyou_eq)

lemma fuckyou_idle: "bq_idle (g_bc_queue g) \<Longrightarrow> bq_idle (g_bc_queue (fuckyou g d))"
  by (simp add: fuckyou_eq push_bc_idle)

lemma updateNodeState_known:
  "g_find g n = Some st \<Longrightarrow>
   updateNodeState g n m = Inr (g\<lparr>g_node_map := um_set (g_node_map g) n (m\<lparr>ns_Timestamp := 0\<rparr>)\<rparr>)"
  by (simp add: updateNodeState_def)

section \<open>What the handlers do\<close>

text \<open>
  When a message about a node is accepted. An ALIVE message needs a higher dominant than the
  stored state, or a positive one for an unknown node; the others need a known node and at
  least its dominant.
\<close>

definition known_dominant :: "gossiper \<Rightarrow> string \<Rightarrow> u64" where
  "known_dominant g n = (case g_find g n of None \<Rightarrow> 0 | Some st \<Rightarrow> ns_Dominant st)"

definition known_dead :: "gossiper \<Rightarrow> string \<Rightarrow> bool" where
  "known_dead g n = (case g_find g n of None \<Rightarrow> True | Some st \<Rightarrow> ns_State st = STATE_DEAD)"

definition alive_accepts :: "gossiper \<Rightarrow> node_state \<Rightarrow> bool" where
  "alive_accepts g a \<longleftrightarrow> \<not> (g_is_leaving g \<and> ns_Name a = g_name g) \<and>
     known_dominant g (ns_Name a) < ns_Dominant a"

text \<open>The state after an accepted ALIVE message.\<close>

definition alive_result :: "gossiper \<Rightarrow> node_state \<Rightarrow> bool \<Rightarrow> gossiper" where
  "alive_result g a need_bc =
     (let name = ns_Name a; new = known_dead g name;
          base = (case g_find g name of
                    None \<Rightarrow> a\<lparr>ns_Dominant := 0, ns_State := STATE_DEAD\<rparr> | Some st \<Rightarrow> st);
          g1 = (if new then addNodeState g name base else g);
          g3 = g1\<lparr>g_node_map := um_set (g_node_map g1) name (a\<lparr>ns_Timestamp := 0\<rparr>),
                  g_suspicions := um_erase (g_suspicions g) name\<rparr>;
          g4 = (if need_bc then push_bc g3 a else g3);
          g5 = (if name = g_name g then g4\<lparr>g_dominant := ns_Dominant a\<rparr> else g4)
      in if new \<and> name \<noteq> g_name g \<and> g_notify_join g
         then g5\<lparr>g_events := g_events g5 @ [Joined name]\<rparr> else g5)"

lemma aliveNode_cases:
  assumes "um_wf (g_node_map g)"
  shows "aliveNode g a need_bc = Inr (if alive_accepts g a then alive_result g a need_bc else g)"
proof -
  let ?n = "ns_Name a"
  let ?base = "case g_find g ?n of None \<Rightarrow> a\<lparr>ns_Dominant := 0, ns_State := STATE_DEAD\<rparr> | Some st \<Rightarrow> st"
  let ?g1 = "if known_dead g ?n then addNodeState g ?n ?base else g"
  have dead: "ns_State ?base = STATE_DEAD \<longleftrightarrow> known_dead g ?n"
    and dom: "ns_Dominant ?base = known_dominant g ?n"
    by (simp_all add: known_dead_def known_dominant_def split: option.splits)
  have "\<exists>st. g_find ?g1 ?n = Some st"
    using assms by (auto simp: addNodeState_def um.find_put known_dead_def split: option.splits)
  then have upd: "updateNodeState ?g1 ?n a =
      Inr (?g1\<lparr>g_node_map := um_set (g_node_map ?g1) ?n (a\<lparr>ns_Timestamp := 0\<rparr>)\<rparr>)"
    using updateNodeState_known by blast
  show ?thesis
    unfolding aliveNode_def getNodeState_def alive_result_def alive_accepts_def Let_def dead dom upd
    by (simp add: addNodeState_def not_le)
qed

text \<open>What every DEAD message about a known node that is not outdated does first.\<close>

definition dead_base :: "gossiper \<Rightarrow> string \<Rightarrow> gossiper" where
  "dead_base g n = g\<lparr>g_suspicions := um_erase (g_suspicions g) n, g_node_num := g_node_num g - 1\<rparr>"

definition dead_result :: "gossiper \<Rightarrow> node_state \<Rightarrow> gossiper" where
  "dead_result g d =
     (let name = ns_Name d; g1 = dead_base g name;
          g2 = g1\<lparr>g_node_map := um_set (g_node_map g) name (d\<lparr>ns_Timestamp := 0\<rparr>)\<rparr>;
          g4 = push_bc (removeNodeState g2 name) d
      in if name \<noteq> g_name g \<and> g_notify_leave g
         then g4\<lparr>g_events := g_events g4 @ [Left name]\<rparr> else g4)"

definition dead_step :: "gossiper \<Rightarrow> node_state \<Rightarrow> gossiper" where
  "dead_step g d =
     (case g_find g (ns_Name d) of
        None \<Rightarrow> g
      | Some st \<Rightarrow>
          if ns_Dominant d < ns_Dominant st then g
          else if ns_State st = STATE_DEAD then dead_base g (ns_Name d)
          else if ns_Name d = g_name g \<and> \<not> g_is_leaving g
          then fuckyou (dead_base g (ns_Name d)) (ns_Dominant d)
          else dead_result g d)"

lemma deadNode_cases: "deadNode g d = Inr (dead_step g d)"
proof (cases "g_find g (ns_Name d)")
  case (Some st)
  then have "updateNodeState (dead_base g (ns_Name d)) (ns_Name d) d =
      Inr ((dead_base g (ns_Name d))\<lparr>g_node_map := um_set (g_node_map g) (ns_Name d) (d\<lparr>ns_Timestamp := 0\<rparr>)\<rparr>)"
    by (simp add: updateNodeState_def dead_base_def)
  with Some show ?thesis
    by (simp add: deadNode_def dead_step_def getNodeState_def dead_result_def Let_def dead_base_def)
qed (simp add: deadNode_def dead_step_def getNodeState_def)

text \<open>The state after a node became a suspect.\<close>

definition suspect_result :: "gossiper \<Rightarrow> node_state \<Rightarrow> suspicion \<Rightarrow> gossiper" where
  "suspect_result g s sus =
     (let name = ns_Name s;
          g1 = (if g_name g = name then fuckyou g (ns_Dominant s) else push_bc g s)
      in g1\<lparr>g_node_map := um_set (g_node_map g) name (s\<lparr>ns_Timestamp := 0\<rparr>),
            g_suspicions := um_set (g_suspicions g) name sus,
            g_waits := g_waits g @ [g_next_id g],
            g_next_id := Suc (g_next_id g)\<rparr>)"

text \<open>The state after a confirmation of a suspicion that exists already.\<close>

definition confirm_result :: "gossiper \<Rightarrow> node_state \<Rightarrow> suspicion \<Rightarrow> gossiper" where
  "confirm_result g s sus =
     (let (convicted, sus') = Confirm sus (ns_From s);
          g1 = g\<lparr>g_suspicions := um_set (g_suspicions g) (ns_Name s) sus'\<rparr>
      in if convicted then dead_step g1 ((g_reread g (sus_convict sus))\<lparr>ns_State := STATE_DEAD\<rparr>)
         else push_bc g1 s)"

lemma suspectNode_cases:
  "suspectNode g s =
     (case g_find g (ns_Name s) of
        None \<Rightarrow> Inr g
      | Some st \<Rightarrow>
          if ns_Dominant s < ns_Dominant st then Inr g
          else (case um_find (g_suspicions g) (ns_Name s) of
                  Some sus \<Rightarrow> Inr (confirm_result g s sus)
                | None \<Rightarrow>
                    if ns_State st \<noteq> STATE_ALIVE then Inr g
                    else rbind (suspicion_new (g_next_id g) (g_node_num g) s)
                           (\<lambda>sus. Inr (suspect_result g s sus))))"
proof (cases "g_find g (ns_Name s)")
  case (Some st)
  have "sus_convict sus' = sus_convict sus" if "Confirm sus (ns_From s) = (c, sus')" for c sus sus'
    using that Confirm_frame(2)[of sus "ns_From s"] by simp
  then show ?thesis
    using Some
    by (simp add: suspectNode_def getNodeState_def getSuspicion_def Let_def confirm_result_def
        convict_def deadNode_cases suspect_result_def updateNodeState_def split: option.splits prod.splits)
qed (simp add: suspectNode_def getNodeState_def)

lemma timer_handler_cases:
  "timer_handler g i = (case find (\<lambda>e. sus_id (snd e) = i) (entries (g_suspicions g)) of
     None \<Rightarrow> Inl UseAfterFree
   | Some (_, sus) \<Rightarrow> Inr (dead_step (g\<lparr>g_waits := remove1 i (g_waits g)\<rparr>)
        ((g_reread g (sus_convict sus))\<lparr>ns_State := STATE_DEAD\<rparr>)))"
  by (simp add: timer_handler_def convict_def deadNode_cases Let_def split: option.splits)

section \<open>The handlers keep the invariant\<close>

lemma alive_names_set:
  "um_wf m \<Longrightarrow> alive_names (um_set m n st) =
     (if ns_State st = STATE_DEAD then alive_names m - {n} else insert n (alive_names m))"
  by (auto simp: alive_names_def um.find_put)

lemma known_dead_iff: "known_dead g n \<longleftrightarrow> n \<notin> alive_names (g_node_map g)"
  by (auto simp: known_dead_def alive_names_def split: option.splits)

lemma g_invI:
  assumes "g_inv g" "um_wf (g_node_map g')" "um_wf (g_suspicions g')" "bq_idle (g_bc_queue g')"
    "bq_multi (g_bc_queue g') = bq_multi (g_bc_queue g)" "distinct (g_nodes g')"
    "set (g_nodes g') = alive_names (g_node_map g')"
    "g_find g' = g_find g \<or> (\<exists>n st. g_find g' = (g_find g)(n \<mapsto> st) \<and> ns_Name st = n \<and> proper_state (ns_State st))"
  shows "g_inv g'"
proof -
  have "ns_Name st = n \<and> proper_state (ns_State st)" if "g_find g' n = Some st" for n st
    using assms(1,8) that by (auto simp: g_inv_def split: if_splits)
  with assms show ?thesis by (simp add: g_inv_def)
qed

lemma g_inv_frame:
  assumes "g_inv g" "g_node_map g' = g_node_map g" "g_nodes g' = g_nodes g" "um_wf (g_suspicions g')"
    "bq_idle (g_bc_queue g')" "bq_multi (g_bc_queue g') = bq_multi (g_bc_queue g)"
  shows "g_inv g'"
  using assms by (simp add: g_inv_def)

lemma alive_result_fields:
  assumes "um_wf (g_node_map g)"
  shows "g_find (alive_result g a bc) = (g_find g)(ns_Name a \<mapsto> a\<lparr>ns_Timestamp := 0\<rparr>)"
    and "g_nodes (alive_result g a bc) =
      (if known_dead g (ns_Name a) then g_nodes g @ [ns_Name a] else g_nodes g)"
    and "g_suspicions (alive_result g a bc) = um_erase (g_suspicions g) (ns_Name a)"
    and "um_wf (g_node_map (alive_result g a bc))"
    and "bq_idle (g_bc_queue g) \<Longrightarrow> bq_idle (g_bc_queue (alive_result g a bc))"
    and "bq_multi (g_bc_queue (alive_result g a bc)) = bq_multi (g_bc_queue g)"
    and "g_conf (alive_result g a bc) = g_conf g"
  using assms
  by (auto simp: alive_result_def Let_def addNodeState_def um.find_put um.wf_put push_bc_idle)

lemma alive_result_inv:
  assumes "g_inv g" "ns_State a = STATE_ALIVE"
  shows "g_inv (alive_result g a bc)"
proof -
  let ?g = "alive_result g a bc"
  have wf: "um_wf (g_node_map g)" and ws: "um_wf (g_suspicions g)" and idle: "bq_idle (g_bc_queue g)"
    and ds: "distinct (g_nodes g)" and al: "set (g_nodes g) = alive_names (g_node_map g)"
    using assms(1) by (simp_all add: g_inv_def)
  note f = alive_result_fields[OF wf, of a bc]
  have "alive_names (g_node_map ?g) = insert (ns_Name a) (alive_names (g_node_map g))"
    using assms(2) by (auto simp: alive_names_def f(1))
  then have "set (g_nodes ?g) = alive_names (g_node_map ?g)" "distinct (g_nodes ?g)"
    using ds al by (auto simp: f(2) known_dead_iff)
  moreover have "\<exists>n st. g_find ?g = (g_find g)(n \<mapsto> st) \<and> ns_Name st = n \<and> proper_state (ns_State st)"
    using assms(2) by (intro exI[of _ "ns_Name a"] exI[of _ "a\<lparr>ns_Timestamp := 0\<rparr>"])
      (simp add: f(1) proper_state_def)
  ultimately show ?thesis
    using f(3-6) idle ws by (intro g_invI[OF assms(1)]) (simp_all add: um.wf_erase)
qed

lemma dead_base_inv: "g_inv g \<Longrightarrow> g_inv (dead_base g n)"
  by (rule g_inv_frame[of g]) (simp_all add: dead_base_def g_inv_def um.wf_erase)

lemma fuckyou_inv: "g_inv g \<Longrightarrow> g_inv (fuckyou g d)"
  by (rule g_inv_frame[of g]) (simp_all add: g_inv_def fuckyou_idle)

lemma push_bc_inv: "g_inv g \<Longrightarrow> g_inv (push_bc g m)"
  by (rule g_inv_frame[of g]) (simp_all add: g_inv_def push_bc_idle)

lemma dead_result_fields:
  assumes "um_wf (g_node_map g)" "distinct (g_nodes g)"
  shows "g_find (dead_result g d) = (g_find g)(ns_Name d \<mapsto> d\<lparr>ns_Timestamp := 0\<rparr>)"
    and "set (g_nodes (dead_result g d)) = set (g_nodes g) - {ns_Name d}"
    and "distinct (g_nodes (dead_result g d))"
    and "g_suspicions (dead_result g d) = um_erase (g_suspicions g) (ns_Name d)"
    and "um_wf (g_node_map (dead_result g d))"
    and "bq_idle (g_bc_queue g) \<Longrightarrow> bq_idle (g_bc_queue (dead_result g d))"
    and "bq_multi (g_bc_queue (dead_result g d)) = bq_multi (g_bc_queue g)"
    and "g_conf (dead_result g d) = g_conf g"
  using assms
  by (auto simp: dead_result_def Let_def dead_base_def um.find_put um.wf_put push_bc_idle removeNodeState_nodes)

lemma dead_result_inv:
  assumes "g_inv g" "ns_State d = STATE_DEAD"
  shows "g_inv (dead_result g d)"
proof -
  let ?g = "dead_result g d"
  have wf: "um_wf (g_node_map g)" and ws: "um_wf (g_suspicions g)" and idle: "bq_idle (g_bc_queue g)"
    and ds: "distinct (g_nodes g)" and al: "set (g_nodes g) = alive_names (g_node_map g)"
    using assms(1) by (simp_all add: g_inv_def)
  note f = dead_result_fields[OF wf ds, of d]
  have "alive_names (g_node_map ?g) = alive_names (g_node_map g) - {ns_Name d}"
    using assms(2) by (auto simp: alive_names_def f(1))
  moreover have "\<exists>n st. g_find ?g = (g_find g)(n \<mapsto> st) \<and> ns_Name st = n \<and> proper_state (ns_State st)"
    using assms(2) by (intro exI[of _ "ns_Name d"] exI[of _ "d\<lparr>ns_Timestamp := 0\<rparr>"])
      (simp add: f(1) proper_state_def)
  ultimately show ?thesis
    using f(2-7) idle ws al by (intro g_invI[OF assms(1)]) (simp_all add: um.wf_erase)
qed

lemma dead_step_inv: "g_inv g \<Longrightarrow> ns_State d = STATE_DEAD \<Longrightarrow> g_inv (dead_step g d)"
  by (simp add: dead_step_def dead_base_inv fuckyou_inv dead_result_inv split: option.splits)

lemma suspect_result_inv:
  assumes "g_inv g" "g_find g (ns_Name s) = Some st" "ns_State st = STATE_ALIVE"
    "ns_State s \<in> {STATE_ALIVE, STATE_SUSPECT}"
  shows "g_inv (suspect_result g s sus)"
proof -
  let ?g = "suspect_result g s sus"
  have inv: "um_wf (g_node_map g)" "um_wf (g_suspicions g)" "bq_idle (g_bc_queue g)"
    "distinct (g_nodes g)" "set (g_nodes g) = alive_names (g_node_map g)"
    using assms(1) by (simp_all add: g_inv_def)
  have f: "g_find ?g = (g_find g)(ns_Name s \<mapsto> s\<lparr>ns_Timestamp := 0\<rparr>)" "g_nodes ?g = g_nodes g"
    "um_wf (g_node_map ?g)" "um_wf (g_suspicions ?g)" "bq_idle (g_bc_queue ?g)"
    "bq_multi (g_bc_queue ?g) = bq_multi (g_bc_queue g)"
    using inv by (simp_all add: suspect_result_def Let_def um.find_put um.wf_put push_bc_idle fuckyou_idle)
  have "alive_names (g_node_map ?g) = alive_names (g_node_map g)"
    using assms(2-4) by (auto simp: alive_names_def f(1))
  moreover have "\<exists>n st. g_find ?g = (g_find g)(n \<mapsto> st) \<and> ns_Name st = n \<and> proper_state (ns_State st)"
    using assms(4) by (intro exI[of _ "ns_Name s"] exI[of _ "s\<lparr>ns_Timestamp := 0\<rparr>"])
      (auto simp: f(1) proper_state_def)
  ultimately show ?thesis using f inv by (intro g_invI[OF assms(1)]) simp_all
qed

lemma confirm_result_inv: "g_inv g \<Longrightarrow> g_inv (confirm_result g s sus)"
proof -
  assume g: "g_inv g"
  have "g_inv (g\<lparr>g_suspicions := um_set (g_suspicions g) n sus'\<rparr>)" for n sus'
    using g by (rule g_inv_frame) (use g in \<open>simp_all add: g_inv_def um.wf_put\<close>)
  then show ?thesis
    by (auto simp: confirm_result_def Let_def dead_step_inv push_bc_inv split: prod.splits)
qed

end
