(* ===== verification/Member.thy ===== *)
theory Member
  imports Gossiper_Inv
begin

text \<open>
  One running member: the inputs that the event loop hands to \<^verbatim>\<open>class gossiper\<close> after \<^verbatim>\<open>Join\<close>, and
  the properties of every sequence of them. The inputs are a received node state (merged by
  \<^verbatim>\<open>mergeStates\<close>), a suspicion's timer handler, the expiry of a ping (\<^verbatim>\<open>probeNode\<close> then
  suspects the node it pinged), a dead alert in a pong, and the probe ticker.
\<close>

section \<open>Inputs and steps\<close>

datatype input =
    In_state bool node_state
  | In_timer nat
  | In_ping_timeout node_state
  | In_dead_alert u64
  | In_tick

fun member_step :: "gossiper \<Rightarrow> input \<Rightarrow> gossiper result" where
  "member_step g (In_state need_bc st) = merge_state g need_bc st"
| "member_step g (In_timer i) = timer_handler g i"
| "member_step g (In_ping_timeout node) = suspectNode g node"
| "member_step g (In_dead_alert d) = Inr (fuckyou g d)"
| "member_step g In_tick = rbind (probe g) (\<lambda>(_, g'). Inr g')"

text \<open>A node is pinged only when its entry says ALIVE, and the entry is what the timeout passes on.\<close>

fun input_ok :: "input \<Rightarrow> bool" where
  "input_ok (In_ping_timeout node) \<longleftrightarrow> ns_State node = STATE_ALIVE"
| "input_ok _ \<longleftrightarrow> True"

text \<open>A member as \<^verbatim>\<open>main\<close> starts it: constructed, notifiers registered, its own entry made.\<close>

definition start_member ::
  "config \<Rightarrow> (string \<Rightarrow> string list \<Rightarrow> string list) \<Rightarrow> u64 \<Rightarrow> (node_state \<Rightarrow> node_state) \<Rightarrow> gossiper result" where
  "start_member conf ord indet reread =
     join_self (RegisterNotifier (gossiper_new conf ord indet reread) True True)"

text \<open>The invariant of a member that takes part: it knows itself and has not left.\<close>

definition m_inv :: "gossiper \<Rightarrow> bool" where
  "m_inv g \<longleftrightarrow> g_inv g \<and> g_name g \<in> set (g_nodes g) \<and> \<not> g_is_leaving g"

text \<open>Replaying notifications from a set of members; \<open>None\<close> for a join of a present or a leave of an absent one.\<close>

fun replay :: "string set \<Rightarrow> event list \<Rightarrow> string set option" where
  "replay S [] = Some S"
| "replay S (Joined n # es) = (if n \<in> S then None else replay (insert n S) es)"
| "replay S (Left n # es) = (if n \<in> S then replay (S - {n}) es else None)"

definition ev_inv :: "gossiper \<Rightarrow> bool" where
  "ev_inv g \<longleftrightarrow> m_inv g \<and> g_notify_join g \<and> g_notify_leave g \<and>
     replay {} (g_events g) = Some (set (g_nodes g) - {g_name g})"

text \<open>
  Progress of what a member knows: no entry disappears, and an entry changes only to a higher
  dominant, or at the same dominant to a worse state.
\<close>

definition state_le :: "node_state \<Rightarrow> node_state \<Rightarrow> bool" where
  "state_le a b \<longleftrightarrow> ns_Dominant a < ns_Dominant b \<or>
     (ns_Dominant a = ns_Dominant b \<and> ns_State a \<le> ns_State b)"

definition g_le :: "gossiper \<Rightarrow> gossiper \<Rightarrow> bool" where
  "g_le g g' \<longleftrightarrow> (\<forall>n st. g_find g n = Some st \<longrightarrow> (\<exists>st'. g_find g' n = Some st' \<and> state_le st st'))"

section \<open>Fields no step changes\<close>

named_theorems member_frame "fields that steps leave alone"

lemma alive_result_frame [member_frame]:
  "g_conf (alive_result g a bc) = g_conf g" "g_is_leaving (alive_result g a bc) = g_is_leaving g"
  "g_notify_join (alive_result g a bc) = g_notify_join g"
  "g_notify_leave (alive_result g a bc) = g_notify_leave g"
  "g_events (alive_result g a bc) = g_events g @
     (if known_dead g (ns_Name a) \<and> ns_Name a \<noteq> g_name g \<and> g_notify_join g then [Joined (ns_Name a)] else [])"
  by (simp_all add: alive_result_def Let_def addNodeState_def)

lemma dead_base_frame [member_frame]:
  "g_conf (dead_base g n) = g_conf g" "g_is_leaving (dead_base g n) = g_is_leaving g"
  "g_notify_join (dead_base g n) = g_notify_join g" "g_notify_leave (dead_base g n) = g_notify_leave g"
  "g_events (dead_base g n) = g_events g" "g_nodes (dead_base g n) = g_nodes g"
  "g_node_map (dead_base g n) = g_node_map g"
  by (simp_all add: dead_base_def)

lemma dead_result_frame [member_frame]:
  "g_conf (dead_result g d) = g_conf g" "g_is_leaving (dead_result g d) = g_is_leaving g"
  "g_notify_join (dead_result g d) = g_notify_join g"
  "g_notify_leave (dead_result g d) = g_notify_leave g"
  "g_events (dead_result g d) = g_events g @
     (if ns_Name d \<noteq> g_name g \<and> g_notify_leave g then [Left (ns_Name d)] else [])"
  by (simp_all add: dead_result_def Let_def dead_base_def)

lemma suspect_result_frame [member_frame]:
  "g_conf (suspect_result g s sus) = g_conf g" "g_is_leaving (suspect_result g s sus) = g_is_leaving g"
  "g_notify_join (suspect_result g s sus) = g_notify_join g"
  "g_notify_leave (suspect_result g s sus) = g_notify_leave g"
  "g_events (suspect_result g s sus) = g_events g" "g_nodes (suspect_result g s sus) = g_nodes g"
  by (simp_all add: suspect_result_def Let_def)

section \<open>Invariants of the steps\<close>

lemma replay_append: "replay S (xs @ ys) = Option.bind (replay S xs) (\<lambda>T. replay T ys)"
  by (induction S xs rule: replay.induct) auto

text \<open>
  The four elementary changes of a member, one per way a handler can end; every step is a
  composition of them, so what each keeps, every step keeps.
\<close>

definition nodes_known :: "gossiper \<Rightarrow> node_state \<Rightarrow> bool" where
  "nodes_known g d \<longleftrightarrow> (\<exists>st. g_find g (ns_Name d) = Some st \<and> ns_State st \<noteq> STATE_DEAD \<and>
     \<not> ns_Dominant d < ns_Dominant st \<and> (ns_Name d = g_name g \<longrightarrow> g_is_leaving g))"

lemma dead_step_induct:
  assumes "P g" "P (dead_base g (ns_Name d))"
    "ns_Name d = g_name g \<Longrightarrow> P (fuckyou (dead_base g (ns_Name d)) (ns_Dominant d))"
    "nodes_known g d \<Longrightarrow> P (dead_result g d)"
  shows "P (dead_step g d)"
  using assms by (auto simp: dead_step_def nodes_known_def split: option.splits)

lemma ev_inv_frame:
  assumes "ev_inv g" "g_inv g'" "g_conf g' = g_conf g" "g_nodes g' = g_nodes g" "g_events g' = g_events g"
    "g_is_leaving g' = g_is_leaving g" "g_notify_join g' = g_notify_join g" "g_notify_leave g' = g_notify_leave g"
  shows "ev_inv g'"
  using assms by (simp add: ev_inv_def m_inv_def)

lemma ev_inv_fields [simp]:
  "ev_inv (g\<lparr>g_waits := w\<rparr>) = ev_inv g" "ev_inv (g\<lparr>g_cursor := c\<rparr>) = ev_inv g"
  by (simp_all add: ev_inv_def m_inv_def g_inv_def)

lemma ev_inv_g_inv: "ev_inv g \<Longrightarrow> g_inv g"
  by (simp add: ev_inv_def m_inv_def)

lemma alive_result_ev_inv:
  assumes "ev_inv g" "ns_State a = STATE_ALIVE"
  shows "ev_inv (alive_result g a bc)"
proof -
  have inv: "g_inv g" using assms(1) by (rule ev_inv_g_inv)
  then have wf: "um_wf (g_node_map g)" and al: "set (g_nodes g) = alive_names (g_node_map g)"
    by (simp_all add: g_inv_def)
  show ?thesis
    using assms(1) alive_result_inv[OF inv assms(2)]
    by (auto simp: ev_inv_def m_inv_def member_frame alive_result_fields[OF wf] replay_append
        known_dead_iff al[symmetric])
qed

lemma dead_result_ev_inv:
  assumes "ev_inv g" "ns_State d = STATE_DEAD" "nodes_known g d"
  shows "ev_inv (dead_result g d)"
proof -
  have inv: "g_inv g" using assms(1) by (rule ev_inv_g_inv)
  then have wf: "um_wf (g_node_map g)" and ds: "distinct (g_nodes g)"
    and al: "set (g_nodes g) = alive_names (g_node_map g)"
    by (simp_all add: g_inv_def)
  have mem: "ns_Name d \<in> set (g_nodes g)" and ne: "ns_Name d \<noteq> g_name g"
    using assms(1,3) al by (auto simp: nodes_known_def alive_names_def ev_inv_def m_inv_def)
  show ?thesis
    using assms(1) dead_result_inv[OF inv assms(2)] mem ne
    by (auto simp: ev_inv_def m_inv_def member_frame dead_result_fields[OF wf ds] replay_append)
qed

lemma dead_step_ev_inv:
  assumes "ev_inv g" "ns_State d = STATE_DEAD"
  shows "ev_inv (dead_step g d)"
proof (rule dead_step_induct)
  have b: "ev_inv (dead_base g n)" for n
    using assms(1) by (rule ev_inv_frame) (simp_all add: member_frame dead_base_inv ev_inv_g_inv assms(1))
  then show "ev_inv (dead_base g (ns_Name d))" .
  show "ev_inv (fuckyou (dead_base g (ns_Name d)) (ns_Dominant d))"
    using b by (rule ev_inv_frame) (simp_all add: fuckyou_inv ev_inv_g_inv b)
qed (use assms dead_result_ev_inv in auto)

lemma suspectNode_ev_inv:
  assumes "ev_inv g" "ns_State s \<in> {STATE_ALIVE, STATE_SUSPECT}" "suspectNode g s = Inr g'"
  shows "ev_inv g'"
proof -
  have inv: "g_inv g" using assms(1) by (rule ev_inv_g_inv)
  have c: "ev_inv (confirm_result g s sus)" for sus
  proof -
    have 1: "ev_inv (g\<lparr>g_suspicions := um_set (g_suspicions g) n sus'\<rparr>)" for n sus'
      using assms(1) inv by (simp add: ev_inv_def m_inv_def) (simp add: g_inv_def um.wf_put)
    then have "ev_inv (push_bc (g\<lparr>g_suspicions := um_set (g_suspicions g) n sus'\<rparr>) s)" for n sus'
      by (rule ev_inv_frame) (simp_all add: push_bc_inv ev_inv_g_inv 1)
    with 1 show ?thesis by (simp add: confirm_result_def Let_def dead_step_ev_inv split: prod.splits)
  qed
  have r: "ev_inv (suspect_result g s sus)" if "g_find g (ns_Name s) = Some st" "ns_State st = STATE_ALIVE" for st sus
    using assms(1) by (rule ev_inv_frame) (simp_all add: member_frame suspect_result_inv[OF inv that assms(2)])
  show ?thesis
    using assms(1,3) c r
    by (auto simp: suspectNode_cases rbind_Inr_iff split: option.splits if_splits)
qed

lemma probe_result:
  assumes "m_inv g"
  shows "\<exists>r c. probe g = Inr (r, g\<lparr>g_cursor := c\<rparr>)"
proof -
  have inv: "g_inv g" and ne: "g_nodes g \<noteq> []"
    using assms by (auto simp: m_inv_def)
  obtain x c where x: "fst (roundrobinNode g 1) = x # tl (fst (roundrobinNode g 1))"
      "x \<in> set (g_nodes g)" "snd (roundrobinNode g 1) = g\<lparr>g_cursor := c\<rparr>"
  proof (cases "length (g_nodes g) \<le> 1")
    case True
    then obtain y where "g_nodes g = [y]" using ne by (cases "g_nodes g") auto
    then show thesis using that[of y "g_cursor g"] by (simp add: roundrobinNode_def)
  next
    case False
    then have "g_nodes g ! (g_cursor g mod length (g_nodes g)) \<in> set (g_nodes g)"
      using ne by (intro nth_mem mod_less_divisor) simp
    with False show thesis
      using that[of "g_nodes g ! (g_cursor g mod length (g_nodes g))" "(g_cursor g + 1) mod length (g_nodes g)"]
      by (simp add: roundrobinNode_def Let_def)
  qed
  moreover obtain st where "g_find g x = Some st"
    using x(2) inv by (auto simp: g_inv_def alive_names_def)
  ultimately show ?thesis
    by (auto simp: probe_def getNodeState_def split: prod.splits list.splits)
qed

lemma member_step_ev_inv:
  assumes "ev_inv g" "input_ok e" "member_step g e = Inr g'"
  shows "ev_inv g'"
proof (cases e)
  case (In_state bc st)
  with assms have m: "merge_state g bc st = Inr g'" by simp
  have wf: "um_wf (g_node_map g)" using ev_inv_g_inv[OF assms(1)] by (simp add: g_inv_def)
  show ?thesis
  proof (cases "ns_State st")
    case STATE_ALIVE
    with m have "g' = (if alive_accepts g st then alive_result g st bc else g)"
      by (simp add: merge_state_def aliveNode_cases[OF wf])
    then show ?thesis using STATE_ALIVE assms(1) alive_result_ev_inv by simp
  qed (use m assms(1) suspectNode_ev_inv dead_step_ev_inv in \<open>auto simp: merge_state_def deadNode_cases\<close>)
next
  case (In_timer i)
  with assms show ?thesis
    by (auto simp: timer_handler_cases dead_step_ev_inv split: option.splits)
next
  case (In_dead_alert d)
  have "ev_inv (fuckyou g d)"
    using assms(1) by (rule ev_inv_frame) (simp_all add: fuckyou_inv ev_inv_g_inv assms(1))
  with In_dead_alert assms(3) show ?thesis by auto
next
  case In_tick
  have "m_inv g" using assms(1) by (simp add: ev_inv_def)
  then obtain r c where "probe g = Inr (r, g\<lparr>g_cursor := c\<rparr>)" using probe_result by blast
  with In_tick assms(3) have "g' = g\<lparr>g_cursor := c\<rparr>" by simp
  then show ?thesis using assms(1) by simp
qed (use assms suspectNode_ev_inv in auto)

interpretation member: fallible_machine member_step ev_inv input_ok
  by standard (rule member_step_ev_inv)

section \<open>Progress\<close>

lemma state_le_refl: "state_le a a"
  by (simp add: state_le_def)

lemma state_le_trans: "state_le a b \<Longrightarrow> state_le b c \<Longrightarrow> state_le a c"
  by (auto simp: state_le_def intro: order_trans)

lemma g_le_refl: "g_le g g"
  by (auto simp: g_le_def state_le_refl)

lemma g_le_trans: "g_le a b \<Longrightarrow> g_le b c \<Longrightarrow> g_le a c"
  unfolding g_le_def by (meson state_le_trans)

lemma g_le_same: "g_node_map g' = g_node_map g \<Longrightarrow> g_le g g'"
  by (auto simp: g_le_def state_le_refl)

lemma g_le_update:
  assumes "g_find g' = (g_find g)(n \<mapsto> st')" "\<And>st. g_find g n = Some st \<Longrightarrow> state_le st st'"
  shows "g_le g g'"
  using assms by (auto simp: g_le_def state_le_refl)

lemma proper_le_DEAD: "proper_state st \<Longrightarrow> st \<le> STATE_DEAD"
  by (auto simp: proper_state_def less_eq_STATE_def)

lemma ALIVE_le: "STATE_ALIVE \<le> st"
  by (simp add: less_eq_STATE_def)

lemma dead_step_le:
  assumes "g_inv g" "ns_State d = STATE_DEAD"
  shows "g_le g (dead_step g d)"
proof (rule dead_step_induct)
  have wf: "um_wf (g_node_map g)" "distinct (g_nodes g)" using assms(1) by (simp_all add: g_inv_def)
  assume k: "nodes_known g d"
  show "g_le g (dead_result g d)"
  proof (rule g_le_update)
    show "g_find (dead_result g d) = (g_find g)(ns_Name d \<mapsto> d\<lparr>ns_Timestamp := 0\<rparr>)"
      using wf by (rule dead_result_fields)
    fix st assume st: "g_find g (ns_Name d) = Some st"
    then have "ns_State st \<le> STATE_DEAD" using assms(1) proper_le_DEAD by (simp add: g_inv_def)
    with k st assms(2) show "state_le st (d\<lparr>ns_Timestamp := 0\<rparr>)"
      by (auto simp: state_le_def nodes_known_def not_less order_le_less)
  qed
qed (simp_all add: g_le_same g_le_refl member_frame)

lemma suspectNode_le:
  assumes "g_inv g" "suspectNode g s = Inr g'"
  shows "g_le g g'"
proof -
  have "g_le g (confirm_result g s sus)" for sus
  proof -
    have "g_inv (g\<lparr>g_suspicions := um_set (g_suspicions g) n sus'\<rparr>)" for n sus'
      using assms(1) by (rule g_inv_frame) (use assms(1) in \<open>simp_all add: g_inv_def um.wf_put\<close>)
    then have "g_le (g\<lparr>g_suspicions := um_set (g_suspicions g) n sus'\<rparr>)
        (dead_step (g\<lparr>g_suspicions := um_set (g_suspicions g) n sus'\<rparr>) (m\<lparr>ns_State := STATE_DEAD\<rparr>))" for n sus' m
      by (rule dead_step_le) simp
    then show ?thesis
      by (simp add: confirm_result_def Let_def g_le_def split: prod.splits) (auto simp: state_le_refl)
  qed
  moreover have "g_le g (suspect_result g s sus)"
    if "g_find g (ns_Name s) = Some st" "ns_State st = STATE_ALIVE" "\<not> ns_Dominant s < ns_Dominant st" for st sus
  proof (rule g_le_update)
    show "g_find (suspect_result g s sus) = (g_find g)(ns_Name s \<mapsto> s\<lparr>ns_Timestamp := 0\<rparr>)"
      using assms(1) by (simp add: suspect_result_def Let_def g_inv_def um.find_put)
    show "state_le st' (s\<lparr>ns_Timestamp := 0\<rparr>)" if "g_find g (ns_Name s) = Some st'" for st'
      using that \<open>g_find g (ns_Name s) = Some st\<close> \<open>ns_State st = STATE_ALIVE\<close>
        \<open>\<not> ns_Dominant s < ns_Dominant st\<close>
      by (auto simp: state_le_def ALIVE_le not_less order_le_less)
  qed
  ultimately show ?thesis
    using assms(2) g_le_refl
    by (auto simp: suspectNode_cases rbind_Inr_iff split: option.splits if_splits)
qed

lemma alive_result_le:
  assumes "g_inv g" "alive_accepts g a"
  shows "g_le g (alive_result g a bc)"
proof (rule g_le_update)
  show "g_find (alive_result g a bc) = (g_find g)(ns_Name a \<mapsto> a\<lparr>ns_Timestamp := 0\<rparr>)"
    using assms(1) by (intro alive_result_fields) (simp add: g_inv_def)
  show "state_le st (a\<lparr>ns_Timestamp := 0\<rparr>)" if "g_find g (ns_Name a) = Some st" for st
    using assms(2) that by (simp add: state_le_def alive_accepts_def known_dominant_def)
qed

lemma member_step_le:
  assumes "ev_inv g" "input_ok e" "member_step g e = Inr g'"
  shows "g_le g g'"
proof (cases e)
  case (In_state bc st)
  have inv: "g_inv g" using assms(1) by (rule ev_inv_g_inv)
  then have wf: "um_wf (g_node_map g)" by (simp add: g_inv_def)
  show ?thesis
    using In_state assms(3) inv
    by (auto simp: merge_state_def aliveNode_cases[OF wf] deadNode_cases suspectNode_le dead_step_le
        alive_result_le g_le_refl split: STATE.splits if_splits)
next
  case (In_timer i)
  have "g_inv (g\<lparr>g_waits := w\<rparr>)" for w
    using ev_inv_g_inv[OF assms(1)] by (rule g_inv_frame) (use ev_inv_g_inv[OF assms(1)] in \<open>simp_all add: g_inv_def\<close>)
  then have "g_le (g\<lparr>g_waits := w\<rparr>) (dead_step (g\<lparr>g_waits := w\<rparr>) (m\<lparr>ns_State := STATE_DEAD\<rparr>))" for w m
    by (rule dead_step_le) simp
  with In_timer assms(3) show ?thesis
    by (auto simp: timer_handler_cases g_le_def split: option.splits)
next
  case In_tick
  have "m_inv g" using assms(1) by (simp add: ev_inv_def)
  then obtain r c where "probe g = Inr (r, g\<lparr>g_cursor := c\<rparr>)" using probe_result by blast
  with In_tick assms(3) show ?thesis by (auto simp: g_le_same)
qed (use assms(3) suspectNode_le[OF ev_inv_g_inv[OF assms(1)]] in \<open>auto simp: g_le_same\<close>)

interpretation member_progress: monotone_machine member_step ev_inv input_ok g_le
  by standard (auto intro: g_le_refl g_le_trans member_step_le)

section \<open>Start and faults\<close>

lemma start_member_ev_inv:
  assumes "order_ok ord"
  shows "\<exists>g. start_member conf ord indet reread = Inr g \<and> ev_inv g \<and> g_nodes g = [conf_Name conf] \<and>
    g_name g = conf_Name conf \<and> g_events g = []"
proof -
  define g1 where "g1 = snd (nextDominant (RegisterNotifier (gossiper_new conf ord indet reread) True True) 1)"
  have wf: "um_wf (g_node_map g1)" and inv: "g_inv g1"
    using assms by (auto simp: g1_def nextDominant_def RegisterNotifier_def gossiper_new_def um_wf_empty
        g_inv_def bq_inv_init alive_names_def) (simp add: BroadcastQueue_init_def)
  have f: "g_node_map g1 = um_empty ord" "g_nodes g1 = []" "g_conf g1 = conf" "g_events g1 = []"
    "\<not> g_is_leaving g1" "g_notify_join g1" "g_notify_leave g1"
    by (simp_all add: g1_def nextDominant_def RegisterNotifier_def gossiper_new_def)
  have acc: "alive_accepts g1 (self_state g1 1)"
    by (simp add: alive_accepts_def known_dominant_def f self_state_def)
  let ?g = "alive_result g1 (self_state g1 1) False"
  have "start_member conf ord indet reread = Inr ?g"
    using acc aliveNode_cases[OF wf, of "self_state g1 1" False]
    by (simp add: start_member_def join_self_def g1_def nextDominant_def RegisterNotifier_def gossiper_new_def)
  moreover have "g_nodes ?g = [conf_Name conf]" "g_events ?g = []"
    using alive_result_fields(2)[OF wf, of "self_state g1 1" False]
    by (simp_all add: f member_frame known_dead_def self_state_def)
  moreover have "g_inv ?g" using inv by (rule alive_result_inv) (simp add: self_state_def)
  ultimately show ?thesis
    by (simp add: ev_inv_def m_inv_def member_frame f)
qed

lemma start_member_D: "order_ok ord \<Longrightarrow> start_member conf ord indet reread = Inr g \<Longrightarrow> ev_inv g"
  using start_member_ev_inv[of ord conf indet reread] by auto

section \<open>An example member\<close>

text \<open>Member \<open>a\<close> hears of \<open>b\<close>, probes, hears that \<open>b\<close> is dead, and hears of \<open>b\<close> again with a higher dominant.\<close>

definition ex_conf :: config where
  "ex_conf = \<lparr>conf_Name = ''a'', conf_Addr = ''10.0.0.1'', conf_Port = 7, conf_Indirect_checks = 1000,
     conf_Sync_state_timeout = 0, conf_Probe_interval = 500, conf_Probe_timeout = 500,
     conf_Gossip_interval = 1000\<rparr>"

definition ex_inputs :: "input list" where
  "ex_inputs = [In_state True (ex_msg ''b'' 3 STATE_ALIVE), In_tick,
     In_state True (ex_msg ''b'' 3 STATE_DEAD), In_state False (ex_msg ''b'' 4 STATE_ALIVE)]"

definition ex_run :: "gossiper result" where
  "ex_run = rbind (start_member ex_conf (#) 0 id) (\<lambda>g. rfold member_step g ex_inputs)"

lemma ex_run_events:
  "case ex_run of Inl _ \<Rightarrow> False
   | Inr g \<Rightarrow> g_events g = [Joined ''b'', Left ''b'', Joined ''b''] \<and> g_nodes g = [''a'', ''b''] \<and> g_node_num g = 1"
  by code_simp

lemma ex_run_states:
  obtains g0 g where "start_member ex_conf (#) 0 id = Inr g0" "rfold member_step g0 ex_inputs = Inr g"
    "g_events g = [Joined ''b'', Left ''b'', Joined ''b'']"
proof -
  obtain g where g: "ex_run = Inr g" "g_events g = [Joined ''b'', Left ''b'', Joined ''b'']"
    using ex_run_events unfolding case_ok_iff by blast
  then show thesis using that by (auto simp: ex_run_def rbind_Inr_iff)
qed

lemma ex_inputs_ok: "list_all input_ok ex_inputs"
  by (simp add: ex_inputs_def)

section \<open>Properties\<close>

lemma ev_inv_alive_exact:
  assumes "ev_inv g"
  shows "distinct (GetAliveNodes g)" "g_name g \<in> set (GetAliveNodes g)"
    "set (GetAliveNodes g) = {n. \<exists>st. getNodeState g n = Some st \<and> ns_State st \<noteq> STATE_DEAD}"
    "replay {} (g_events g) = Some (set (GetAliveNodes g) - {g_name g})"
proof -
  have "g_name g \<in> set (g_nodes g)" using assms by (simp add: ev_inv_def m_inv_def)
  then show "g_name g \<in> set (GetAliveNodes g)" by (simp add: GetAliveNodes_def)
qed (use assms in \<open>simp_all add: ev_inv_def m_inv_def g_inv_def GetAliveNodes_def getNodeState_def alive_names_def\<close>)

text \<open>
  (C1) The notifications are an exact change log of the membership: in every run of a member, whatever messages,
  timer handlers, timeouts and ticks it processes, replaying its join and leave notifications in
  order succeeds (never a join of a node that is in, never a leave of one that is not) and
  yields exactly the nodes \<^verbatim>\<open>GetAliveNodes\<close> returns, without the member itself.
\<close>

theorem notifications_replay:
  assumes "order_ok ord" "start_member conf ord indet reread = Inr g0" "list_all input_ok ins"
    "rfold member_step g0 ins = Inr g"
  shows "replay {} (g_events g) = Some (set (GetAliveNodes g) - {g_name g})"
proof -
  have "ev_inv g0" using assms(1,2) by (rule start_member_D)
  then have "ev_inv g" using assms(3,4) by (rule member.run_inv)
  then show ?thesis by (rule ev_inv_alive_exact(4))
qed

theorem notifications_replay_witness:
  "\<exists>g0 g. start_member ex_conf (#) 0 id = Inr g0 \<and> rfold member_step g0 ex_inputs = Inr g \<and>
    replay {} [Joined ''b'', Left ''b'', Joined ''b''] = Some (set (GetAliveNodes g) - {g_name g})"
proof -
  obtain g0 g where g: "start_member ex_conf (#) 0 id = Inr g0" "rfold member_step g0 ex_inputs = Inr g"
    "g_events g = [Joined ''b'', Left ''b'', Joined ''b'']"
    by (rule ex_run_states)
  from notifications_replay[OF order_ok_Cons g(1) ex_inputs_ok g(2)] g show ?thesis by auto
qed

text \<open>
  (C14) \<^verbatim>\<open>GetAliveNodes\<close> is exact in every run: it lists, without repetition, the nodes of the table that
  are not marked dead, and the member itself is always among them.
\<close>

theorem alive_nodes_exact:
  assumes "order_ok ord" "start_member conf ord indet reread = Inr g0" "list_all input_ok ins"
    "rfold member_step g0 ins = Inr g"
  shows "distinct (GetAliveNodes g) \<and> g_name g \<in> set (GetAliveNodes g) \<and>
    set (GetAliveNodes g) = {n. \<exists>st. getNodeState g n = Some st \<and> ns_State st \<noteq> STATE_DEAD}"
proof -
  have "ev_inv g0" using assms(1,2) by (rule start_member_D)
  then have "ev_inv g" using assms(3,4) by (rule member.run_inv)
  then show ?thesis using ev_inv_alive_exact[of g] by blast
qed

theorem alive_nodes_exact_witness:
  "\<exists>g0 g. start_member ex_conf (#) 0 id = Inr g0 \<and> rfold member_step g0 ex_inputs = Inr g \<and>
    distinct (GetAliveNodes g) \<and> g_name g \<in> set (GetAliveNodes g) \<and>
    set (GetAliveNodes g) = {n. \<exists>st. getNodeState g n = Some st \<and> ns_State st \<noteq> STATE_DEAD}"
proof -
  obtain g0 g where g: "start_member ex_conf (#) 0 id = Inr g0" "rfold member_step g0 ex_inputs = Inr g"
    by (rule ex_run_states)
  from alive_nodes_exact[OF order_ok_Cons g(1) ex_inputs_ok g(2)] g show ?thesis by blast
qed

text \<open>
  (C15) Knowledge only grows: along every run no table entry disappears, and an entry changes only to a
  higher dominant, or at the same dominant to a worse state. An outdated message, however
  delayed or repeated, cannot take an entry back.
\<close>

theorem knowledge_monotone:
  assumes "order_ok ord" "start_member conf ord indet reread = Inr g0"
    "list_all input_ok (ins @ ins')"
    "rfold member_step g0 ins = Inr g" "rfold member_step g ins' = Inr g'"
    "getNodeState g n = Some st"
  shows "\<exists>st'. getNodeState g' n = Some st' \<and> state_le st st'"
proof -
  have "ev_inv g0" using assms(1,2) by (rule start_member_D)
  moreover have "list_all input_ok ins" "list_all input_ok ins'" using assms(3) by simp_all
  ultimately have "g_le g g'"
    using assms(4,5) member.run_inv member_progress.run_le by blast
  then show ?thesis using assms(6) by (simp add: g_le_def getNodeState_def)
qed

theorem knowledge_monotone_witness:
  "\<exists>g0 g' st. start_member ex_conf (#) 0 id = Inr g0 \<and> rfold member_step g0 ex_inputs = Inr g' \<and>
    getNodeState g0 ''a'' = Some st \<and> (\<exists>st'. getNodeState g' ''a'' = Some st' \<and> state_le st st')"
proof -
  obtain g0 g where g: "start_member ex_conf (#) 0 id = Inr g0" "rfold member_step g0 ex_inputs = Inr g"
    by (rule ex_run_states)
  obtain st where st: "getNodeState g0 ''a'' = Some st"
  proof -
    have "case start_member ex_conf (#) 0 id of Inl _ \<Rightarrow> False | Inr g \<Rightarrow> getNodeState g ''a'' \<noteq> None"
      by code_simp
    then show thesis using that g(1) by auto
  qed
  have "list_all input_ok ([] @ ex_inputs)" using ex_inputs_ok by simp
  from knowledge_monotone[OF order_ok_Cons g(1) this _ g(2) st] g st show ?thesis by auto
qed

section \<open>The dead reference of a conviction\<close>

text \<open>
  When a step convicts: it runs the callback of a suspicion, which copies the suspected state through a reference to the
  message of an earlier call (\<^verbatim>\<open>src/src/gossiper.hpp\<close>, line 232), so what it merges is \<open>g_reread\<close> of that message.
\<close>

definition confirms :: "gossiper \<Rightarrow> node_state \<Rightarrow> bool" where
  "confirms g s \<longleftrightarrow> (case (getNodeState g (ns_Name s), getSuspicion g (ns_Name s)) of
     (Some st, Some sus) \<Rightarrow> ns_Dominant st \<le> ns_Dominant s \<and> fst (Confirm sus (ns_From s))
   | _ \<Rightarrow> False)"

fun convicts :: "gossiper \<Rightarrow> input \<Rightarrow> bool" where
  "convicts g (In_state need_bc s) \<longleftrightarrow> ns_State s = STATE_SUSPECT \<and> confirms g s"
| "convicts g (In_timer i) \<longleftrightarrow> i \<in> (sus_id \<circ> snd) ` set (entries (g_suspicions g))"
| "convicts g (In_ping_timeout s) \<longleftrightarrow> confirms g s"
| "convicts g _ \<longleftrightarrow> False"

text \<open>Every other way a handler can end commutes with a change of what dead memory reads.\<close>

lemma reread_basic:
  "known_dominant (g\<lparr>g_reread := r\<rparr>) n = known_dominant g n" "known_dead (g\<lparr>g_reread := r\<rparr>) n = known_dead g n"
  "alive_accepts (g\<lparr>g_reread := r\<rparr>) a = alive_accepts g a"
  "push_bc (g\<lparr>g_reread := r\<rparr>) m = (push_bc g m)\<lparr>g_reread := r\<rparr>"
  "addNodeState (g\<lparr>g_reread := r\<rparr>) n m = (addNodeState g n m)\<lparr>g_reread := r\<rparr>"
  "removeNodeState (g\<lparr>g_reread := r\<rparr>) n = (removeNodeState g n)\<lparr>g_reread := r\<rparr>"
  "dead_base (g\<lparr>g_reread := r\<rparr>) n = (dead_base g n)\<lparr>g_reread := r\<rparr>"
  by (simp_all add: known_dominant_def known_dead_def alive_accepts_def push_bc_def addNodeState_def removeNodeState_def
      dead_base_def split: option.split)

lemma reread_fuckyou: "fuckyou (g\<lparr>g_reread := r\<rparr>) d = (fuckyou g d)\<lparr>g_reread := r\<rparr>"
  by (simp add: fuckyou_def nextDominant_def push_bc_def Let_def)

lemma reread_alive_result: "alive_result (g\<lparr>g_reread := r\<rparr>) a bc = (alive_result g a bc)\<lparr>g_reread := r\<rparr>"
  by (simp add: alive_result_def reread_basic push_bc_def addNodeState_def Let_def)

lemma reread_dead_result: "dead_result (g\<lparr>g_reread := r\<rparr>) d = (dead_result g d)\<lparr>g_reread := r\<rparr>"
  by (simp add: dead_result_def dead_base_def removeNodeState_def push_bc_def Let_def split: option.split)

lemma reread_dead_step: "dead_step (g\<lparr>g_reread := r\<rparr>) d = (dead_step g d)\<lparr>g_reread := r\<rparr>"
  by (simp add: dead_step_def reread_basic reread_fuckyou reread_dead_result split: option.split)

lemma reread_suspect_result: "suspect_result (g\<lparr>g_reread := r\<rparr>) s sus = (suspect_result g s sus)\<lparr>g_reread := r\<rparr>"
  by (simp add: suspect_result_def reread_basic reread_fuckyou Let_def)

lemmas reread_commutes = reread_basic reread_fuckyou reread_alive_result reread_dead_step reread_suspect_result

lemma reread_suspectNode:
  assumes "suspectNode g s = Inr g'" "\<not> confirms g s"
  shows "suspectNode (g\<lparr>g_reread := r\<rparr>) s = Inr (g'\<lparr>g_reread := r\<rparr>)"
  using assms
  by (auto simp: suspectNode_cases confirms_def getNodeState_def getSuspicion_def rbind_Inr_iff confirm_result_def
      reread_commutes push_bc_def not_less split: option.splits prod.splits if_splits)

lemma reread_roundrobin:
  "roundrobinNode (g\<lparr>g_reread := r\<rparr>) n = (case roundrobinNode g n of (ns, g') \<Rightarrow> (ns, g'\<lparr>g_reread := r\<rparr>))"
  by (simp add: roundrobinNode_def Let_def)

lemma reread_probe: "probe (g\<lparr>g_reread := r\<rparr>) = rbind (probe g) (\<lambda>(node, g'). Inr (node, g'\<lparr>g_reread := r\<rparr>))"
proof (cases "roundrobinNode g 1")
  case (Pair ns g')
  then show ?thesis
    by (cases ns) (simp_all add: probe_def reread_roundrobin getNodeState_def of_option_def split: option.split)
qed

lemma find_in_set: "find P xs = Some x \<Longrightarrow> x \<in> set xs \<and> P x"
  by (auto simp: find_Some_iff)

lemma member_step_reread:
  assumes "um_wf (g_node_map g)" "member_step g e = Inr g'" "\<not> convicts g e"
  shows "member_step (g\<lparr>g_reread := r\<rparr>) e = Inr (g'\<lparr>g_reread := r\<rparr>)"
proof (cases e)
  case (In_state bc s)
  show ?thesis
  proof (cases "ns_State s")
    case STATE_SUSPECT
    with In_state assms(2,3) show ?thesis using reread_suspectNode[of g s g' r] by (simp add: merge_state_def)
  qed (use In_state assms in \<open>auto simp: merge_state_def aliveNode_cases deadNode_cases reread_commutes\<close>)
next
  case (In_timer i)
  with assms(2,3) show ?thesis
    by (cases "find (\<lambda>e. sus_id (snd e) = i) (entries (g_suspicions g))")
      (auto simp: timer_handler_cases find_None_iff dest: find_in_set)
next
  case In_tick
  with assms(2) show ?thesis by (auto simp: rbind_Inr_iff reread_probe)
qed (use assms reread_suspectNode in \<open>auto simp: reread_commutes\<close>)

lemma member_step_fault:
  assumes "ev_inv g" "member_step g e = Inl f"
  shows "(\<exists>i. e = In_timer i \<and> f = UseAfterFree \<and> i \<notin> (sus_id \<circ> snd) ` set (entries (g_suspicions g))) \<or>
    (g_node_num g = 0 \<and> f = BadConversion)"
proof (cases e)
  case (In_state bc st)
  have wf: "um_wf (g_node_map g)" using ev_inv_g_inv[OF assms(1)] by (simp add: g_inv_def)
  show ?thesis
    using In_state assms(2)
    by (auto simp: merge_state_def aliveNode_cases[OF wf] deadNode_cases suspectNode_cases rbind_Inl_iff
        suspicion_new_def need_confirm_def split: STATE.splits option.splits if_splits)
next
  case (In_timer i)
  with assms(2) have "f = UseAfterFree" "find (\<lambda>e. sus_id (snd e) = i) (entries (g_suspicions g)) = None"
    by (auto simp: timer_handler_cases split: option.splits)
  with In_timer show ?thesis by (force simp: find_None_iff)
next
  case (In_ping_timeout s)
  with assms(2) show ?thesis
    by (auto simp: suspectNode_cases rbind_Inl_iff suspicion_new_def need_confirm_def
        split: option.splits if_splits)
next
  case In_tick
  have "m_inv g" using assms(1) by (simp add: ev_inv_def)
  then obtain r c where "probe g = Inr (r, g\<lparr>g_cursor := c\<rparr>)" using probe_result by blast
  with In_tick assms(2) show ?thesis by simp
qed (use assms in auto)


text \<open>Member \<open>a\<close> hears of \<open>b\<close> and \<open>c\<close>, and twice that \<open>b\<close> is dead: its node count is 0 although two nodes are alive.\<close>

definition ex_drift :: "input list" where
  "ex_drift = [In_state True (ex_msg ''b'' 3 STATE_ALIVE), In_state True (ex_msg ''c'' 1 STATE_ALIVE),
     In_state True (ex_msg ''b'' 3 STATE_DEAD), In_state True (ex_msg ''b'' 3 STATE_DEAD)]"

lemma ex_drift_run:
  "case rbind (start_member ex_conf (#) 0 id) (\<lambda>g. rfold member_step g ex_drift) of Inl _ \<Rightarrow> False
   | Inr g \<Rightarrow> GetAliveNodes g = [''a'', ''c''] \<and> g_node_num g = 0 \<and>
       (case member_step g (In_state True (ex_msg ''c'' 1 STATE_SUSPECT)) of Inl f \<Rightarrow> f = BadConversion | Inr _ \<Rightarrow> False)"
  by code_simp

lemma ex_drift_states:
  obtains g0 g where "start_member ex_conf (#) 0 id = Inr g0" "rfold member_step g0 ex_drift = Inr g"
    "GetAliveNodes g = [''a'', ''c'']" "g_node_num g = 0" "ev_inv g"
    "member_step g (In_state True (ex_msg ''c'' 1 STATE_SUSPECT)) = Inl BadConversion"
proof -
  obtain g where g: "rbind (start_member ex_conf (#) 0 id) (\<lambda>g. rfold member_step g ex_drift) = Inr g"
    "GetAliveNodes g = [''a'', ''c'']" "g_node_num g = 0"
    "case member_step g (In_state True (ex_msg ''c'' 1 STATE_SUSPECT)) of Inl f \<Rightarrow> f = BadConversion | Inr _ \<Rightarrow> False"
    using ex_drift_run unfolding case_ok_iff by blast
  then obtain g0 where g0: "start_member ex_conf (#) 0 id = Inr g0" "rfold member_step g0 ex_drift = Inr g"
    by (auto simp: rbind_Inr_iff)
  have "list_all input_ok ex_drift" by (simp add: ex_drift_def)
  from start_member_D[OF order_ok_Cons g0(1)] this g0(2) have "ev_inv g" by (rule member.run_inv)
  moreover have "member_step g (In_state True (ex_msg ''c'' 1 STATE_SUSPECT)) = Inl BadConversion"
    using g(4) by (cases "member_step g (In_state True (ex_msg ''c'' 1 STATE_SUSPECT))") auto
  ultimately show thesis using that g0 g(2,3) by blast
qed


text \<open>
  \<^verbatim>\<open>node_num_\<close> does not count the alive nodes: a member that hears twice that one of two other nodes
  is dead counts 0 nodes while \<^verbatim>\<open>GetAliveNodes\<close> returns two, and the next suspicion of the remaining
  node converts the logarithm of 0.
\<close>

theorem node_num_reaches_zero:
  "\<exists>g0 g. start_member ex_conf (#) 0 id = Inr g0 \<and> rfold member_step g0 ex_drift = Inr g \<and>
    GetAliveNodes g = [''a'', ''c''] \<and> g_node_num g = 0 \<and>
    suspectNode g (ex_msg ''c'' 1 STATE_SUSPECT) = Inl BadConversion"
proof -
  obtain g0 g where "start_member ex_conf (#) 0 id = Inr g0" "rfold member_step g0 ex_drift = Inr g"
    "GetAliveNodes g = [''a'', ''c'']" "g_node_num g = 0"
    "member_step g (In_state True (ex_msg ''c'' 1 STATE_SUSPECT)) = Inl BadConversion"
    by (rule ex_drift_states)
  then show ?thesis by (auto simp: merge_state_def ex_msg_def)
qed

lemma removeNodeState_num:
  "g_node_num (removeNodeState g n) = (if n \<in> set (g_nodes g) then g_node_num g - 1 else g_node_num g)"
  using index_of_None[of n "g_nodes g" 0] by (auto simp: removeNodeState_def split: option.splits)

lemma length_removeNodeState:
  "n \<in> set (g_nodes g) \<Longrightarrow> Suc (length (g_nodes (removeNodeState g n))) = length (g_nodes g)"
proof -
  assume "n \<in> set (g_nodes g)"
  then obtain i where i: "index_of n (g_nodes g) 0 = Some i" using index_of_None by (metis not_None_eq)
  then have "i < length (g_nodes g)" using index_of_Some by fastforce
  then have "length (g_nodes g) = Suc (length (swap_pop (g_nodes g) i))"
    using arg_cong[OF mset_swap_pop, of i "g_nodes g" size] by simp
  then show ?thesis using i by (simp add: removeNodeState_def)
qed

text \<open>
  How \<^verbatim>\<open>node_num_\<close> drifts: a DEAD message that is not outdated takes it down by two when it removes an
  alive node from the list of one other than the member, and by one when the node is
  already known to be dead and the list does not change.
\<close>

theorem deadNode_counts:
  assumes "g_inv g" "getNodeState g (ns_Name d) = Some st" "\<not> ns_Dominant d < ns_Dominant st"
    "ns_Name d \<noteq> g_name g" "ns_State d = STATE_DEAD"
  shows "\<exists>g'. deadNode g d = Inr g' \<and>
    (if ns_State st = STATE_DEAD
     then g_node_num g' = g_node_num g - 1 \<and> GetAliveNodes g' = GetAliveNodes g
     else g_node_num g' = g_node_num g - 2 \<and>
          Suc (length (GetAliveNodes g')) = length (GetAliveNodes g))"
proof (cases "ns_State st = STATE_DEAD")
  case True
  with assms show ?thesis
    by (simp add: deadNode_cases dead_step_def getNodeState_def dead_base_def GetAliveNodes_def)
next
  case False
  let ?h = "(dead_base g (ns_Name d))\<lparr>g_node_map := um_set (g_node_map g) (ns_Name d) (d\<lparr>ns_Timestamp := 0\<rparr>)\<rparr>"
  have mem: "ns_Name d \<in> set (g_nodes g)"
    using assms(1,2) False by (auto simp: g_inv_def alive_names_def getNodeState_def)
  then have "g_node_num (removeNodeState ?h (ns_Name d)) = g_node_num g - 1 - 1"
    "Suc (length (g_nodes (removeNodeState ?h (ns_Name d)))) = length (g_nodes g)"
    using length_removeNodeState[of "ns_Name d" ?h] by (simp_all add: removeNodeState_num dead_base_def)
  moreover have "deadNode g d = Inr (dead_result g d)"
    using assms False by (simp add: deadNode_cases dead_step_def getNodeState_def)
  ultimately show ?thesis
    using False by (simp add: dead_result_def Let_def GetAliveNodes_def)
qed

theorem deadNode_counts_witness:
  "\<exists>g st. g_inv g \<and> getNodeState g ''b'' = Some st \<and>
    (\<exists>g'. deadNode g (ex_msg ''b'' 9 STATE_DEAD) = Inr g' \<and>
      (if ns_State st = STATE_DEAD
       then g_node_num g' = g_node_num g - 1 \<and> GetAliveNodes g' = GetAliveNodes g
       else g_node_num g' = g_node_num g - 2 \<and>
          Suc (length (GetAliveNodes g')) = length (GetAliveNodes g)))"
proof -
  obtain g0 g where g: "start_member ex_conf (#) 0 id = Inr g0" "rfold member_step g0 ex_inputs = Inr g"
    by (rule ex_run_states)
  have inv: "g_inv g"
    using start_member_D[OF order_ok_Cons g(1)] ex_inputs_ok g(2) member.run_inv ev_inv_g_inv by blast
  have "case ex_run of Inl _ \<Rightarrow> False | Inr g \<Rightarrow>
     g_name g = ''a'' \<and> (case getNodeState g ''b'' of None \<Rightarrow> False | Some st \<Rightarrow> ns_Dominant st = 4)"
    by code_simp
  with g obtain st where st: "g_name g = ''a''" "getNodeState g ''b'' = Some st" "ns_Dominant st = 4"
    by (auto simp: ex_run_def split: option.splits)
  have n: "ns_Name (ex_msg ''b'' 9 STATE_DEAD) = ''b''" "ns_Dominant (ex_msg ''b'' 9 STATE_DEAD) = 9"
    "ns_State (ex_msg ''b'' 9 STATE_DEAD) = STATE_DEAD"
    by (simp_all add: ex_msg_def)
  have "\<exists>g'. deadNode g (ex_msg ''b'' 9 STATE_DEAD) = Inr g' \<and>
      (if ns_State st = STATE_DEAD
       then g_node_num g' = g_node_num g - 1 \<and> GetAliveNodes g' = GetAliveNodes g
       else g_node_num g' = g_node_num g - 2 \<and>
          Suc (length (GetAliveNodes g')) = length (GetAliveNodes g))"
    by (rule deadNode_counts[OF inv]) (use st n in simp_all)
  with inv st show ?thesis by blast
qed

lemma objection_bound: "dominant \<noteq> - 1 \<Longrightarrow> dominant < objection g dominant"
  using word_less_add_1[of dominant] by (simp add: objection_def not_le)

lemma fuckyou_queue:
  assumes "bq_inv (g_bc_queue g)"
  shows "\<exists>x t. um_find (bq_m (g_bc_queue (fuckyou g dominant))) (g_name g) = Some (x, t) \<and>
    \<not> supersedes (self_state g (objection g dominant)) x"
proof -
  let ?d = "objection g dominant"
  have n: "ns_Name (self_state g ?d) = g_name g" by (simp add: self_state_def)
  have "map_option fst (um_find (bq_m (Push (g_bc_queue g) (self_state g ?d) (g_node_num g))) (g_name g)) =
      Some (case um_find (bq_m (g_bc_queue g)) (g_name g) of None \<Rightarrow> self_state g ?d
            | Some (old, _) \<Rightarrow> msg.keep old (self_state g ?d))"
    using assms by (simp add: Push_find bq_inv_def n)
  moreover have "\<not> supersedes (self_state g ?d) (case um_find (bq_m (g_bc_queue g)) (g_name g) of
      None \<Rightarrow> self_state g ?d | Some (old, _) \<Rightarrow> msg.keep old (self_state g ?d))"
    using msg.newer_irrefl msg.keep_not_beaten(2) by (auto split: option.splits)
  ultimately show ?thesis by (auto simp: fuckyou_eq push_bc_def)
qed

text \<open>
  (C31) An objection outbids the accusation: for every accusation except one with the largest 64-bit dominant,
  the objecting member takes a dominant above the accusation's, and the queue holds for the member's own
  name the objection or a message that it does not supersede. An accusation with the largest dominant wraps the
  objection around to 0, which no member accepts.
\<close>

theorem objection_dominates:
  "(dominant \<noteq> - 1 \<longrightarrow> dominant < g_dominant (fuckyou g dominant)) \<and>
   g_dominant (fuckyou g (- 1)) = 0 \<and>
   (bq_inv (g_bc_queue g) \<longrightarrow>
     (\<exists>x t. um_find (bq_m (g_bc_queue (fuckyou g dominant))) (g_name g) = Some (x, t) \<and>
       \<not> supersedes (self_state g (g_dominant (fuckyou g dominant))) x))"
  using fuckyou_queue[of g dominant] objection_bound[of dominant g] by (simp add: objection_def)

theorem objection_dominates_witness:
  "\<exists>g. bq_inv (g_bc_queue g) \<and> 5 < g_dominant (fuckyou g 5) \<and>
     (\<exists>x t. um_find (bq_m (g_bc_queue (fuckyou g 5))) (g_name g) = Some (x, t) \<and>
       \<not> supersedes (self_state g (g_dominant (fuckyou g 5))) x)"
proof -
  obtain g where "ev_inv g" using start_member_ev_inv[OF order_ok_Cons, of ex_conf] by blast
  then have "bq_inv (g_bc_queue g)" by (simp add: ev_inv_def m_inv_def g_inv_def bq_idle_def)
  then show ?thesis using objection_dominates[of 5 g] by auto
qed

lemma objection_accepted:
  assumes "g_inv h" "\<not> (g_is_leaving h \<and> g_name h = g_name g)" "dominant \<noteq> - 1"
    "getNodeState h (g_name g) = Some st" "ns_Dominant st \<le> dominant"
  shows "\<exists>h' st'. aliveNode h (self_state g (g_dominant (fuckyou g dominant))) need_bc = Inr h' \<and>
    getNodeState h' (g_name g) = Some st' \<and> ns_State st' = STATE_ALIVE \<and>
    g_name g \<in> set (GetAliveNodes h')"
proof -
  let ?a = "self_state g (objection g dominant)"
  have wf: "um_wf (g_node_map h)" using assms(1) by (simp add: g_inv_def)
  have "dominant < objection g dominant" using assms(3) objection_bound by blast
  then have acc: "alive_accepts h ?a"
    using assms by (auto simp: alive_accepts_def known_dominant_def getNodeState_def self_state_def)
  have al: "ns_State ?a = STATE_ALIVE" "ns_Name ?a = g_name g" by (simp_all add: self_state_def)
  have st: "getNodeState (alive_result h ?a need_bc) (g_name g) = Some (?a\<lparr>ns_Timestamp := 0\<rparr>)"
    by (simp add: getNodeState_def alive_result_fields[OF wf] al)
  have "g_inv (alive_result h ?a need_bc)" using assms(1) al(1) by (rule alive_result_inv)
  then have "g_name g \<in> set (g_nodes (alive_result h ?a need_bc))"
    using st al(1) by (simp add: g_inv_def alive_names_def getNodeState_def)
  with st al(1) aliveNode_cases[OF wf, of ?a need_bc] acc show ?thesis
    by (simp add: GetAliveNodes_def)
qed

text \<open>
  An objection revives the member elsewhere: when another member holds the accused one at a dominant
  that is not above the accusation's, it accepts the broadcast objection, marks the accused alive and
  lists it again.
\<close>

theorem objection_revives:
  assumes "g_inv h" "\<not> (g_is_leaving h \<and> g_name h = g_name g)" "dominant \<noteq> - 1"
    "getNodeState h (g_name g) = Some st" "ns_Dominant st \<le> dominant"
  shows "\<exists>h' st'. aliveNode h (self_state g (g_dominant (fuckyou g dominant))) need_bc = Inr h' \<and>
    getNodeState h' (g_name g) = Some st' \<and> ns_State st' = STATE_ALIVE \<and>
    g_name g \<in> set (GetAliveNodes h')"
  using assms by (rule objection_accepted)

theorem objection_revives_witness:
  "\<exists>g h h' st'. g_name g = ''b'' \<and>
    aliveNode h (self_state g (g_dominant (fuckyou g 7))) True = Inr h' \<and>
    getNodeState h' ''b'' = Some st' \<and> ns_State st' = STATE_ALIVE \<and> ''b'' \<in> set (GetAliveNodes h')"
proof -
  define g where "g = gossiper_new (ex_conf\<lparr>conf_Name := ''b''\<rparr>) (#) 0 id"
  have b: "g_name g = ''b''" by (simp add: g_def gossiper_new_def)
  obtain g0 h where h: "start_member ex_conf (#) 0 id = Inr g0" "rfold member_step g0 ex_inputs = Inr h"
    by (rule ex_run_states)
  have "ev_inv h" using start_member_D[OF order_ok_Cons h(1)] ex_inputs_ok h(2) by (rule member.run_inv)
  then have inv: "g_inv h" "\<not> g_is_leaving h" by (simp_all add: ev_inv_def m_inv_def)
  have "case ex_run of Inl _ \<Rightarrow> False | Inr g \<Rightarrow>
     (case getNodeState g ''b'' of None \<Rightarrow> False | Some st \<Rightarrow> ns_Dominant st = 4)"
    by code_simp
  with h obtain st where st: "getNodeState h ''b'' = Some st" "ns_Dominant st = 4"
    by (auto simp: ex_run_def split: option.splits)
  have "\<exists>h' st'. aliveNode h (self_state g (g_dominant (fuckyou g 7))) True = Inr h' \<and>
    getNodeState h' (g_name g) = Some st' \<and> ns_State st' = STATE_ALIVE \<and> g_name g \<in> set (GetAliveNodes h')"
    by (rule objection_revives[OF inv(1), of g 7 st]) (use inv st b in simp_all)
  with b show ?thesis by auto
qed

end
