(* ===== verification/Codec.thy ===== *)
theory Codec
  imports Flat_Messages Member
begin

text \<open>
  The messages of \<^verbatim>\<open>class gossiper\<close> as buffers: the statements of \<^verbatim>\<open>generatePing\<close>, \<^verbatim>\<open>appendGossipMsg\<close>,
  \<^verbatim>\<open>appendDeadAlert\<close>, \<^verbatim>\<open>encodeLocalState\<close> and the ping handlers that build a message, and those that read
  one. The order in which C++ evaluates the arguments of \<^verbatim>\<open>CreateNode\<close> is not specified; \<open>ltr\<close>
  chooses it, and the results hold for both orders.
\<close>

section \<open>Writing\<close>

definition create_node :: "bool \<Rightarrow> FlatBufferBuilder \<Rightarrow> node_state \<Rightarrow> (nat \<times> FlatBufferBuilder) result" where
  "create_node ltr b ns =
     (if ltr then
        rbind (CreateString b (ns_Name ns)) (\<lambda>(name, b).
        rbind (CreateString b (ns_IP ns)) (\<lambda>(ip, b).
        rbind (stoi (ns_Port ns)) (\<lambda>port.
          CreateNode b name ip (word_of_int port))))
      else
        rbind (stoi (ns_Port ns)) (\<lambda>port.
        rbind (CreateString b (ns_IP ns)) (\<lambda>(ip, b).
        rbind (CreateString b (ns_Name ns)) (\<lambda>(name, b).
          CreateNode b name ip (word_of_int port)))))"

definition create_node_state :: "bool \<Rightarrow> FlatBufferBuilder \<Rightarrow> node_state \<Rightarrow> (nat \<times> FlatBufferBuilder) result" where
  "create_node_state ltr b ns =
     rbind (create_node ltr b ns) (\<lambda>(n, b).
     rbind (CreateString b (ns_From ns)) (\<lambda>(frm, b).
       CreateNodeState b n (ns_State ns) (ns_Dominant ns) frm (ns_Timestamp ns)))"

fun create_node_states ::
  "bool \<Rightarrow> FlatBufferBuilder \<Rightarrow> node_state list \<Rightarrow> (nat list \<times> FlatBufferBuilder) result" where
  "create_node_states ltr b [] = Inr ([], b)"
| "create_node_states ltr b (ns # nss) =
     rbind (create_node_state ltr b ns) (\<lambda>(off, b).
     rbind (create_node_states ltr b nss) (\<lambda>(offs, b).
       Inr (off # offs, b)))"

definition finish_message :: "FlatBufferBuilder \<Rightarrow> nat \<Rightarrow> bytes result" where
  "finish_message b rt = rbind (Finish b rt) GetBufferPointer"

definition encode_states :: "bool \<Rightarrow> node_state list \<Rightarrow> bytes result" where
  "encode_states ltr nss =
     rbind (create_node_states ltr FlatBufferBuilder_new nss) (\<lambda>(offs, b).
     rbind (CreateVector b offs) (\<lambda>(v, b).
     rbind (CreateNodeStates b v) (\<lambda>(rt, b).
       finish_message b rt)))"

definition encode_state :: "bool \<Rightarrow> node_state \<Rightarrow> bytes result" where
  "encode_state ltr ns =
     rbind (create_node_state ltr FlatBufferBuilder_new ns) (\<lambda>(rt, b). finish_message b rt)"

definition encode_ping :: "u64 \<Rightarrow> string \<Rightarrow> bytes result" where
  "encode_ping seqNo name =
     rbind (CreateString FlatBufferBuilder_new name) (\<lambda>(frm, b).
     rbind (CreatePing b seqNo frm) (\<lambda>(rt, b).
       finish_message b rt))"

definition encode_pong :: "u64 \<Rightarrow> bytes result" where
  "encode_pong seqNo = rbind (CreatePong FlatBufferBuilder_new seqNo) (\<lambda>(rt, b). finish_message b rt)"

section \<open>Reading\<close>

definition decode_ping :: "bytes \<Rightarrow> nat \<Rightarrow> fb_Ping result" where
  "decode_ping mem p = rbind (GetRoot mem p) (Ping_at mem)"

definition decode_pong :: "bytes \<Rightarrow> nat \<Rightarrow> fb_Pong result" where
  "decode_pong mem p = rbind (GetRoot mem p) (Pong_at mem)"

definition decode_state :: "bytes \<Rightarrow> nat \<Rightarrow> fb_NodeState result" where
  "decode_state mem p = rbind (GetRoot mem p) (NodeState_at mem)"

section \<open>What a node state is on the wire\<close>

definition wire :: "node_state \<Rightarrow> i16 \<Rightarrow> fb_NodeState" where
  "wire ns port =
     \<lparr>fs_node = Some \<lparr>fn_name = Some (ns_Name ns), fn_ip = Some (ns_IP ns), fn_port = port\<rparr>,
      fs_state = STATE_of_i8 (state_i8 (ns_State ns)), fs_dominant = ns_Dominant ns,
      fs_from = Some (ns_From ns), fs_timeStamp = ns_Timestamp ns\<rparr>"

text \<open>
  A state that survives the wire: its strings hold no null character, its port is a printed
  \<^verbatim>\<open>short\<close>, its state is one of the three enumerators.
\<close>

definition sendable :: "node_state \<Rightarrow> bool" where
  "sendable ns \<longleftrightarrow> no_null (ns_Name ns) \<and> no_null (ns_IP ns) \<and> no_null (ns_From ns) \<and>
     (\<exists>port. ns_Port ns = port_string port) \<and> ns_State ns \<in> {STATE_ALIVE, STATE_SUSPECT, STATE_DEAD}"

definition ns_size :: "node_state \<Rightarrow> nat" where
  "ns_size ns = length (ns_Name ns) + length (ns_IP ns) + length (ns_From ns)"

definition msg_size :: "node_state list \<Rightarrow> nat" where
  "msg_size nss = sum_list (map (\<lambda>ns. ns_size ns + 180) nss)"

section \<open>The builder's side\<close>

lemma CreateString_step:
  assumes "fbb_idle b" "length (fbb_buf b) + length s + 16 \<le> max_size"
  obtains o1 b' where "CreateString b s = Inr (o1, b')" "fbb_idle b'" "grows (length s + 12) b b'" "o1 \<noteq> 0"
    "str_at (fbb_buf b') o1 s" "o1 \<le> length (fbb_buf b')"
proof -
  obtain o1 b' where c: "CreateString b s = Inr (o1, b')" "fbb_idle b'" "grows (length s + 12) b b'" "o1 \<noteq> 0"
    "str_at (fbb_buf b') o1 s"
    using CreateString_ok[OF assms] by blast
  moreover have "o1 \<le> length (fbb_buf b')" using c(5) by (auto simp: str_at_def dest: has_le)
  ultimately show thesis by (rule that)
qed

lemma grows_str: "grows k b b' \<Longrightarrow> str_at (fbb_buf b) o1 s \<Longrightarrow> str_at (fbb_buf b') o1 s"
  by (auto simp: grows_def str_at_ext)

lemma create_node_ok:
  assumes "fbb_idle b" "stoi (ns_Port ns) = Inr port"
    "length (fbb_buf b) + length (ns_Name ns) + length (ns_IP ns) + 120 \<le> max_size"
  obtains o1 b' where "create_node ltr b ns = Inr (o1, b')" "fbb_idle b'" "o1 \<noteq> 0" "o1 \<le> length (fbb_buf b')"
    "grows (length (ns_Name ns) + length (ns_IP ns) + 74) b b'"
    "node_tree (fbb_buf b') o1 (ns_Name ns) (ns_IP ns) (word_of_int port)"
proof -
  define u v where "u = (if ltr then ns_Name ns else ns_IP ns)" and "v = (if ltr then ns_IP ns else ns_Name ns)"
  have len: "length u + length v = length (ns_Name ns) + length (ns_IP ns)" by (simp add: u_def v_def)
  have room: "length (fbb_buf b) + length u + 16 \<le> max_size" using len assms(3) by linarith
  obtain i b1 where x: "CreateString b u = Inr (i, b1)" "fbb_idle b1" "grows (length u + 12) b b1" "i \<noteq> 0"
    "str_at (fbb_buf b1) i u" "i \<le> length (fbb_buf b1)"
    using CreateString_step[OF assms(1) room] .
  have room: "length (fbb_buf b1) + length v + 16 \<le> max_size" using grows_length[OF x(3)] len assms(3) by linarith
  obtain j b2 where y: "CreateString b1 v = Inr (j, b2)" "fbb_idle b2" "grows (length v + 12) b1 b2" "j \<noteq> 0"
    "str_at (fbb_buf b2) j v" "j \<le> length (fbb_buf b2)"
    using CreateString_step[OF x(2) room] .
  note g2 = grows_trans[OF x(3) y(3)] note l2 = grows_length[OF y(3)]
  define n ip where "n = (if ltr then i else j)" and "ip = (if ltr then j else i)"
  have at: "str_at (fbb_buf b2) n (ns_Name ns)" "str_at (fbb_buf b2) ip (ns_IP ns)" "n \<noteq> 0" "ip \<noteq> 0"
    "n \<le> length (fbb_buf b2)" "ip \<le> length (fbb_buf b2)"
    using grows_str[OF y(3) x(5)] x(4,6) y(4-6) l2 by (auto simp: n_def ip_def u_def v_def)
  have room: "length (fbb_buf b2) + 70 \<le> max_size" using grows_length[OF g2] len assms(3) by linarith
  obtain o1 b' where c: "CreateNode b2 n ip (word_of_int port) = Inr (o1, b')" "fbb_idle b'" "grows 50 b2 b'" "o1 \<noteq> 0"
    "o1 \<le> length (fbb_buf b')" "table_at (fbb_buf b') o1 3 (node_fields n ip (word_of_int port))"
    using CreateNode_ok[OF y(2) at(3,5,4,6) room] .
  have "create_node ltr b ns = Inr (o1, b')"
    using x(1) y(1) c(1) assms(2) by (cases ltr) (simp_all add: create_node_def n_def ip_def u_def v_def)
  moreover have "grows (length (ns_Name ns) + length (ns_IP ns) + 74) b b'"
    using grows_trans[OF g2 c(3)] len by (elim grows_mono) linarith
  moreover have "node_tree (fbb_buf b') o1 (ns_Name ns) (ns_IP ns) (word_of_int port)"
    using c(6) at(1,2) grows_str[OF c(3)] unfolding node_tree_def by blast
  ultimately show thesis using that c(2,4,5) by blast
qed

lemma create_node_state_ok:
  assumes "fbb_idle b" "stoi (ns_Port ns) = Inr port" "no_null (ns_Name ns)" "no_null (ns_IP ns)" "no_null (ns_From ns)"
    "length (fbb_buf b) + ns_size ns + 300 \<le> max_size"
  obtains o1 b' where "create_node_state ltr b ns = Inr (o1, b')" "fbb_idle b'" "o1 \<noteq> 0" "o1 \<le> length (fbb_buf b')"
    "grows (ns_size ns + 172) b b'" "state_tree (fbb_buf b') o1 (wire ns (word_of_int port))"
proof -
  have room: "length (fbb_buf b) + length (ns_Name ns) + length (ns_IP ns) + 120 \<le> max_size"
    using assms(6) by (simp add: ns_size_def)
  obtain nd b1 where x: "create_node ltr b ns = Inr (nd, b1)" "fbb_idle b1" "nd \<noteq> 0" "nd \<le> length (fbb_buf b1)"
    "grows (length (ns_Name ns) + length (ns_IP ns) + 74) b b1"
    "node_tree (fbb_buf b1) nd (ns_Name ns) (ns_IP ns) (word_of_int port)"
    using create_node_ok[OF assms(1,2) room] .
  have room: "length (fbb_buf b1) + length (ns_From ns) + 16 \<le> max_size"
    using grows_length[OF x(5)] assms(6) by (simp add: ns_size_def)
  obtain fr b2 where y: "CreateString b1 (ns_From ns) = Inr (fr, b2)" "fbb_idle b2"
    "grows (length (ns_From ns) + 12) b1 b2" "fr \<noteq> 0" "str_at (fbb_buf b2) fr (ns_From ns)" "fr \<le> length (fbb_buf b2)"
    using CreateString_step[OF x(2) room] .
  note g2 = grows_trans[OF x(5) y(3)]
  have room: "length (fbb_buf b2) + 110 \<le> max_size" using grows_length[OF g2] assms(6) by (simp add: ns_size_def)
  have nd: "nd \<le> length (fbb_buf b2)" using x(4) grows_length[OF y(3)] by simp
  obtain o1 b' where c: "CreateNodeState b2 nd (ns_State ns) (ns_Dominant ns) fr (ns_Timestamp ns) = Inr (o1, b')"
    "fbb_idle b'" "grows 86 b2 b'" "o1 \<noteq> 0" "o1 \<le> length (fbb_buf b')"
    "table_at (fbb_buf b') o1 5 (state_fields nd (ns_State ns) (ns_Dominant ns) fr (ns_Timestamp ns))"
    using CreateNodeState_ok[OF y(2) x(3) nd y(4,6) room] .
  have "node_tree (fbb_buf b') nd (ns_Name ns) (ns_IP ns) (word_of_int port)"
    using x(6) grows_trans[OF y(3) c(3)] by (auto simp: grows_def node_tree_ext)
  then have "state_tree (fbb_buf b') o1 (wire ns (word_of_int port))"
    using c(6) grows_str[OF c(3) y(5)] assms(3-5) unfolding state_tree_def wire_def by auto
  moreover have "create_node_state ltr b ns = Inr (o1, b')" using x(1) y(1) c(1) by (simp add: create_node_state_def)
  moreover have "grows (ns_size ns + 172) b b'"
    using grows_trans[OF g2 c(3)] by (elim grows_mono) (simp add: ns_size_def)
  ultimately show thesis using that c(2,4,5) by blast
qed

definition printed_port :: "node_state \<Rightarrow> i16" where
  "printed_port ns = (case stoi (ns_Port ns) of Inl _ \<Rightarrow> 0 | Inr port \<Rightarrow> word_of_int port)"

definition encodable :: "node_state \<Rightarrow> bool" where
  "encodable ns \<longleftrightarrow> is_ok (stoi (ns_Port ns)) \<and> no_null (ns_Name ns) \<and> no_null (ns_IP ns) \<and> no_null (ns_From ns)"

lemma create_node_states_ok:
  assumes "fbb_idle b" "list_all encodable nss" "length (fbb_buf b) + msg_size nss + 300 \<le> max_size"
  obtains offs b' where "create_node_states ltr b nss = Inr (offs, b')" "fbb_idle b'"
    "\<forall>off \<in> set offs. off \<noteq> 0 \<and> off \<le> length (fbb_buf b')" "grows (msg_size nss) b b'"
    "list_all2 (state_tree (fbb_buf b')) offs (map (\<lambda>ns. wire ns (printed_port ns)) nss)"
  using assms
proof (induction nss arbitrary: b thesis)
  case Nil
  then show ?case by auto
next
  case (Cons ns nss)
  have e: "encodable ns" "list_all encodable nss" using Cons.prems(3) by simp_all
  obtain port where port: "stoi (ns_Port ns) = Inr port" using e(1) by (auto simp: encodable_def is_ok_iff)
  have room: "length (fbb_buf b) + ns_size ns + 300 \<le> max_size" using Cons.prems(4) by (simp add: msg_size_def)
  obtain o1 b1 where x: "create_node_state ltr b ns = Inr (o1, b1)" "fbb_idle b1" "o1 \<noteq> 0" "o1 \<le> length (fbb_buf b1)"
    "grows (ns_size ns + 172) b b1" "state_tree (fbb_buf b1) o1 (wire ns (word_of_int port))"
    using create_node_state_ok[OF Cons.prems(2) port _ _ _ room] e(1) unfolding encodable_def by blast
  have room: "length (fbb_buf b1) + msg_size nss + 300 \<le> max_size"
    using Cons.prems(4) grows_length[OF x(5)] by (simp add: msg_size_def)
  obtain offs b' where y: "create_node_states ltr b1 nss = Inr (offs, b')" "fbb_idle b'"
    "\<forall>off \<in> set offs. off \<noteq> 0 \<and> off \<le> length (fbb_buf b')" "grows (msg_size nss) b1 b'"
    "list_all2 (state_tree (fbb_buf b')) offs (map (\<lambda>ns. wire ns (printed_port ns)) nss)"
    using Cons.IH[OF _ x(2) e(2) room] by blast
  have "state_tree (fbb_buf b') o1 (wire ns (printed_port ns))"
    using x(6) y(4) by (auto simp: grows_def state_tree_ext printed_port_def port)
  moreover have "grows (msg_size (ns # nss)) b b'"
    using grows_trans[OF x(5) y(4)] by (elim grows_mono) (simp add: msg_size_def)
  moreover have "o1 \<le> length (fbb_buf b')" using x(4) grows_length[OF y(4)] by simp
  ultimately show ?case using x(1,3) y(1-3,5) Cons.prems(1)[of "o1 # offs" b'] by simp
qed

lemma finish_message_ok:
  assumes "fbb_idle b" "rt \<noteq> 0" "rt \<le> length (fbb_buf b)" "length (fbb_buf b) + 32 \<le> max_size"
  obtains bs p where "finish_message b rt = Inr bs" "bs = p @ fbb_buf b" "length bs \<le> length (fbb_buf b) + 16"
    "holds bs (length bs) (Ref rt)"
proof -
  obtain b' where b': "Finish b rt = Inr b'" "fbb_finished b'" "grows 16 b b'"
    "holds (fbb_buf b') (length (fbb_buf b')) (Ref rt)"
    using Finish_ok[OF assms] by blast
  then have "finish_message b rt = Inr (fbb_buf b')" by (simp add: finish_message_def GetBufferPointer_def)
  moreover obtain p where "fbb_buf b' = p @ fbb_buf b" "length p \<le> 16" using b'(3) by (auto simp: grows_def)
  ultimately show thesis using that[of "fbb_buf b'" p] b'(4) grows_length[OF b'(3)] by blast
qed

lemma new_buf [simp]: "fbb_buf FlatBufferBuilder_new = []"
  by (simp add: FlatBufferBuilder_new_def)

text \<open>Where things lie in the encoded message.\<close>

lemma encode_states_layout:
  assumes "list_all encodable nss" "msg_size nss + 4 * length nss + 400 \<le> max_size"
  obtains bs rt v offs where "encode_states ltr nss = Inr bs" "length bs \<le> msg_size nss + 4 * length nss + 50"
    "holds bs (length bs) (Ref rt)" "table_at bs rt 1 [(4, Ref v)]" "vec_at bs v offs"
    "list_all2 (state_tree bs) offs (map (\<lambda>ns. wire ns (printed_port ns)) nss)" "length bs < max_size" "length offs < 2 ^ 32"
proof -
  let ?ss = "map (\<lambda>ns. wire ns (printed_port ns)) nss"
  obtain offs b1 where x: "create_node_states ltr FlatBufferBuilder_new nss = Inr (offs, b1)" "fbb_idle b1"
    "\<forall>off \<in> set offs. off \<noteq> 0 \<and> off \<le> length (fbb_buf b1)" "grows (msg_size nss) FlatBufferBuilder_new b1"
    "list_all2 (state_tree (fbb_buf b1)) offs ?ss"
    using create_node_states_ok[OF fbb_idle_new assms(1)] assms(2) by auto
  have len: "length offs = length nss" using list_all2_lengthD[OF x(5)] by simp
  note l1 = grows_length[OF x(4), simplified]
  obtain v b2 where v: "CreateVector b1 offs = Inr (v, b2)" "fbb_idle b2" "grows (4 * length offs + 12) b1 b2"
    "v \<noteq> 0" "v \<le> length (fbb_buf b2)" "vec_at (fbb_buf b2) v offs"
    using CreateVector_ok[OF x(2,3)] l1 len assms(2) by auto
  note l2 = grows_length[OF v(3)]
  have room: "length (fbb_buf b2) + 40 \<le> max_size" using l1 l2 len assms(2) by linarith
  obtain rt b3 where r: "CreateNodeStates b2 v = Inr (rt, b3)" "fbb_idle b3" "grows 22 b2 b3" "rt \<noteq> 0"
    "rt \<le> length (fbb_buf b3)" "table_at (fbb_buf b3) rt 1 [(4, Ref v)]"
    using CreateNodeStates_ok[OF v(2,4,5) room] .
  note l3 = grows_length[OF r(3)]
  have room: "length (fbb_buf b3) + 32 \<le> max_size" using l1 l2 l3 len assms(2) by linarith
  obtain bs p where f: "finish_message b3 rt = Inr bs" "bs = p @ fbb_buf b3" "length bs \<le> length (fbb_buf b3) + 16"
    "holds bs (length bs) (Ref rt)"
    using finish_message_ok[OF r(2,4,5) room] .
  have "vec_at bs v offs" using v(6) r(3) by (auto simp: f(2) grows_def vec_at_ext)
  moreover have "list_all2 (state_tree bs) offs ?ss"
  proof -
    obtain q where "bs = q @ fbb_buf b1" using v(3) r(3) f(2) by (auto simp: grows_def)
    then show ?thesis using x(5) by (auto elim!: list_all2_mono intro: state_tree_ext)
  qed
  moreover have "length bs < max_size" "length offs < 2 ^ 32"
    using f(3) l1 l2 l3 len assms(2) by (auto simp: max_size_def)
  moreover have "table_at bs rt 1 [(4, Ref v)]" using table_at_ext[OF r(6), of p] by (simp add: f(2))
  moreover have "encode_states ltr nss = Inr bs" using x(1) v(1) r(1) f(1) by (simp add: encode_states_def)
  ultimately show thesis using that f(3,4) l1 l2 l3 len by auto
qed

lemma encode_states_ok:
  assumes "list_all encodable nss" "msg_size nss + 4 * length nss + 400 \<le> max_size"
  obtains bs where "encode_states ltr nss = Inr bs" "length bs \<le> msg_size nss + 4 * length nss + 50"
    "\<And>pre post. GetNodeStates (pre @ bs @ post) (length pre) =
       Inr \<lparr>fss_nodes = Some (map (\<lambda>ns. wire ns (printed_port ns)) nss)\<rparr>"
proof (rule encode_states_layout[OF assms])
  fix bs rt v offs
  assume l: "encode_states ltr nss = Inr bs" "length bs \<le> msg_size nss + 4 * length nss + 50" "holds bs (length bs) (Ref rt)"
    "table_at bs rt 1 [(4, Ref v)]" "vec_at bs v offs"
    "list_all2 (state_tree bs) offs (map (\<lambda>ns. wire ns (printed_port ns)) nss)" "length bs < max_size" "length offs < 2 ^ 32"
  have "GetNodeStates (pre @ bs @ post) (length pre) = Inr \<lparr>fss_nodes = Some (map (\<lambda>ns. wire ns (printed_port ns)) nss)\<rparr>" for pre post
    using NodeStates_at_read[OF l(4-8)] GetRoot_holds[OF l(3)] by (simp add: GetNodeStates_def)
  then show thesis using that l(1,2) by blast
qed

lemma encode_state_ok:
  assumes "encodable ns" "ns_size ns + 400 \<le> max_size"
  obtains bs where "encode_state ltr ns = Inr bs" "length bs \<le> ns_size ns + 188"
    "\<And>pre post. decode_state (pre @ bs @ post) (length pre) = Inr (wire ns (printed_port ns))"
proof -
  obtain port where port: "stoi (ns_Port ns) = Inr port" using assms(1) by (auto simp: encodable_def is_ok_iff)
  then have pp: "printed_port ns = word_of_int port" by (simp add: printed_port_def)
  obtain rt b1 where x: "create_node_state ltr FlatBufferBuilder_new ns = Inr (rt, b1)" "fbb_idle b1" "rt \<noteq> 0"
    "rt \<le> length (fbb_buf b1)" "grows (ns_size ns + 172) FlatBufferBuilder_new b1"
    "state_tree (fbb_buf b1) rt (wire ns (word_of_int port))"
    using create_node_state_ok[OF fbb_idle_new port] assms unfolding encodable_def by auto
  note l1 = grows_length[OF x(5), simplified]
  obtain bs p where f: "finish_message b1 rt = Inr bs" "bs = p @ fbb_buf b1" "length bs \<le> length (fbb_buf b1) + 16"
    "holds bs (length bs) (Ref rt)"
    using finish_message_ok[OF x(2-4)] l1 assms(2) by auto
  have "length bs < max_size" using f(3) l1 assms(2) by linarith
  then have "decode_state (pre @ bs @ post) (length pre) = Inr (wire ns (printed_port ns))" for pre post
    using NodeState_at_read[OF state_tree_ext[OF x(6), of p], of pre post] GetRoot_holds[OF f(4), of pre post]
    by (simp add: decode_state_def f(2) pp)
  moreover have "encode_state ltr ns = Inr bs" using x(1) f(1) by (simp add: encode_state_def)
  ultimately show thesis using that f(3) l1 by auto
qed

lemma encode_ping_layout:
  assumes "no_null name" "length name + 200 \<le> max_size"
  obtains bs rt fr where "encode_ping seqNo name = Inr bs" "length bs \<le> length name + 68" "holds bs (length bs) (Ref rt)"
    "table_at bs rt 2 (ping_fields seqNo fr)" "str_at bs fr name" "length bs < max_size"
proof -
  obtain fr b1 where x: "CreateString FlatBufferBuilder_new name = Inr (fr, b1)" "fbb_idle b1"
    "grows (length name + 12) FlatBufferBuilder_new b1" "fr \<noteq> 0" "str_at (fbb_buf b1) fr name" "fr \<le> length (fbb_buf b1)"
    using CreateString_step[OF fbb_idle_new, of name] assms(2) by auto
  note l1 = grows_length[OF x(3), simplified]
  have room: "length (fbb_buf b1) + 60 \<le> max_size" using l1 assms(2) by linarith
  obtain rt b2 where y: "CreatePing b1 seqNo fr = Inr (rt, b2)" "fbb_idle b2" "grows 40 b1 b2" "rt \<noteq> 0"
    "rt \<le> length (fbb_buf b2)" "table_at (fbb_buf b2) rt 2 (ping_fields seqNo fr)"
    using CreatePing_ok[OF x(2,4,6) room] .
  note l2 = grows_length[OF y(3)]
  have room: "length (fbb_buf b2) + 32 \<le> max_size" using l1 l2 assms(2) by linarith
  obtain bs p where f: "finish_message b2 rt = Inr bs" "bs = p @ fbb_buf b2" "length bs \<le> length (fbb_buf b2) + 16"
    "holds bs (length bs) (Ref rt)"
    using finish_message_ok[OF y(2,4,5) room] .
  have "str_at bs fr name" using x(5) y(3) by (auto simp: f(2) grows_def str_at_ext)
  moreover have "length bs < max_size" using f(3) l1 l2 assms(2) by linarith
  moreover have "table_at bs rt 2 (ping_fields seqNo fr)" using table_at_ext[OF y(6), of p] by (simp add: f(2))
  moreover have "encode_ping seqNo name = Inr bs" using x(1) y(1) f(1) by (simp add: encode_ping_def)
  ultimately show thesis using that f(3,4) l1 l2 by auto
qed

lemma encode_ping_ok:
  assumes "no_null name" "length name + 200 \<le> max_size"
  obtains bs where "encode_ping seqNo name = Inr bs" "length bs \<le> length name + 68"
    "\<And>pre post. decode_ping (pre @ bs @ post) (length pre) = Inr \<lparr>pi_seqNo = seqNo, pi_from = Some name\<rparr>"
proof (rule encode_ping_layout[OF assms, of seqNo])
  fix bs rt fr
  assume l: "encode_ping seqNo name = Inr bs" "length bs \<le> length name + 68" "holds bs (length bs) (Ref rt)"
    "table_at bs rt 2 (ping_fields seqNo fr)" "str_at bs fr name" "length bs < max_size"
  have "decode_ping (pre @ bs @ post) (length pre) = Inr \<lparr>pi_seqNo = seqNo, pi_from = Some name\<rparr>" for pre post
    using Ping_at_read[OF l(4,5) assms(1) l(6)] GetRoot_holds[OF l(3)] by (simp add: decode_ping_def)
  then show thesis using that l(1,2) by blast
qed

lemma encode_pong_layout:
  obtains bs rt where "encode_pong seqNo = Inr bs" "length bs \<le> 46" "holds bs (length bs) (Ref rt)"
    "table_at bs rt 1 (scalar_field 4 seqNo)" "length bs < max_size"
proof -
  have m: "1000 \<le> max_size" by (simp add: max_size_def)
  obtain rt b1 where y: "CreatePong FlatBufferBuilder_new seqNo = Inr (rt, b1)" "fbb_idle b1" "grows 30 FlatBufferBuilder_new b1"
    "rt \<noteq> 0" "rt \<le> length (fbb_buf b1)" "table_at (fbb_buf b1) rt 1 (scalar_field 4 seqNo)"
    using CreatePong_ok[OF fbb_idle_new, of seqNo] m by auto
  note l1 = grows_length[OF y(3), simplified]
  obtain bs p where f: "finish_message b1 rt = Inr bs" "bs = p @ fbb_buf b1" "length bs \<le> length (fbb_buf b1) + 16"
    "holds bs (length bs) (Ref rt)"
    using finish_message_ok[OF y(2,4,5)] l1 m by auto
  have "length bs < max_size" using f(3) l1 m by linarith
  moreover have "table_at bs rt 1 (scalar_field 4 seqNo)" using table_at_ext[OF y(6), of p] by (simp add: f(2))
  moreover have "encode_pong seqNo = Inr bs" using y(1) f(1) by (simp add: encode_pong_def)
  ultimately show thesis using that f(3,4) l1 by auto
qed

lemma encode_pong_ok:
  obtains bs where "encode_pong seqNo = Inr bs" "length bs \<le> 46"
    "\<And>pre post. decode_pong (pre @ bs @ post) (length pre) = Inr \<lparr>po_seqNo = seqNo\<rparr>"
proof (rule encode_pong_layout[of seqNo])
  fix bs rt
  assume l: "encode_pong seqNo = Inr bs" "length bs \<le> 46" "holds bs (length bs) (Ref rt)"
    "table_at bs rt 1 (scalar_field 4 seqNo)" "length bs < max_size"
  have "decode_pong (pre @ bs @ post) (length pre) = Inr \<lparr>po_seqNo = seqNo\<rparr>" for pre post
    using Pong_at_read[OF l(4,5)] GetRoot_holds[OF l(3)] by (simp add: decode_pong_def)
  then show thesis using that l(1,2) by blast
qed

section \<open>Properties\<close>

lemma STATE_of_state_i8: "st \<in> {STATE_ALIVE, STATE_SUSPECT, STATE_DEAD} \<Longrightarrow> STATE_of_i8 (state_i8 st) = st"
  by (auto simp: STATE_of_i8_def state_i8_def)

lemma sendable_encodable: "sendable ns \<Longrightarrow> encodable ns"
  by (auto simp: sendable_def encodable_def stoi_port_string)

lemma convert_wire: "sendable ns \<Longrightarrow> convert (wire ns (printed_port ns)) = Inr ns"
  by (auto simp: sendable_def convert_def wire_def printed_port_def stoi_port_string STATE_of_state_i8)

lemma mergeStates_wire:
  assumes "list_all sendable nss"
  shows "mergeStates id g \<lparr>fss_nodes = Some (map (\<lambda>ns. wire ns (printed_port ns)) nss)\<rparr> need_bc =
    rfold (\<lambda>g. merge_state g need_bc) g nss"
proof -
  have "rfold (\<lambda>g ns. rbind (convert ns) (merge_state g need_bc)) g (map (\<lambda>ns. wire ns (printed_port ns)) nss) =
      rfold (\<lambda>g. merge_state g need_bc) g nss" for g
    using assms
  proof (induction nss arbitrary: g)
    case (Cons ns nss)
    then show ?case by (cases "merge_state g need_bc ns") (simp_all add: convert_wire)
  qed simp
  then show ?thesis by (simp add: mergeStates_def of_option_def)
qed

text \<open>
  (C21) What a member sends is what the receiver merges: encoding a list of node states always succeeds below the
  size limit of the builder, and reading the buffer back, wherever it lies in the receiver's memory, and
  merging it has the same effect as merging the original states one by one, if what \<^verbatim>\<open>convert\<close> refers to is read unchanged.
\<close>

theorem states_roundtrip:
  assumes "list_all sendable nss" "msg_size nss + 4 * length nss + 400 \<le> max_size"
  shows "\<exists>bs. encode_states ltr nss = Inr bs \<and>
    (\<forall>pre post g need_bc. rbind (GetNodeStates (pre @ bs @ post) (length pre)) (\<lambda>m. mergeStates id g m need_bc) =
       rfold (\<lambda>g. merge_state g need_bc) g nss)"
proof -
  have "list_all encodable nss" using assms(1) sendable_encodable by (auto simp: list_all_iff)
  then obtain bs where "encode_states ltr nss = Inr bs"
    "\<And>pre post. GetNodeStates (pre @ bs @ post) (length pre) =
       Inr \<lparr>fss_nodes = Some (map (\<lambda>ns. wire ns (printed_port ns)) nss)\<rparr>"
    using encode_states_ok[OF _ assms(2)] by blast
  then show ?thesis using mergeStates_wire[OF assms(1)] by (intro exI[of _ bs]) simp
qed

definition ex_states :: "node_state list" where
  "ex_states = [ex_msg ''b'' 3 STATE_ALIVE, ex_msg ''c'' 7 STATE_DEAD, ex_msg ''b'' 4 STATE_ALIVE]"

lemma ex_states_sendable: "list_all sendable ex_states"
proof -
  have "''29011'' = port_string 29011" by (simp add: port_string_def to_string_def digit_char_def nat_digits.simps char_of_def bit_simps)
  then have "\<exists>port. ''29011'' = port_string port" ..
  then show ?thesis by (simp add: ex_states_def ex_msg_def sendable_def no_null_def)
qed

theorem states_roundtrip_witness:
  "\<exists>bs. encode_states True ex_states = Inr bs \<and>
    rbind (GetNodeStates ([1, 2, 3] @ bs @ [4]) 3) (\<lambda>m. mergeStates id (gossiper_new ex_conf (#) 0 id) m True) =
    rfold (\<lambda>g. merge_state g True) (gossiper_new ex_conf (#) 0 id) ex_states"
proof -
  have "msg_size ex_states + 4 * length ex_states + 400 \<le> max_size"
    by (simp add: ex_states_def ex_msg_def msg_size_def ns_size_def max_size_def)
  from states_roundtrip[OF ex_states_sendable this, of True] obtain bs where "encode_states True ex_states = Inr bs"
    "\<forall>pre post g need_bc. rbind (GetNodeStates (pre @ bs @ post) (length pre)) (\<lambda>m. mergeStates id g m need_bc) =
       rfold (\<lambda>g. merge_state g need_bc) g ex_states"
    by blast
  moreover from this(2) have "rbind (GetNodeStates ([1, 2, 3] @ bs @ [4]) (length ([1, 2, 3] :: bytes)))
      (\<lambda>m. mergeStates id (gossiper_new ex_conf (#) 0 id) m True) =
    rfold (\<lambda>g. merge_state g True) (gossiper_new ex_conf (#) 0 id) ex_states" by blast
  ultimately show ?thesis by (intro exI[of _ bs] conjI) (simp_all add: numeral_3_eq_3)
qed

text \<open>
  Pings and pongs keep their sequence number and sender: both encode without a fault, and are read back
  the same, in particular for the sequence number 0, which the builder does not store.
\<close>

theorem ping_pong_roundtrip:
  assumes "no_null name" "length name + 200 \<le> max_size"
  shows "\<exists>ping pong. encode_ping seqNo name = Inr ping \<and> encode_pong seqNo = Inr pong \<and> length pong \<le> 46 \<and>
    (\<forall>pre post. decode_ping (pre @ ping @ post) (length pre) = Inr \<lparr>pi_seqNo = seqNo, pi_from = Some name\<rparr> \<and>
       decode_pong (pre @ pong @ post) (length pre) = Inr \<lparr>po_seqNo = seqNo\<rparr>)"
  using encode_ping_ok[OF assms, of seqNo] encode_pong_ok[of seqNo] by metis

theorem ping_pong_roundtrip_witness:
  "\<exists>ping pong. encode_ping 0 ''10.0.0.1:7'' = Inr ping \<and> encode_pong 0 = Inr pong \<and>
    decode_ping ping 0 = Inr \<lparr>pi_seqNo = 0, pi_from = Some ''10.0.0.1:7''\<rparr> \<and> decode_pong pong 0 = Inr \<lparr>po_seqNo = 0\<rparr>"
proof -
  have "no_null ''10.0.0.1:7''" "length ''10.0.0.1:7'' + 200 \<le> max_size" by (simp_all add: no_null_def max_size_def)
  from ping_pong_roundtrip[OF this, of 0] obtain ping pong where
    "encode_ping 0 ''10.0.0.1:7'' = Inr ping" "encode_pong 0 = Inr pong"
    "\<forall>pre post. decode_ping (pre @ ping @ post) (length pre) = Inr \<lparr>pi_seqNo = 0, pi_from = Some ''10.0.0.1:7''\<rparr> \<and>
       decode_pong (pre @ pong @ post) (length pre) = Inr \<lparr>po_seqNo = 0\<rparr>"
    by blast
  then show ?thesis using append_Nil append_Nil2 list.size(3) by metis
qed

end
