(* ===== verification/Detection.thy ===== *)
theory Detection
  imports Member
begin

text \<open>
  Failure detection by one member: the round robin order of probes, what an expired ping does,
  repeated messages, and the life of suspicion objects and their timer handlers.
\<close>

section \<open>Round robin\<close>

text \<open>\<open>n\<close> calls of \<^verbatim>\<open>roundrobinNode(1)\<close>, as \<^verbatim>\<open>probe\<close> makes them.\<close>

fun rr_run :: "nat \<Rightarrow> gossiper \<Rightarrow> string list \<times> gossiper" where
  "rr_run 0 g = ([], g)"
| "rr_run (Suc n) g =
     (let (xs, g1) = roundrobinNode g 1; (ys, g2) = rr_run n g1 in (xs @ ys, g2))"

lemma roundrobinNode_one:
  assumes "g_nodes g \<noteq> []"
  shows "fst (roundrobinNode g 1) = [g_nodes g ! (g_cursor g mod length (g_nodes g))]"
    and "g_nodes (snd (roundrobinNode g 1)) = g_nodes g"
    and "g_cursor (snd (roundrobinNode g 1)) mod length (g_nodes g) =
      Suc (g_cursor g) mod length (g_nodes g)"
proof -
  have "length (g_nodes g) = 1 \<or> 1 < length (g_nodes g)" using assms by (cases "g_nodes g") auto
  then show "fst (roundrobinNode g 1) = [g_nodes g ! (g_cursor g mod length (g_nodes g))]"
    and "g_nodes (snd (roundrobinNode g 1)) = g_nodes g"
    and "g_cursor (snd (roundrobinNode g 1)) mod length (g_nodes g) =
      Suc (g_cursor g) mod length (g_nodes g)"
    by (auto simp: roundrobinNode_def Let_def length_Suc_conv mod_Suc_eq)
qed

lemma rr_run_nth:
  assumes "g_nodes g \<noteq> []"
  shows "fst (rr_run k g) = map (\<lambda>i. g_nodes g ! ((g_cursor g + i) mod length (g_nodes g))) [0..<k]"
  using assms
proof (induction k arbitrary: g)
  case (Suc k)
  let ?g1 = "snd (roundrobinNode g 1)" and ?n = "length (g_nodes g)"
  note rr = roundrobinNode_one[OF Suc.prems]
  have "(g_cursor ?g1 + i) mod ?n = (g_cursor g + Suc i) mod ?n" for i
  proof -
    have "(g_cursor ?g1 + i) mod ?n = (g_cursor ?g1 mod ?n + i) mod ?n" by (simp add: mod_add_left_eq)
    also have "\<dots> = (Suc (g_cursor g) + i) mod ?n" by (simp only: rr(3) mod_add_left_eq)
    also have "\<dots> = (g_cursor g + Suc i) mod ?n" by simp
    finally show ?thesis .
  qed
  then have "fst (rr_run k ?g1) = map (\<lambda>i. g_nodes g ! ((g_cursor g + Suc i) mod ?n)) [0..<k]"
    using Suc.IH[of ?g1] rr(2) Suc.prems by simp
  moreover have "fst (rr_run (Suc k) g) = fst (roundrobinNode g 1) @ fst (rr_run k ?g1)"
    by (simp add: Let_def split: prod.splits)
  ultimately show ?case
    using rr(1) by (simp add: map_upt_Suc del: upt_Suc rr_run.simps)
qed simp

lemma mset_rotate: "mset (rotate n xs) = mset xs"
  by (simp add: rotate_drop_take) (metis append_take_drop_id mset_append union_commute)

lemma rr_run_rotate: "g_nodes g \<noteq> [] \<Longrightarrow> fst (rr_run (length (g_nodes g)) g) = rotate (g_cursor g) (g_nodes g)"
  by (rule nth_equalityI) (simp_all add: rr_run_nth nth_rotate)

text \<open>
  (C30) Probing is fair: while the membership does not change, as many consecutive round robin picks as
  there are nodes pick every node exactly once, in the order of the list from the cursor on.
\<close>

theorem roundrobin_visits_all:
  assumes "g_nodes g \<noteq> []"
  shows "fst (rr_run (length (g_nodes g)) g) = rotate (g_cursor g) (g_nodes g) \<and>
    mset (fst (rr_run (length (g_nodes g)) g)) = mset (GetAliveNodes g)"
  using rr_run_rotate[OF assms] by (simp add: GetAliveNodes_def mset_rotate)

theorem roundrobin_visits_all_witness:
  "fst (rr_run (length [''a'', ''b'', ''c''])
      ((gossiper_new ex_conf (#) 0 id)\<lparr>g_nodes := [''a'', ''b'', ''c''], g_cursor := 4\<rparr>)) = [''b'', ''c'', ''a'']"
  using roundrobin_visits_all[of "(gossiper_new ex_conf (#) 0 id)\<lparr>g_nodes := [''a'', ''b'', ''c''], g_cursor := 4\<rparr>"]
  by (simp add: rotate_drop_take)

section \<open>Repeated messages\<close>

lemma dead_step_again:
  assumes "g_inv g" "ns_State m = STATE_DEAD"
  shows "g_node_map (dead_step (dead_step g m) m) = g_node_map (dead_step g m)"
    and "g_nodes (dead_step (dead_step g m) m) = g_nodes (dead_step g m)"
    and "g_events (dead_step (dead_step g m) m) = g_events (dead_step g m)"
proof -
  let ?same = "\<lambda>f. f (dead_step (dead_step g m) m) = f (dead_step g m)"
  have wf: "um_wf (g_node_map g)" and ds: "distinct (g_nodes g)" using assms(1) by (simp_all add: g_inv_def)
  have "?same g_node_map \<and> ?same g_nodes \<and> ?same g_events"
  proof (cases "dead_step g m = dead_result g m")
    case True
    have "g_find (dead_step g m) (ns_Name m) = Some (m\<lparr>ns_Timestamp := 0\<rparr>)"
      by (simp add: True dead_result_fields(1)[OF wf ds])
    then have "dead_step (dead_step g m) m = dead_base (dead_step g m) (ns_Name m)"
      using assms(2) by (subst dead_step_def) simp
    then show ?thesis by (simp add: dead_base_def)
  next
    case False
    let ?b = "dead_base g (ns_Name m)" and ?f = "fuckyou (dead_base g (ns_Name m)) (ns_Dominant m)"
    consider "dead_step g m = g" | (base) st where "dead_step g m = ?b" "g_find g (ns_Name m) = Some st"
        "\<not> ns_Dominant m < ns_Dominant st" "ns_State st = STATE_DEAD"
      | (object) st where "dead_step g m = ?f" "g_find g (ns_Name m) = Some st"
        "\<not> ns_Dominant m < ns_Dominant st" "ns_State st \<noteq> STATE_DEAD" "ns_Name m = g_name g" "\<not> g_is_leaving g"
      using False by (auto simp: dead_step_def split: option.splits if_splits)
    then show ?thesis
    proof cases
      case base
      then have "dead_step ?b m = dead_base ?b (ns_Name m)" by (simp add: dead_step_def member_frame)
      then show ?thesis by (simp add: base(1) member_frame)
    next
      case object
      then have "dead_step ?f m = fuckyou (dead_base ?f (ns_Name m)) (ns_Dominant m)"
        by (simp add: dead_step_def member_frame)
      then show ?thesis by (simp add: object(1) member_frame)
    qed simp
  qed
  then show "?same g_node_map" "?same g_nodes" "?same g_events" by simp_all
qed

text \<open>
  Receiving an ALIVE or DEAD message again changes nothing of the membership: the table, the node list
  and the notifications after the second delivery are those after the first.
\<close>

theorem merge_state_idempotent:
  assumes "g_inv g" "ns_State m \<in> {STATE_ALIVE, STATE_DEAD}"
    "merge_state g need_bc m = Inr g1" "merge_state g1 need_bc' m = Inr g2"
  shows "g_node_map g2 = g_node_map g1 \<and> GetAliveNodes g2 = GetAliveNodes g1 \<and> g_events g2 = g_events g1"
proof (cases "ns_State m = STATE_ALIVE")
  case True
  have wf: "um_wf (g_node_map g)" using assms(1) by (simp add: g_inv_def)
  have g1: "g1 = (if alive_accepts g m then alive_result g m need_bc else g)"
    using assms(3) True by (simp add: merge_state_def aliveNode_cases[OF wf])
  then have "\<not> alive_accepts g1 m" 
    using alive_result_fields(1,7)[OF wf, of m need_bc]
    by (auto simp: alive_accepts_def known_dominant_def)
  moreover have "um_wf (g_node_map g1)" using g1 wf alive_result_fields(4) by simp
  ultimately have "g2 = g1" using assms(4) True by (simp add: merge_state_def aliveNode_cases)
  then show ?thesis by simp
next
  case False
  then have d: "ns_State m = STATE_DEAD" using assms(2) by simp
  then have "g1 = dead_step g m" "g2 = dead_step g1 m"
    using assms(3,4) by (simp_all add: merge_state_def deadNode_cases)
  then show ?thesis using dead_step_again[OF assms(1) d] by (simp add: GetAliveNodes_def)
qed

theorem merge_state_idempotent_witness:
  "\<exists>g g1 g2. merge_state g True (ex_msg ''c'' 1 STATE_DEAD) = Inr g1 \<and>
    merge_state g1 True (ex_msg ''c'' 1 STATE_DEAD) = Inr g2 \<and>
    GetAliveNodes g = [''a'', ''c''] \<and> GetAliveNodes g2 = GetAliveNodes g1"
proof -
  let ?m = "ex_msg ''c'' 1 STATE_DEAD"
  obtain g where g: "GetAliveNodes g = [''a'', ''c'']" "ev_inv g" using ex_drift_states .
  have dead: "ns_State ?m \<in> {STATE_ALIVE, STATE_DEAD}" by (simp add: ex_msg_def)
  obtain g1 g2 where r: "merge_state g True ?m = Inr g1" "merge_state g1 True ?m = Inr g2"
    by (simp add: merge_state_def deadNode_cases ex_msg_def)
  from merge_state_idempotent[OF ev_inv_g_inv[OF g(2)] dead r] r g(1) show ?thesis by blast
qed

section \<open>Suspicion objects\<close>

text \<open>Every suspicion object held has an id of its own, given out before.\<close>

definition ids_inv :: "gossiper \<Rightarrow> bool" where
  "ids_inv g \<longleftrightarrow>
     (\<forall>n sus. um_find (g_suspicions g) n = Some sus \<longrightarrow> sus_id sus < g_next_id g) \<and>
     (\<forall>n sus n' sus'. um_find (g_suspicions g) n = Some sus \<and> um_find (g_suspicions g) n' = Some sus' \<and>
        sus_id sus = sus_id sus' \<longrightarrow> n = n')"

definition sus_inv_all :: "gossiper \<Rightarrow> bool" where
  "sus_inv_all g \<longleftrightarrow> ev_inv g \<and> ids_inv g"

lemma ids_inv_mono:
  assumes "ids_inv g" "g_next_id g \<le> g_next_id g'"
    "\<And>n sus'. um_find (g_suspicions g') n = Some sus' \<Longrightarrow>
       \<exists>sus. um_find (g_suspicions g) n = Some sus \<and> sus_id sus = sus_id sus'"
  shows "ids_inv g'"
  unfolding ids_inv_def
proof (intro conjI allI impI)
  fix n sus assume "um_find (g_suspicions g') n = Some sus"
  from assms(3)[OF this] show "sus_id sus < g_next_id g'"
    using assms(1,2) unfolding ids_inv_def by (metis order_less_le_trans)
next
  fix n sus n' sus'
  assume "um_find (g_suspicions g') n = Some sus \<and> um_find (g_suspicions g') n' = Some sus' \<and> sus_id sus = sus_id sus'"
  with assms(3) obtain u u' where "um_find (g_suspicions g) n = Some u" "um_find (g_suspicions g) n' = Some u'"
    "sus_id u = sus_id u'" by metis
  then show "n = n'" using assms(1) unfolding ids_inv_def by blast
qed

lemma ids_inv_new:
  assumes "ids_inv g" "um_wf (g_suspicions g)" "sus_id sus = g_next_id g"
    "g_suspicions g' = um_set (g_suspicions g) n sus" "g_next_id g' = Suc (g_next_id g)"
  shows "ids_inv g'"
proof -
  have "sus_id u \<noteq> g_next_id g" if "um_find (g_suspicions g) k = Some u" for k u
    using assms(1) that unfolding ids_inv_def by (metis less_irrefl)
  then show ?thesis
    using assms(1,3) unfolding ids_inv_def assms(4,5) um.find_put[OF assms(2)]
    by (auto simp: less_Suc_eq split: if_splits) (metis+)
qed

lemma find_sus:
  assumes "um_wf (g_suspicions g)"
  shows "find (\<lambda>e. sus_id (snd e) = i) (entries (g_suspicions g)) = None \<longleftrightarrow>
    (\<forall>n sus. um_find (g_suspicions g) n = Some sus \<longrightarrow> sus_id sus \<noteq> i)"
proof -
  have "(n, sus) \<in> set (entries (g_suspicions g)) \<longleftrightarrow> um_find (g_suspicions g) n = Some sus" for n sus
    using assms by (simp add: um_wf_def um_keys_def um_find_def)
  then show ?thesis by (fastforce simp: find_None_iff)
qed

lemma ids_inv_frame:
  "ids_inv g \<Longrightarrow> g_suspicions g' = g_suspicions g \<Longrightarrow> g_next_id g' = g_next_id g \<Longrightarrow> ids_inv g'"
  by (rule ids_inv_mono) auto

lemma ids_inv_erase:
  assumes "ids_inv g" "um_wf (g_suspicions g)"
    "g_suspicions g' = um_erase (g_suspicions g) n" "g_next_id g' = g_next_id g"
  shows "ids_inv g'"
  using assms(1) by (rule ids_inv_mono) (auto simp: assms(3,4) um.find_erase[OF assms(2)] split: if_splits)

lemma next_id_frame:
  "g_next_id (dead_result g d) = g_next_id g" "g_next_id (alive_result g a bc) = g_next_id g"
  "g_waits (alive_result g a bc) = g_waits g"
  by (simp_all add: dead_result_def alive_result_def addNodeState_def dead_base_def Let_def)

lemma dead_step_ids_inv:
  assumes "ids_inv g" "g_inv g"
  shows "ids_inv (dead_step g d)"
proof -
  have wf: "um_wf (g_suspicions g)" "um_wf (g_node_map g)" "distinct (g_nodes g)"
    using assms(2) by (simp_all add: g_inv_def)
  have b: "ids_inv (dead_base g (ns_Name d))"
    by (rule ids_inv_erase[OF assms(1) wf(1)]) (simp_all add: dead_base_def)
  have r: "ids_inv (dead_result g d)"
    by (rule ids_inv_erase[OF assms(1) wf(1) dead_result_fields(4)[OF wf(2,3)]]) (simp add: next_id_frame)
  have f: "ids_inv (fuckyou (dead_base g (ns_Name d)) (ns_Dominant d))"
    by (rule ids_inv_frame[OF b]) simp_all
  show ?thesis by (rule dead_step_induct) (rule assms(1) b f r)+
qed

lemma suspectNode_ids_inv:
  assumes "ids_inv g" "g_inv g" "suspectNode g s = Inr g'"
  shows "ids_inv g'"
proof -
  have wf: "um_wf (g_suspicions g)" using assms(2) by (simp add: g_inv_def)
  have c: "ids_inv (confirm_result g s sus)" if "um_find (g_suspicions g) (ns_Name s) = Some sus" for sus
  proof -
    obtain conv sus' where cf: "Confirm sus (ns_From s) = (conv, sus')" by fastforce
    let ?g1 = "g\<lparr>g_suspicions := um_set (g_suspicions g) (ns_Name s) sus'\<rparr>"
    have id: "sus_id sus' = sus_id sus" using Confirm_frame[of sus "ns_From s"] cf by simp
    have 1: "ids_inv ?g1"
      using assms(1) by (rule ids_inv_mono) (auto simp: um.find_put[OF wf] that id split: if_splits)
    moreover have "g_inv ?g1"
      using assms(2) by (rule g_inv_frame) (use assms(2) in \<open>simp_all add: g_inv_def um.wf_put\<close>)
    moreover have "ids_inv (push_bc ?g1 s)" by (rule ids_inv_frame[OF 1]) simp_all
    ultimately show ?thesis by (simp add: confirm_result_def cf Let_def dead_step_ids_inv)
  qed
  have r: "ids_inv (suspect_result g s sus)" if "suspicion_new (g_next_id g) (g_node_num g) s = Inr sus" for sus
    using that by (intro ids_inv_new[OF assms(1) wf, of sus _ "ns_Name s"])
      (auto simp: suspect_result_def Let_def suspicion_new_def rbind_Inr_iff)
  show ?thesis
    using assms(1,3) c r by (auto simp: suspectNode_cases rbind_Inr_iff split: option.splits if_splits)
qed

lemma member_step_ids_inv:
  assumes "sus_inv_all g" "input_ok e" "member_step g e = Inr g'"
  shows "sus_inv_all g'"
proof -
  have ev: "ev_inv g" and ids: "ids_inv g" using assms(1) by (simp_all add: sus_inv_all_def)
  have inv: "g_inv g" using ev by (rule ev_inv_g_inv)
  then have wf: "um_wf (g_node_map g)" "um_wf (g_suspicions g)" by (simp_all add: g_inv_def)
  have al: "ids_inv (alive_result g a bc)" for a bc
    by (rule ids_inv_erase[OF ids wf(2) alive_result_fields(3)[OF wf(1)]]) (simp add: next_id_frame)
  have fr: "ids_inv (g\<lparr>g_waits := w\<rparr>)" "ids_inv (g\<lparr>g_cursor := c\<rparr>)" "ids_inv (fuckyou g d)"
    "g_inv (g\<lparr>g_waits := w\<rparr>)" for w c d
    using inv by (auto intro: ids_inv_frame[OF ids] simp: g_inv_def)
  have "ids_inv g'"
  proof (cases e)
    case (In_state bc st)
    with assms(3) ids show ?thesis
      by (auto simp: merge_state_def aliveNode_cases[OF wf(1)] deadNode_cases al inv dead_step_ids_inv[OF ids]
          intro: suspectNode_ids_inv[OF ids inv] split: STATE.splits if_splits)
  next
    case In_tick
    have "m_inv g" using ev by (simp add: ev_inv_def)
    then obtain r c where "probe g = Inr (r, g\<lparr>g_cursor := c\<rparr>)" using probe_result by blast
    with In_tick assms(3) fr show ?thesis by auto
  qed (use assms(3) fr dead_step_ids_inv in
      \<open>auto simp: timer_handler_cases intro: suspectNode_ids_inv[OF ids inv] split: option.splits\<close>)
  moreover have "ev_inv g'" using ev assms(2,3) by (rule member_step_ev_inv)
  ultimately show ?thesis by (simp add: sus_inv_all_def)
qed

interpretation detection: fallible_machine member_step sus_inv_all input_ok
  by standard (rule member_step_ids_inv)

lemma start_member_ids:
  assumes "order_ok ord" "start_member conf ord indet reread = Inr g"
  shows "sus_inv_all g"
proof -
  let ?g = "snd (nextDominant (RegisterNotifier (gossiper_new conf ord indet reread) True True) 1)"
  have wf: "um_wf (g_node_map ?g)" "um_wf (g_suspicions ?g)" "entries (g_suspicions ?g) = []"
    using assms(1)
    by (simp_all add: nextDominant_def RegisterNotifier_def gossiper_new_def um_wf_def um_empty_def um_keys_def)
  have "ids_inv ?g" using wf(3) by (simp add: ids_inv_def um_find_def)
  then have "ids_inv (alive_result ?g a bc)" for a bc
    by (rule ids_inv_erase[OF _ wf(2) alive_result_fields(3)[OF wf(1)]]) (simp add: next_id_frame)
  moreover obtain a where "aliveNode ?g a False = Inr g"
    using assms(2) by (auto simp: start_member_def join_self_def split: prod.splits)
  ultimately have "ids_inv g"
    using \<open>ids_inv ?g\<close> unfolding aliveNode_cases[OF wf(1)] by (auto split: if_splits)
  then show ?thesis using start_member_D[OF assms] by (simp add: sus_inv_all_def)
qed

text \<open>
  (C36) Clearing a suspicion leaves its timer handler dangling. In every run: when a member that holds a suspicion of a
  node accepts an ALIVE message about it, the suspicion object is destroyed, the handler its
  timer was given stays queued, and running that handler (which asio does with an error code that
  the handler ignores) uses the destroyed object.
\<close>

theorem cleared_suspicion_dangles:
  assumes "order_ok ord" "start_member conf ord indet reread = Inr g0" "list_all input_ok ins"
    "rfold member_step g0 ins = Inr g" "getSuspicion g (ns_Name a) = Some sus" "sus_id sus \<in> set (g_waits g)"
    "ns_State a = STATE_ALIVE" "alive_accepts g a" "merge_state g need_bc a = Inr g'"
  shows "getSuspicion g' (ns_Name a) = None \<and> sus_id sus \<in> set (g_waits g') \<and>
    member_step g' (In_timer (sus_id sus)) = Inl UseAfterFree"
proof -
  have all: "sus_inv_all g"
    using start_member_ids[OF assms(1,2)] assms(3,4) by (rule detection.run_inv)
  then have inv: "g_inv g" and ids: "ids_inv g" by (simp_all add: sus_inv_all_def ev_inv_g_inv)
  then have wf: "um_wf (g_node_map g)" "um_wf (g_suspicions g)" by (simp_all add: g_inv_def)
  have g': "g' = alive_result g a need_bc"
    using assms(7-9) by (simp add: merge_state_def aliveNode_cases[OF wf(1)])
  then have s: "g_suspicions g' = um_erase (g_suspicions g) (ns_Name a)"
    by (simp add: alive_result_fields(3)[OF wf(1)])
  have "sus_id u \<noteq> sus_id sus" if "um_find (g_suspicions g') n = Some u" for n u
    using that ids assms(5) unfolding s um.find_erase[OF wf(2)] ids_inv_def getSuspicion_def
    by (auto split: if_splits)
  then have "find (\<lambda>e. sus_id (snd e) = sus_id sus) (entries (g_suspicions g')) = None"
    using find_sus[of g'] by (simp add: s um.wf_erase[OF wf(2)])
  then show ?thesis
    using assms(6) by (simp add: timer_handler_def g' next_id_frame)
      (simp add: getSuspicion_def alive_result_fields(3)[OF wf(1)] um.find_erase[OF wf(2)])
qed

definition ex_suspect :: "input list" where
  "ex_suspect = [In_state True (ex_msg ''b'' 3 STATE_ALIVE), In_state True (ex_msg ''b'' 3 STATE_SUSPECT)]"

lemma ex_suspect_run:
  "case rbind (start_member ex_conf (#) 0 id) (\<lambda>g. rfold member_step g ex_suspect) of Inl _ \<Rightarrow> False
   | Inr g \<Rightarrow> (case getSuspicion g ''b'' of None \<Rightarrow> False | Some sus \<Rightarrow> sus_id sus = 0) \<and> g_waits g = [0] \<and>
       alive_accepts g (ex_msg ''b'' 4 STATE_ALIVE) \<and> is_ok (merge_state g True (ex_msg ''b'' 4 STATE_ALIVE))"
  by code_simp

theorem cleared_suspicion_dangles_witness:
  "\<exists>g0 g g'. start_member ex_conf (#) 0 id = Inr g0 \<and> rfold member_step g0 ex_suspect = Inr g \<and>
    merge_state g True (ex_msg ''b'' 4 STATE_ALIVE) = Inr g' \<and> member_step g' (In_timer 0) = Inl UseAfterFree"
proof -
  let ?a = "ex_msg ''b'' 4 STATE_ALIVE"
  obtain g0 g sus g' where g: "start_member ex_conf (#) 0 id = Inr g0" "rfold member_step g0 ex_suspect = Inr g"
    "getSuspicion g ''b'' = Some sus" "sus_id sus = 0" "g_waits g = [0]" "alive_accepts g ?a"
    "merge_state g True ?a = Inr g'"
    using ex_suspect_run unfolding case_ok_iff is_ok_def
    by (auto simp: rbind_Inr_iff split: option.splits)
  have "list_all input_ok ex_suspect" by (simp add: ex_suspect_def)
  moreover have "getSuspicion g (ns_Name ?a) = Some sus" "sus_id sus \<in> set (g_waits g)" "ns_State ?a = STATE_ALIVE"
    using g by (simp_all add: ex_msg_def)
  ultimately show ?thesis
    using cleared_suspicion_dangles[OF order_ok_Cons g(1) _ g(2) _ _ _ g(6,7), of sus] g by auto
qed

section \<open>Where SUSPECT messages come from\<close>

text \<open>
  A member passes on the states in its table (state synchronisation, dead alerts) and in its broadcast
  queue (gossip). \<open>unsuspecting\<close>: none of them says SUSPECT.
\<close>

definition quiet_table :: "gossiper \<Rightarrow> bool" where
  "quiet_table g \<longleftrightarrow> (\<forall>n st. g_find g n = Some st \<longrightarrow> ns_State st \<noteq> STATE_SUSPECT)"

definition quiet_queue :: "gossiper \<Rightarrow> bool" where
  "quiet_queue g \<longleftrightarrow>
     (\<forall>n st c. um_find (bq_m (g_bc_queue g)) n = Some (st, c) \<longrightarrow> ns_State st \<noteq> STATE_SUSPECT)"

definition unsuspecting :: "gossiper \<Rightarrow> bool" where
  "unsuspecting g \<longleftrightarrow> ev_inv g \<and> quiet_table g \<and> quiet_queue g"

fun carries_suspect :: "input \<Rightarrow> bool" where
  "carries_suspect (In_state _ st) \<longleftrightarrow> ns_State st = STATE_SUSPECT"
| "carries_suspect _ \<longleftrightarrow> False"

lemma push_bc_quiet:
  assumes "quiet_queue g" "bq_idle (g_bc_queue g)" "ns_State m \<noteq> STATE_SUSPECT"
  shows "quiet_queue (push_bc g m)"
proof -
  have "um_wf (bq_m (g_bc_queue g))" using assms(2) by (simp add: bq_idle_def bq_inv_def)
  from um.find_put[OF this] assms(1,3) show ?thesis
    by (auto simp: quiet_queue_def push_bc_def Push_bq split: option.splits prod.splits if_splits)
qed

lemma quiet_fields [simp]:
  "quiet_queue (g\<lparr>g_suspicions := s\<rparr>) = quiet_queue g" "quiet_queue (g\<lparr>g_node_num := n\<rparr>) = quiet_queue g"
  "quiet_queue (g\<lparr>g_dominant := d\<rparr>) = quiet_queue g" "quiet_queue (g\<lparr>g_node_map := m\<rparr>) = quiet_queue g"
  "quiet_queue (g\<lparr>g_waits := w\<rparr>) = quiet_queue g" "quiet_queue (g\<lparr>g_cursor := c\<rparr>) = quiet_queue g"
  "quiet_queue (g\<lparr>g_events := es\<rparr>) = quiet_queue g" "quiet_queue (g\<lparr>g_nodes := ns\<rparr>) = quiet_queue g"
  "quiet_queue (g\<lparr>g_next_id := i\<rparr>) = quiet_queue g"
  "quiet_queue (dead_base g name) = quiet_queue g"
  by (simp_all add: quiet_queue_def dead_base_def)

lemma fuckyou_quiet: "quiet_queue g \<Longrightarrow> bq_idle (g_bc_queue g) \<Longrightarrow> quiet_queue (fuckyou g d)"
  unfolding fuckyou_eq by (intro push_bc_quiet) (simp_all add: self_state_def)

lemma removeNodeState_queue: "g_bc_queue (removeNodeState g n) = g_bc_queue g"
  by (simp add: removeNodeState_def split: option.split)

lemma alive_result_quiet:
  assumes "quiet_queue g" "bq_idle (g_bc_queue g)" "ns_State a = STATE_ALIVE"
  shows "quiet_queue (alive_result g a bc)"
  using assms by (simp add: alive_result_def Let_def addNodeState_def push_bc_quiet)

lemma dead_result_quiet:
  assumes "quiet_queue g" "bq_idle (g_bc_queue g)" "ns_State d = STATE_DEAD"
  shows "quiet_queue (dead_result g d)"
proof -
  let ?g = "removeNodeState ((dead_base g (ns_Name d))\<lparr>g_node_map :=
      um_set (g_node_map g) (ns_Name d) (d\<lparr>ns_Timestamp := 0\<rparr>)\<rparr>) (ns_Name d)"
  have "g_bc_queue ?g = g_bc_queue g" by (simp add: removeNodeState_queue dead_base_def)
  then have "quiet_queue (push_bc ?g d)"
    using assms by (intro push_bc_quiet) (simp_all add: quiet_queue_def)
  then show ?thesis by (simp add: dead_result_def Let_def)
qed

lemma dead_step_unsuspecting:
  assumes "unsuspecting g" "ns_State d = STATE_DEAD"
  shows "unsuspecting (dead_step g d)"
proof -
  have ev: "ev_inv g" and q: "quiet_table g" "quiet_queue g" using assms(1) by (simp_all add: unsuspecting_def)
  then have w: "um_wf (g_node_map g)" "distinct (g_nodes g)" "bq_idle (g_bc_queue g)"
    using ev_inv_g_inv by (auto simp: g_inv_def)
  have "quiet_table (dead_step g d) \<and> quiet_queue (dead_step g d)"
  proof (rule dead_step_induct)
    show "quiet_table (fuckyou (dead_base g (ns_Name d)) (ns_Dominant d)) \<and>
        quiet_queue (fuckyou (dead_base g (ns_Name d)) (ns_Dominant d))"
      using q w by (simp add: fuckyou_quiet quiet_table_def dead_base_def)
    show "quiet_table (dead_result g d) \<and> quiet_queue (dead_result g d)"
      using q w assms(2) by (simp add: dead_result_quiet quiet_table_def dead_result_fields(1))
  qed (use q in \<open>simp_all add: quiet_table_def dead_base_def\<close>)
  then show ?thesis using dead_step_ev_inv[OF ev assms(2)] by (simp add: unsuspecting_def)
qed

lemma suspectNode_unsuspecting:
  assumes "unsuspecting g" "ns_State s = STATE_ALIVE" "suspectNode g s = Inr g'"
  shows "unsuspecting g'"
proof -
  have ev: "ev_inv g" and q: "quiet_table g" "quiet_queue g" using assms(1) by (simp_all add: unsuspecting_def)
  then have inv: "g_inv g" and w: "um_wf (g_node_map g)" "bq_idle (g_bc_queue g)"
    using ev_inv_g_inv by (auto simp: g_inv_def)
  have ev': "ev_inv g'" using suspectNode_ev_inv[OF ev _ assms(3)] assms(2) by simp
  have c: "quiet_table (confirm_result g s sus) \<and> quiet_queue (confirm_result g s sus)" for sus
  proof -
    have "unsuspecting (g\<lparr>g_suspicions := um_set (g_suspicions g) n u\<rparr>)" for n u
      using ev inv q by (simp add: unsuspecting_def quiet_table_def ev_inv_def m_inv_def) (simp add: g_inv_def um.wf_put)
    then have "unsuspecting (dead_step (g\<lparr>g_suspicions := um_set (g_suspicions g) n u\<rparr>) (d\<lparr>ns_State := STATE_DEAD\<rparr>))"
      for n u d by (rule dead_step_unsuspecting) simp
    moreover have "quiet_table (push_bc (g\<lparr>g_suspicions := x\<rparr>) s)" "quiet_queue (push_bc (g\<lparr>g_suspicions := x\<rparr>) s)" for x
      using q w assms(2) by (simp_all add: quiet_table_def push_bc_quiet)
    ultimately show ?thesis by (simp add: confirm_result_def Let_def unsuspecting_def split: prod.splits)
  qed
  have r: "quiet_table (suspect_result g s sus) \<and> quiet_queue (suspect_result g s sus)" for sus
    using q w assms(2)
    by (auto simp: suspect_result_def Let_def quiet_table_def um.find_put fuckyou_quiet push_bc_quiet)
  have "quiet_table g' \<and> quiet_queue g'"
    using assms(3) q c r by (auto simp: suspectNode_cases rbind_Inr_iff split: option.splits if_splits)
  with ev' show ?thesis by (simp add: unsuspecting_def)
qed

lemma member_step_unsuspecting:
  assumes "unsuspecting g" "input_ok e \<and> \<not> carries_suspect e" "member_step g e = Inr g'"
  shows "unsuspecting g'"
proof -
  have ev: "ev_inv g" and q: "quiet_table g" "quiet_queue g" using assms(1) by (simp_all add: unsuspecting_def)
  then have w: "um_wf (g_node_map g)" "bq_idle (g_bc_queue g)" using ev_inv_g_inv by (auto simp: g_inv_def)
  have ev': "ev_inv g'" using ev assms(2,3) member_step_ev_inv by blast
  show ?thesis
  proof (cases e)
    case (In_state bc st)
    show ?thesis
    proof (cases "ns_State st")
      case STATE_ALIVE
      with In_state assms(3) have "g' = (if alive_accepts g st then alive_result g st bc else g)"
        by (simp add: merge_state_def aliveNode_cases[OF w(1)])
      then show ?thesis
        using q w ev' STATE_ALIVE
        by (simp add: unsuspecting_def alive_result_quiet quiet_table_def alive_result_fields(1) split: if_splits)
    qed (use In_state assms dead_step_unsuspecting in \<open>auto simp: merge_state_def deadNode_cases\<close>)
  next
    case (In_timer i)
    have "unsuspecting (g\<lparr>g_waits := x\<rparr>)" for x using assms(1) by (simp add: unsuspecting_def quiet_table_def)
    with In_timer assms(3) show ?thesis
      by (auto simp: timer_handler_cases dead_step_unsuspecting split: option.splits)
  next
    case (In_dead_alert d)
    with assms(3) ev' q w show ?thesis by (auto simp: unsuspecting_def fuckyou_quiet quiet_table_def)
  next
    case In_tick
    have "m_inv g" using ev by (simp add: ev_inv_def)
    then obtain r c where "probe g = Inr (r, g\<lparr>g_cursor := c\<rparr>)" using probe_result by blast
    with In_tick assms(3) have "g' = g\<lparr>g_cursor := c\<rparr>" by simp
    then show ?thesis using q ev' by (simp add: unsuspecting_def quiet_table_def)
  qed (use assms suspectNode_unsuspecting in auto)
qed

interpretation quiet: fallible_machine member_step unsuspecting "\<lambda>e. input_ok e \<and> \<not> carries_suspect e"
  by standard (rule member_step_unsuspecting)

lemma start_member_unsuspecting:
  assumes "order_ok ord" "start_member conf ord indet reread = Inr g"
  shows "unsuspecting g"
proof -
  let ?g = "snd (nextDominant (RegisterNotifier (gossiper_new conf ord indet reread) True True) 1)"
  have wf: "um_wf (g_node_map ?g)" "bq_idle (g_bc_queue ?g)" "quiet_queue ?g" "quiet_table ?g"
    using assms(1) bq_inv_init[OF assms(1)]
    by (simp_all add: nextDominant_def RegisterNotifier_def gossiper_new_def um_wf_def um_empty_def um_keys_def
        quiet_queue_def quiet_table_def um_find_def BroadcastQueue_init_def)
  obtain d where "aliveNode ?g (self_state ?g d) False = Inr g"
    using assms(2) by (auto simp: start_member_def join_self_def split: prod.splits)
  then have "quiet_table g \<and> quiet_queue g"
    using wf unfolding aliveNode_cases[OF wf(1)]
    by (auto simp: quiet_table_def alive_result_fields(1) alive_result_quiet self_state_def split: if_splits)
  then show ?thesis using start_member_D[OF assms] by (simp add: unsuspecting_def)
qed

text \<open>
  (C34) Nobody is ever accused. A member that receives no SUSPECT message never has one to pass on: whatever
  pings expire, timers fire and other messages arrive, no entry of its table and no message of its
  broadcast queue says SUSPECT. An expired ping hands the ALIVE entry itself to \<^verbatim>\<open>suspectNode\<close>, which
  then gossips that entry; so in a cluster where no message says SUSPECT none ever will.
\<close>

theorem suspect_never_originates:
  assumes "order_ok ord" "start_member conf ord indet reread = Inr g0"
    "list_all (\<lambda>e. input_ok e \<and> \<not> carries_suspect e) ins" "rfold member_step g0 ins = Inr g"
  shows "(\<forall>n st. getNodeState g n = Some st \<longrightarrow> ns_State st \<noteq> STATE_SUSPECT) \<and>
    (\<forall>n st c. um_find (bq_m (g_bc_queue g)) n = Some (st, c) \<longrightarrow> ns_State st \<noteq> STATE_SUSPECT)"
proof -
  have "unsuspecting g"
    using start_member_unsuspecting[OF assms(1,2)] assms(3,4) by (rule quiet.run_inv)
  then show ?thesis
    by (simp add: unsuspecting_def quiet_table_def quiet_queue_def getNodeState_def)
qed

definition ex_timeout :: "input list" where
  "ex_timeout = [In_state True (ex_msg ''b'' 3 STATE_ALIVE), In_ping_timeout (ex_msg ''b'' 3 STATE_ALIVE)]"

lemma ex_timeout_run:
  "case rbind (start_member ex_conf (#) 0 id) (\<lambda>g. rfold member_step g ex_timeout) of Inl _ \<Rightarrow> False
   | Inr g \<Rightarrow> getSuspicion g ''b'' \<noteq> None \<and> map_option fst (um_find (bq_m (g_bc_queue g)) ''b'') = Some (ex_msg ''b'' 3 STATE_ALIVE)"
  by code_simp

theorem suspect_never_originates_witness:
  "\<exists>g0 g. start_member ex_conf (#) 0 id = Inr g0 \<and> rfold member_step g0 ex_timeout = Inr g \<and>
    getSuspicion g ''b'' \<noteq> None \<and> (\<forall>n st. getNodeState g n = Some st \<longrightarrow> ns_State st \<noteq> STATE_SUSPECT)"
proof -
  obtain g0 g where g: "start_member ex_conf (#) 0 id = Inr g0" "rfold member_step g0 ex_timeout = Inr g"
    "getSuspicion g ''b'' \<noteq> None"
    using ex_timeout_run unfolding case_ok_iff by (auto simp: rbind_Inr_iff)
  have "list_all (\<lambda>e. input_ok e \<and> \<not> carries_suspect e) ex_timeout" by (simp add: ex_timeout_def ex_msg_def)
  from suspect_never_originates[OF order_ok_Cons g(1) this g(2)] g show ?thesis by blast
qed

end
