(* ===== verification/Header.thy ===== *)
theory Header
  imports Bytes Message
begin

text \<open>
  \<^verbatim>\<open>src/src/message/header.hpp\<close>: the eight-byte header in front of every message, the message type
  and the length of the body, both big-endian on the wire. \<open>le\<close> says whether the host is
  little-endian: \<^verbatim>\<open>htobe32\<close> and \<^verbatim>\<open>be32toh\<close> (\<^verbatim>\<open>src/thirdparty/portable_endian.h\<close>) swap the bytes there and do
  nothing on a big-endian host, and \<^verbatim>\<open>memcpy\<close> moves the host's representation.
\<close>

record Header =
  h_Type :: u32
  h_Body_length :: u32

definition HEADER_SIZE :: nat where
  "HEADER_SIZE = 8"

definition host_store32 :: "bool \<Rightarrow> u32 \<Rightarrow> bytes" where
  "host_store32 le x = (if le then le_bytes 4 x else rev (le_bytes 4 x))"

definition host_load32 :: "bool \<Rightarrow> bytes \<Rightarrow> u32" where
  "host_load32 le bs = (if le then le_word bs else le_word (rev bs))"

definition bswap32 :: "u32 \<Rightarrow> u32" where
  "bswap32 x = le_word (rev (le_bytes 4 x))"

definition htobe32 :: "bool \<Rightarrow> u32 \<Rightarrow> u32" where
  "htobe32 le x = (if le then bswap32 x else x)"

definition be32toh :: "bool \<Rightarrow> u32 \<Rightarrow> u32" where
  "be32toh le x = (if le then bswap32 x else x)"

definition EncodeHeader :: "bool \<Rightarrow> bytes \<Rightarrow> nat \<Rightarrow> Header \<Rightarrow> bytes result" where
  "EncodeHeader le buff off header =
     rbind (buf_write buff off (host_store32 le (htobe32 le (h_Type header)))) (\<lambda>buff'.
       buf_write buff' (off + 4) (host_store32 le (htobe32 le (h_Body_length header))))"

definition DecodeHeader :: "bool \<Rightarrow> bytes \<Rightarrow> nat \<Rightarrow> Header result" where
  "DecodeHeader le buff off =
     rbind (buf_read buff off 4) (\<lambda>t.
     rbind (buf_read buff (off + 4) 4) (\<lambda>l.
       Inr \<lparr>h_Type = be32toh le (host_load32 le t),
            h_Body_length = be32toh le (host_load32 le l)\<rparr>))"

text \<open>The header on the wire: the two words, most significant byte first.\<close>

definition wire_header :: "Header \<Rightarrow> bytes" where
  "wire_header h = rev (le_bytes 4 (h_Type h)) @ rev (le_bytes 4 (h_Body_length h))"

section \<open>Byte order\<close>

lemma le_bytes_word:
  assumes "length bs = 4"
  shows "le_bytes 4 (le_word bs :: u32) = bs"
proof (rule nth_equalityI)
  fix i assume "i < length (le_bytes 4 (le_word bs :: u32))"
  then have i: "i < 4" by simp
  show "le_bytes 4 (le_word bs :: u32) ! i = bs ! i"
  proof (rule bit_word_eqI)
    fix n :: nat assume n: "n < LENGTH(8)"
    then have "(8 * i + n) div 8 = i" "(8 * i + n) mod 8 = n" "8 * i + n < 32" using i by auto
    then show "bit (le_bytes 4 (le_word bs :: u32) ! i) n = bit (bs ! i) n"
      using i n assms by (simp add: le_bytes_def bit_simps bit_le_word)
  qed
qed (simp add: assms)

lemma store_htobe32: "host_store32 le (htobe32 le x) = rev (le_bytes 4 x)"
  by (simp add: host_store32_def htobe32_def bswap32_def le_bytes_word)

lemma be32toh_load: "be32toh le (host_load32 le (rev (le_bytes 4 x))) = x"
  by (simp add: host_load32_def be32toh_def bswap32_def le_bytes_word le32.dec_enc)

interpretation be32: byte_codec "\<lambda>x. host_store32 le (htobe32 le x)" "\<lambda>bs. be32toh le' (host_load32 le' bs)" 4
  for le le'
  by standard (simp_all add: store_htobe32 be32toh_load)

lemma EncodeHeader_wire:
  "EncodeHeader le buff off h = buf_write buff off (wire_header h)"
proof (cases "off + 8 \<le> length buff")
  case True
  then show ?thesis
    by (simp add: EncodeHeader_def store_htobe32 buf_write_def wire_header_def add.commute)
next
  case False
  then show ?thesis
    by (auto simp: EncodeHeader_def store_htobe32 buf_write_def wire_header_def)
qed

lemma length_wire_header [simp]: "length (wire_header h) = 8"
  by (simp add: wire_header_def)

lemma DecodeHeader_wire:
  assumes "off + 8 \<le> length buff" "take 8 (drop off buff) = wire_header h"
  shows "DecodeHeader le buff off = Inr h"
proof -
  have "take 4 (drop off buff) = take 4 (take 8 (drop off buff))" by simp
  moreover have "take 4 (drop (off + 4) buff) = drop 4 (take 8 (drop off buff))"
    by (simp add: drop_take add.commute)
  ultimately show ?thesis
    using assms by (simp add: DecodeHeader_def buf_read_def wire_header_def be32toh_load)
qed

lemma DecodeHeader_total: "off + 8 \<le> length buff \<Longrightarrow> is_ok (DecodeHeader le buff off)"
  by (simp add: DecodeHeader_def buf_read_def)

lemma DecodeHeader_short: "length buff < off + 8 \<Longrightarrow> DecodeHeader le buff off = Inl OutOfBounds"
  by (auto simp: DecodeHeader_def buf_read_def)

section \<open>Properties\<close>

text \<open>
  (C32) The header survives the wire between hosts of any byte order: what one host encodes at an offset of
  a buffer, another decodes at that offset, and the rest of the buffer is unchanged.
\<close>

theorem header_roundtrip:
  assumes "off + HEADER_SIZE \<le> length buff"
  shows "\<exists>buff'. EncodeHeader le buff off h = Inr buff' \<and> DecodeHeader le' buff' off = Inr h \<and>
    length buff' = length buff \<and> take off buff' = take off buff \<and>
    drop (off + HEADER_SIZE) buff' = drop (off + HEADER_SIZE) buff"
proof -
  let ?b = "take off buff @ wire_header h @ drop (off + 8) buff"
  have "EncodeHeader le buff off h = Inr ?b"
    using assms by (simp add: EncodeHeader_wire buf_write_def HEADER_SIZE_def)
  moreover have "DecodeHeader le' ?b off = Inr h"
    using assms by (intro DecodeHeader_wire) (simp_all add: HEADER_SIZE_def)
  ultimately show ?thesis using assms by (simp add: HEADER_SIZE_def)
qed

theorem header_roundtrip_witness:
  "\<exists>buff'. EncodeHeader True (replicate 12 0) 2 \<lparr>h_Type = TYPE_SYNCSTATE, h_Body_length = 513\<rparr> = Inr buff' \<and>
    DecodeHeader False buff' 2 = Inr \<lparr>h_Type = TYPE_SYNCSTATE, h_Body_length = 513\<rparr> \<and>
    length buff' = length (replicate 12 (0 :: u8)) \<and>
    take 2 buff' = take 2 (replicate 12 0) \<and>
    drop (2 + HEADER_SIZE) buff' = drop (2 + HEADER_SIZE) (replicate 12 0)"
  by (rule header_roundtrip) (simp add: HEADER_SIZE_def)

end
