(* ===== verification/Packets.thy ===== *)
theory Packets
  imports Codec Detection Header
begin

text \<open>
  The packets of \<^verbatim>\<open>class gossiper\<close>: pings with appended gossip, pongs with dead alerts, and the synchronisation
  of states over TCP, as functions on the state of a member and the buffers they read and write. A
  buffer is the list of its bytes; writing outside it is the fault \<open>OutOfBounds\<close>. \<open>le\<close> is the byte
  order of the host and \<open>ltr\<close> the evaluation order of the theory \<open>Codec\<close>. A handler reads its input before
  it writes its response, so the response buffer may be the input buffer, as in \<^verbatim>\<open>udp::Server\<close>.
\<close>

section \<open>Pings\<close>

text \<open>
  The messages for the packet are peeked first and then encoded; the code encodes each one as it
  peeks it, which differs only when a port does not parse and the program ends.
\<close>

definition appendGossipMsg ::
  "bool \<Rightarrow> gossiper \<Rightarrow> bytes \<Rightarrow> nat \<Rightarrow> nat \<Rightarrow> (nat \<times> gossiper \<times> bytes) result" where
  "appendGossipMsg ltr g buff off buff_size =
     rbind (peek_msgs (g_MAX_APPENDED_MSG g) (g_bc_queue g)) (\<lambda>(msgs, q).
       if msgs = [] then Inr (0, g\<lparr>g_bc_queue := q\<rparr>, buff)
       else
         rbind (encode_states ltr msgs) (\<lambda>body.
           if buff_size < length body
           then Inr (0, shrinkMaxAppendedMsg (g\<lparr>g_bc_queue := ResetPeek q\<rparr>), buff)
           else
             rbind (ApplyPeek q) (\<lambda>q'.
             rbind (buf_write buff off body) (\<lambda>buff'.
               Inr (length body, g\<lparr>g_bc_queue := q'\<rparr>, buff')))))"

text \<open>The result is the length of the packet, -1 when the ping does not fit.\<close>

definition generatePing ::
  "bool \<Rightarrow> bool \<Rightarrow> gossiper \<Rightarrow> u64 \<Rightarrow> bytes \<Rightarrow> nat \<Rightarrow> (int \<times> gossiper \<times> bytes) result" where
  "generatePing le ltr g seqNo send_buff send_buff_size =
     rbind (encode_ping seqNo (g_name g)) (\<lambda>ping.
       let size = length ping
       in rbind (EncodeHeader le send_buff 0 \<lparr>h_Type = TYPE_PING, h_Body_length = of_nat size\<rparr>) (\<lambda>buff.
            if send_buff_size < HEADER_SIZE + size then Inr (- 1, g, buff)
            else
              rbind (buf_write buff HEADER_SIZE ping) (\<lambda>buff.
              rbind (appendGossipMsg ltr g buff (HEADER_SIZE + size) (send_buff_size - size - HEADER_SIZE))
                (\<lambda>(n, g', buff). Inr (int (HEADER_SIZE + size + n), g', buff)))))"

text \<open>
  \<^verbatim>\<open>probeNode\<close> up to the call of \<^verbatim>\<open>AsyncSendTo\<close>: the destination and the datagram. \<open>fresh\<close> is what the
  uninitialised send buffer of 1460 bytes holds. The length -1 becomes a huge \<^verbatim>\<open>size_t\<close>, which
  \<^verbatim>\<open>AsyncSendTo\<close> finds too large to send; here it counts as a fault, so what is shown to be without one always fits.
\<close>

definition probeNode ::
  "bool \<Rightarrow> bool \<Rightarrow> bytes \<Rightarrow> gossiper \<Rightarrow> node_state \<Rightarrow> ((string \<times> i16 \<times> u64 \<times> bytes) \<times> gossiper) result" where
  "probeNode le ltr fresh g node =
     rbind (stoi (ns_Port node)) (\<lambda>port.
       let (seq_num, g1) = nextSeqNum g
       in rbind (generatePing le ltr g1 seq_num fresh 1460) (\<lambda>(size, g2, buff).
            if size < 0 \<or> int (length buff) < size then Inl OutOfBounds
            else Inr ((ns_IP node, word_of_int port, seq_num, take (nat size) buff), g2)))"

section \<open>Pongs\<close>

definition appendDeadAlert :: "bool \<Rightarrow> node_state \<Rightarrow> bytes \<Rightarrow> nat \<Rightarrow> nat \<Rightarrow> (nat \<times> bytes) result" where
  "appendDeadAlert ltr node buff off buff_size =
     rbind (encode_state ltr node) (\<lambda>body.
       if buff_size < length body then Inr (0, buff)
       else rbind (buf_write buff off body) (\<lambda>buff'. Inr (length body, buff')))"

text \<open>The sender of the ping was known as dead: append the alert.\<close>

definition alert_if_dead ::
  "bool \<Rightarrow> node_state option \<Rightarrow> bytes \<Rightarrow> nat \<Rightarrow> nat \<Rightarrow> (nat \<times> bytes) result" where
  "alert_if_dead ltr ns buff off buff_size =
     (case ns of
        Some st \<Rightarrow> if ns_State st = STATE_DEAD then appendDeadAlert ltr st buff off buff_size else Inr (0, buff)
      | None \<Rightarrow> Inr (0, buff))"

text \<open>The length of a packet's header and body, as the \<^verbatim>\<open>uint32_t\<close> sum that the code compares.\<close>

definition packet_length :: "Header \<Rightarrow> nat" where
  "packet_length header = unat (h_Body_length header + 8)"

text \<open>
  \<^verbatim>\<open>handlePacket\<close> on the \<open>sz\<close> bytes received into \<open>buff\<close>: the length of the response (0 for none, -1 when the
  pong does not fit), the next state, and the response buffer.
\<close>

definition pong_response ::
  "bool \<Rightarrow> bool \<Rightarrow> gossiper \<Rightarrow> node_state option \<Rightarrow> u64 \<Rightarrow> bytes \<Rightarrow> nat \<Rightarrow> (int \<times> gossiper \<times> bytes) result" where
  "pong_response le ltr g ns seqNo resp_buff resp_size =
     rbind (encode_pong seqNo) (\<lambda>pong.
       let size = length pong
       in if resp_size < HEADER_SIZE + size then Inr (- 1, g, resp_buff)
          else
            rbind (EncodeHeader le resp_buff 0 \<lparr>h_Type = TYPE_PONG, h_Body_length = of_nat size\<rparr>) (\<lambda>resp.
            rbind (buf_write resp HEADER_SIZE pong) (\<lambda>resp.
              let rst = size + HEADER_SIZE
              in rbind (alert_if_dead ltr ns resp rst (resp_size - rst)) (\<lambda>(n, resp).
                   Inr (int (rst + n), g, resp)))))"

definition handlePacket ::
  "(node_state \<Rightarrow> node_state) \<Rightarrow> bool \<Rightarrow> bool \<Rightarrow> gossiper \<Rightarrow> bytes \<Rightarrow> nat \<Rightarrow> bytes \<Rightarrow> nat \<Rightarrow> (int \<times> gossiper \<times> bytes) result" where
  "handlePacket moved le ltr g buff sz resp_buff resp_size =
     rbind (DecodeHeader le buff 0) (\<lambda>header.
       if h_Type header = TYPE_PING then
         rbind (decode_ping buff HEADER_SIZE) (\<lambda>ping.
         rbind (of_option NullDeref (pi_from ping)) (\<lambda>frm.
           let ns = getNodeState g frm
           in rbind (if packet_length header < sz
                     then rbind (GetNodeStates buff (HEADER_SIZE + unat (h_Body_length header)))
                            (\<lambda>gossipMsg. mergeStates moved g gossipMsg True)
                     else Inr g) (\<lambda>g1.
                pong_response le ltr g1 ns (pi_seqNo ping) resp_buff resp_size)))
       else Inr (0, g, resp_buff))"

text \<open>
  The callback of \<^verbatim>\<open>probeNode\<close> for a received pong. A pong with another sequence number is reported and
  processed all the same.
\<close>

definition pong_received :: "bool \<Rightarrow> gossiper \<Rightarrow> u64 \<Rightarrow> bytes \<Rightarrow> nat \<Rightarrow> gossiper result" where
  "pong_received le g seq_num resp sz =
     rbind (DecodeHeader le resp 0) (\<lambda>header.
       if h_Type header \<noteq> TYPE_PONG then Inr g
       else
         rbind (decode_pong resp HEADER_SIZE) (\<lambda>pong.
           if packet_length header < sz
           then
             rbind (GetRoot resp (HEADER_SIZE + unat (h_Body_length header))) (\<lambda>p.
             rbind (rbind (GetPointer resp p 4) (of_option NullDeref)) (\<lambda>node.
             rbind (rbind (GetPointer resp node 4) (of_option NullDeref)) (\<lambda>s.
             rbind (str resp s) (\<lambda>name.
             rbind (GetField resp p 6 (0 :: u8)) (\<lambda>state.
               if name = g_name g \<and> STATE_of_i8 state = STATE_DEAD
               then rbind (GetField resp p 8 (0 :: u64)) (\<lambda>dominant. Inr (fuckyou g dominant))
               else Inr g)))))
           else Inr g))"

section \<open>State synchronisation\<close>

definition encodeLocalState :: "bool \<Rightarrow> gossiper \<Rightarrow> bytes result" where
  "encodeLocalState ltr g = encode_states ltr (map snd (entries (g_node_map g)))"

definition handleHeader :: "bool \<Rightarrow> bytes \<Rightarrow> nat \<Rightarrow> Header \<Rightarrow> Header result" where
  "handleHeader le buff sz header = (if sz \<noteq> HEADER_SIZE then Inr header else DecodeHeader le buff 0)"

text \<open>
  \<^verbatim>\<open>handleBody\<close>: the value of \<^verbatim>\<open>result + HEADER_SIZE\<close> as a \<^verbatim>\<open>size_t\<close>. Only pings and state synchronisations set
  \<^verbatim>\<open>result\<close> and \<^verbatim>\<open>body\<close>. The builder that owns the bytes of \<^verbatim>\<open>body\<close> is destroyed at the end of its \<^verbatim>\<open>case\<close>,
  before the \<^verbatim>\<open>memcpy\<close> that reads them: \<open>freed bs i\<close> is what the \<open>i\<close>-th byte of the freed memory that held
  \<open>bs\<close> reads as, \<open>freed = (!)\<close> when nothing has reused it. The test before the \<^verbatim>\<open>memcpy\<close> compares the body
  without the header.
\<close>

definition send_body ::
  "bool \<Rightarrow> (bytes \<Rightarrow> nat \<Rightarrow> u8) \<Rightarrow> u32 \<Rightarrow> gossiper \<Rightarrow> bytes \<Rightarrow> bytes \<Rightarrow> nat \<Rightarrow> (u64 \<times> gossiper \<times> bytes) result" where
  "send_body le freed type g body resp_buff resp_size =
     (let result = length body
      in if resp_size < result then Inr (- 1 + 8, g, resp_buff)
         else
           rbind (EncodeHeader le resp_buff 0 \<lparr>h_Type = type, h_Body_length = of_nat result\<rparr>) (\<lambda>resp.
           rbind (buf_write resp HEADER_SIZE (map (freed body) [0..<result])) (\<lambda>resp.
             Inr (of_nat result + 8, g, resp))))"

definition handleBody ::
  "(node_state \<Rightarrow> node_state) \<Rightarrow> bool \<Rightarrow> bool \<Rightarrow> (bytes \<Rightarrow> nat \<Rightarrow> u8) \<Rightarrow> gossiper \<Rightarrow> u32 \<Rightarrow> bytes \<Rightarrow> nat \<Rightarrow> bytes \<Rightarrow> nat \<Rightarrow>
     (u64 \<times> gossiper \<times> bytes) result" where
  "handleBody moved le ltr freed g type buff sz resp_buff resp_size =
     (if type = TYPE_PING then
        rbind (rbind (GetRoot buff 0) (\<lambda>p. GetField buff p 4 (0 :: u64))) (\<lambda>seqNo.
        rbind (encode_pong seqNo) (\<lambda>body.
          send_body le freed TYPE_PONG g body resp_buff resp_size))
      else if type = TYPE_SYNCSTATE then
        rbind (GetNodeStates buff 0) (\<lambda>remote_states.
        rbind (mergeStates moved g remote_states True) (\<lambda>g1.
        rbind (encodeLocalState ltr g1) (\<lambda>body.
          send_body le freed TYPE_SYNCSTATE g1 body resp_buff resp_size)))
      else Inl IndeterminateRead)"

text \<open>
  \<^verbatim>\<open>syncState\<close>, with the connection as a parameter: \<open>peer\<close> maps the request to the bytes that arrive in
  response, \<open>None\<close> when connecting or writing fails. A read past the end of the response fails; each
  failure is a \<^verbatim>\<open>std::system_error\<close>. The response goes first into the buffer of the request and then
  into a buffer of the announced size. Its type is not looked at.
\<close>

definition sync_request :: "bool \<Rightarrow> bool \<Rightarrow> gossiper \<Rightarrow> bytes result" where
  "sync_request le ltr g =
     rbind (encodeLocalState ltr g) (\<lambda>body.
     rbind (EncodeHeader le (replicate (HEADER_SIZE + length body) 0) 0
              \<lparr>h_Type = TYPE_SYNCSTATE, h_Body_length = of_nat (length body)\<rparr>) (\<lambda>buff.
       buf_write buff HEADER_SIZE body))"

definition sync_response :: "(node_state \<Rightarrow> node_state) \<Rightarrow> bool \<Rightarrow> gossiper \<Rightarrow> bytes \<Rightarrow> bytes \<Rightarrow> gossiper result" where
  "sync_response moved le g buff answer =
     (if length answer < HEADER_SIZE then Inl SystemError
      else
        rbind (buf_write buff 0 (take HEADER_SIZE answer)) (\<lambda>buff.
        rbind (DecodeHeader le buff 0) (\<lambda>header.
          let n = unat (h_Body_length header)
          in if length answer < HEADER_SIZE + n then Inl SystemError
             else
               rbind (GetNodeStates (take n (drop HEADER_SIZE answer)) 0) (\<lambda>remote_states.
                 mergeStates moved g remote_states False))))"

definition syncState ::
  "(node_state \<Rightarrow> node_state) \<Rightarrow> bool \<Rightarrow> bool \<Rightarrow> (bytes \<Rightarrow> bytes option) \<Rightarrow> gossiper \<Rightarrow> gossiper result" where
  "syncState moved le ltr peer g =
     rbind (sync_request le ltr g) (\<lambda>buff.
     rbind (of_option SystemError (peer buff)) (\<lambda>answer.
       sync_response moved le g buff answer))"

text \<open>
  \<^verbatim>\<open>Join\<close> up to the start of the tickers; \<open>None\<close> when it does not return. An invalid peer is reported
  and ignored, and so is a failed synchronisation.
\<close>

definition Join ::
  "(node_state \<Rightarrow> node_state) \<Rightarrow> bool \<Rightarrow> bool \<Rightarrow> (string \<Rightarrow> string \<Rightarrow> bytes \<Rightarrow> bytes option) \<Rightarrow> gossiper \<Rightarrow> string \<Rightarrow> gossiper result option" where
  "Join moved le ltr net g peer =
     (case Split peer '':'' of
        None \<Rightarrow> None
      | Some vec \<Rightarrow> Some (
          case vec of
            [host, port] \<Rightarrow>
              rbind (join_self g) (\<lambda>g1.
                if host \<noteq> conf_Addr (g_conf g1) \<or> port_string (conf_Port (g_conf g1)) \<noteq> port
                then (case syncState moved le ltr (net host port) g1 of
                        Inl f \<Rightarrow> if f = SystemError then Inr g1 else Inl f
                      | Inr g2 \<Rightarrow> Inr g2)
                else Inr g1)
          | _ \<Rightarrow> Inr g))"

section \<open>Assembling a ping\<close>

text \<open>Buffers that are read as the given states, ping or pong, wherever they lie.\<close>

definition reads_states :: "bytes \<Rightarrow> node_state list \<Rightarrow> bool" where
  "reads_states bs msgs \<longleftrightarrow> (\<forall>pre post. GetNodeStates (pre @ bs @ post) (length pre) =
     Inr \<lparr>fss_nodes = Some (map (\<lambda>ns. wire ns (printed_port ns)) msgs)\<rparr>)"

definition reads_ping :: "bytes \<Rightarrow> u64 \<Rightarrow> string \<Rightarrow> bool" where
  "reads_ping bs seqNo name \<longleftrightarrow> (\<forall>pre post. decode_ping (pre @ bs @ post) (length pre) =
     Inr \<lparr>pi_seqNo = seqNo, pi_from = Some name\<rparr>)"

definition reads_pong :: "bytes \<Rightarrow> u64 \<Rightarrow> bool" where
  "reads_pong bs seqNo \<longleftrightarrow> (\<forall>pre post. decode_pong (pre @ bs @ post) (length pre) = Inr \<lparr>po_seqNo = seqNo\<rparr>)"

definition queue_msgs :: "gossiper \<Rightarrow> node_state list" where
  "queue_msgs g = map (\<lambda>e. fst (snd e)) (take (g_MAX_APPENDED_MSG g) (bq_rot (g_bc_queue g)))"

text \<open>The broadcast queue between handlers, with messages that can be sent and are not huge.\<close>

definition queue_ok :: "gossiper \<Rightarrow> bool" where
  "queue_ok g \<longleftrightarrow> bq_idle (g_bc_queue g) \<and> list_all sendable (queue_msgs g) \<and>
     msg_size (queue_msgs g) + 4 * length (queue_msgs g) + 400 \<le> max_size"

text \<open>
  What becomes of the queue: the appended messages are charged one transmission each, or none is
  appended and every message keeps its counter and place.
\<close>

definition queue_sent :: "gossiper \<Rightarrow> gossiper \<Rightarrow> node_state list \<Rightarrow> bool" where
  "queue_sent g g' msgs \<longleftrightarrow> bq_idle (g_bc_queue g') \<and>
     (let rot = bq_rot (g_bc_queue g); rot' = bq_rot (g_bc_queue g'); n = g_MAX_APPENDED_MSG g
      in msgs = queue_msgs g \<and> rot' = drop n rot @ concat (map countdown (take n rot)) \<or> msgs = [] \<and> rot' = rot)"

text \<open>The same by the operations on the queue, with the limit on messages, which can only go down.\<close>

definition gossiped :: "gossiper \<Rightarrow> gossiper \<Rightarrow> node_state list \<Rightarrow> bool" where
  "gossiped g g' msgs \<longleftrightarrow> g_MAX_APPENDED_MSG g' \<le> g_MAX_APPENDED_MSG g \<and>
     ((\<exists>q. peek_msgs (g_MAX_APPENDED_MSG g) (g_bc_queue g) = Inr (msgs, q) \<and> ApplyPeek q = Inr (g_bc_queue g')) \<or>
      msgs = [] \<and> g_bc_queue g' = g_bc_queue g)"

lemma peek_msgs_none:
  assumes "bq_idle q" "peek_msgs n q = Inr ([], q1)"
  shows "q1 = q"
proof (cases n)
  case (Suc m)
  have "peek_msgs n q = Inr (map (\<lambda>e. fst (snd e)) (take n (bq_rot q)), q1)"
    using peek_apply_round[OF assms(1), of n] assms(2) by auto
  then have "bq_rot q = []" using Suc assms(2) by (cases "bq_rot q") auto
  then have "entries (bq_m q) = []"
    using assms(1) length_bq_rot[of q] by (simp add: bq_idle_def um_size_def)
  moreover from this have "bq_cur q = None" "bq_peek q = None"
    using assms(1) by (auto simp: bq_idle_def bq_inv_def iter_ok_def um_keys_def split: option.splits)
  ultimately have "Peek q = Inr (None, q)" by (simp add: Peek_def um_begin_def um_keys_def)
  then show ?thesis using assms(2) Suc by simp
qed (use assms(2) in simp)

lemma encode_states_not_Nil:
  assumes "GetNodeStates ([] @ bs @ []) (length ([] :: bytes)) = Inr m"
  shows "bs \<noteq> []"
  using assms by (auto simp: GetNodeStates_def GetRoot_def ReadScalar_def buf_read_def rbind_Inr_iff split: if_splits)

lemma appendGossipMsg_ok:
  assumes "queue_ok g" "off + buff_size \<le> length buff"
  obtains msgs body q' m where
    "appendGossipMsg ltr g buff off buff_size =
       Inr (length body, g\<lparr>g_bc_queue := q', g_MAX_APPENDED_MSG := m\<rparr>, take off buff @ body @ drop (off + length body) buff)"
    "length body \<le> buff_size" "queue_sent g (g\<lparr>g_bc_queue := q', g_MAX_APPENDED_MSG := m\<rparr>) msgs"
    "gossiped g (g\<lparr>g_bc_queue := q', g_MAX_APPENDED_MSG := m\<rparr>) msgs"
    "list_all sendable msgs" "msgs = [] \<longleftrightarrow> body = []"
    "msgs \<noteq> [] \<longrightarrow> reads_states body msgs"
proof -
  let ?q = "g_bc_queue g" and ?n = "g_MAX_APPENDED_MSG g"
  have idle: "bq_idle ?q" and snd: "list_all sendable (queue_msgs g)" and
    sz: "msg_size (queue_msgs g) + 4 * length (queue_msgs g) + 400 \<le> max_size"
    using assms(1) by (simp_all add: queue_ok_def)
  obtain q1 q2 where q: "peek_msgs ?n ?q = Inr (queue_msgs g, q1)" "ApplyPeek q1 = Inr q2" "bq_idle q2"
    "bq_rot q2 = drop ?n (bq_rot ?q) @ concat (map countdown (take ?n (bq_rot ?q)))"
    using peek_apply_round[OF idle, of ?n] by (auto simp: queue_msgs_def)
  have reset: "ResetPeek q1 = ?q" using peek_reset_round[OF idle, of ?n] q(1) by auto
  show thesis
  proof (cases "queue_msgs g = []")
    case True
    then have "q1 = ?q" using peek_msgs_none[OF idle] q(1) by simp
    then show thesis
      using that[where msgs = "[]" and body = "[]" and q' = ?q and m = ?n] True q(1) idle by (simp add: appendGossipMsg_def queue_sent_def gossiped_def)
  next
    case False
    have enc: "list_all encodable (queue_msgs g)" using snd sendable_encodable by (auto simp: list_all_iff)
    obtain body where b: "encode_states ltr (queue_msgs g) = Inr body"
      "reads_states body (queue_msgs g)"
      using encode_states_ok[OF enc sz, of ltr] unfolding reads_states_def by blast
    have ne: "body \<noteq> []" using b(2) encode_states_not_Nil unfolding reads_states_def by blast
    show thesis
    proof (cases "buff_size < length body")
      case True
      define m where "m = (if ?n = 1 then 1 else ?n div 2)"
      have m: "m \<le> ?n" by (simp add: m_def)
      have "g\<lparr>g_MAX_APPENDED_MSG := 1\<rparr> = g" if "?n = 1" using that by (cases g) simp
      then have "shrinkMaxAppendedMsg (g\<lparr>g_bc_queue := ?q\<rparr>) = g\<lparr>g_bc_queue := ?q, g_MAX_APPENDED_MSG := m\<rparr>"
        by (simp add: shrinkMaxAppendedMsg_def m_def)
      then show thesis
        using that[where msgs = "[]" and body = "[]" and q' = ?q and m = m] True False q(1) b(1) idle reset m by (simp add: appendGossipMsg_def queue_sent_def gossiped_def)
    next
      case fits: False
      then show thesis
        using that[where msgs = "queue_msgs g" and body = body and q' = q2 and m = ?n] False q b ne snd assms(2)
        by (simp add: appendGossipMsg_def queue_sent_def gossiped_def buf_write_def)
    qed
  qed
qed

text \<open>A ping packet: header, ping, and the gossip that was appended.\<close>

lemma generatePing_ok:
  assumes "queue_ok g" "no_null (g_name g)" "length (g_name g) + 80 \<le> cap" "length buff = cap" "cap < 2 ^ 16"
  obtains ping msgs body q' m where
    "generatePing le ltr g seqNo buff cap = Inr (int (8 + length ping + length body),
       g\<lparr>g_bc_queue := q', g_MAX_APPENDED_MSG := m\<rparr>,
       wire_header \<lparr>h_Type = TYPE_PING, h_Body_length = of_nat (length ping)\<rparr> @ ping @ body @
         drop (8 + length ping + length body) buff)"
    "8 + length ping + length body \<le> cap" "length ping < 2 ^ 16"
    "queue_sent g (g\<lparr>g_bc_queue := q', g_MAX_APPENDED_MSG := m\<rparr>) msgs"
    "gossiped g (g\<lparr>g_bc_queue := q', g_MAX_APPENDED_MSG := m\<rparr>) msgs"
    "list_all sendable msgs" "msgs = [] \<longleftrightarrow> body = []"
    "reads_ping ping seqNo (g_name g)"
    "msgs \<noteq> [] \<longrightarrow> reads_states body msgs"
proof -
  have room: "length (g_name g) + 200 \<le> max_size" using assms(3,5) by (simp add: max_size_def)
  obtain ping where ping: "encode_ping seqNo (g_name g) = Inr ping" "length ping \<le> length (g_name g) + 68"
    "reads_ping ping seqNo (g_name g)"
    using encode_ping_ok[OF assms(2) room, of seqNo] unfolding reads_ping_def by blast
  let ?h = "wire_header \<lparr>h_Type = TYPE_PING, h_Body_length = of_nat (length ping)\<rparr>"
  have fits: "8 + length ping \<le> cap" using ping(2) assms(3) by simp
  let ?b = "?h @ ping @ drop (8 + length ping) buff" and ?off = "8 + length ping"
  have room2: "?off + (cap - length ping - 8) \<le> length ?b" using fits assms(4) by simp
  obtain msgs body q' m where app:
    "appendGossipMsg ltr g ?b ?off (cap - length ping - 8) =
       Inr (length body, g\<lparr>g_bc_queue := q', g_MAX_APPENDED_MSG := m\<rparr>, take ?off ?b @ body @ drop (?off + length body) ?b)"
    "length body \<le> cap - length ping - 8" "queue_sent g (g\<lparr>g_bc_queue := q', g_MAX_APPENDED_MSG := m\<rparr>) msgs"
    "gossiped g (g\<lparr>g_bc_queue := q', g_MAX_APPENDED_MSG := m\<rparr>) msgs"
    "list_all sendable msgs" "msgs = [] \<longleftrightarrow> body = []"
    "msgs \<noteq> [] \<longrightarrow> reads_states body msgs"
    by (rule appendGossipMsg_ok[OF assms(1) room2, of ltr]) (rule that, assumption+)
  have "generatePing le ltr g seqNo buff cap = Inr (int (8 + length ping + length body),
       g\<lparr>g_bc_queue := q', g_MAX_APPENDED_MSG := m\<rparr>, ?h @ ping @ body @ drop (8 + length ping + length body) buff)"
    using ping(1) app(1) fits assms(4)
    by (simp add: generatePing_def HEADER_SIZE_def EncodeHeader_wire buf_write_def Let_def
        add.commute[of "length ping" 8] add.commute[of "length body"])
  moreover have "length ping < 2 ^ 16" "8 + length ping + length body \<le> cap" using app(2) fits assms(5) by auto
  ultimately show thesis using that ping(3) app(3-7) by blast
qed

text \<open>
  A datagram that is a ping of the named member with the given messages, whatever follows it in the buffer: a server merges
  these and answers, and a client that waits for a pong ignores it.
\<close>

definition ping_datagram :: "bytes \<Rightarrow> string \<Rightarrow> u64 \<Rightarrow> node_state list \<Rightarrow> bool" where
  "ping_datagram d name seqNo msgs \<longleftrightarrow>
     (\<forall>le ltr g rest resp cap. handlePacket id le ltr g (d @ rest) (length d) resp cap =
        rbind (rfold (\<lambda>g. merge_state g True) g msgs) (\<lambda>g'. pong_response le ltr g' (getNodeState g name) seqNo resp cap)) \<and>
     (\<forall>le g seq rest. pong_received le g seq (d @ rest) (length d) = Inr g)"

section \<open>Answering a ping\<close>

text \<open>The dead alert that a pong carries, empty unless the sender is known as dead and the alert fits.\<close>

definition alert_of :: "bool \<Rightarrow> node_state option \<Rightarrow> nat \<Rightarrow> bytes" where
  "alert_of ltr ns room =
     (case ns of
        Some st \<Rightarrow>
          if ns_State st = STATE_DEAD
          then (case encode_state ltr st of Inr body \<Rightarrow> if length body \<le> room then body else [] | Inl _ \<Rightarrow> [])
          else []
      | None \<Rightarrow> [])"

text \<open>A table entry that can be encoded.\<close>

definition state_ok :: "node_state option \<Rightarrow> bool" where
  "state_ok ns \<longleftrightarrow> (\<forall>st. ns = Some st \<longrightarrow> sendable st \<and> ns_size st + 400 \<le> max_size)"

lemma alert_if_dead_ok:
  assumes "state_ok ns" "off + room \<le> length buff"
  shows "alert_if_dead ltr ns buff off room = Inr (length (alert_of ltr ns room),
    take off buff @ alert_of ltr ns room @ drop (off + length (alert_of ltr ns room)) buff)"
proof (cases "\<exists>st. ns = Some st \<and> ns_State st = STATE_DEAD")
  case True
  then obtain st where st: "ns = Some st" "ns_State st = STATE_DEAD" by blast
  then have "encodable st" "ns_size st + 400 \<le> max_size"
    using assms(1) sendable_encodable by (auto simp: state_ok_def)
  then obtain body where "encode_state ltr st = Inr body" using encode_state_ok by blast
  with st assms(2) show ?thesis
    by (auto simp: alert_if_dead_def alert_of_def appendDeadAlert_def buf_write_def)
qed (auto simp: alert_if_dead_def alert_of_def split: option.splits)

lemma pong_response_ok:
  assumes "state_ok ns" "54 \<le> cap" "length resp = cap" "cap < 2 ^ 16"
  obtains pong alert where
    "pong_response le ltr g ns seqNo resp cap = Inr (int (8 + length pong + length alert), g,
       wire_header \<lparr>h_Type = TYPE_PONG, h_Body_length = of_nat (length pong)\<rparr> @ pong @ alert @
         drop (8 + length pong + length alert) resp)"
    "8 + length pong + length alert \<le> cap" "length pong \<le> 46" "alert = alert_of ltr ns (cap - (8 + length pong))"
    "reads_pong pong seqNo"
proof -
  obtain pong where pong: "encode_pong seqNo = Inr pong" "length pong \<le> 46" "reads_pong pong seqNo"
    using encode_pong_ok[of seqNo] unfolding reads_pong_def by blast
  let ?h = "wire_header \<lparr>h_Type = TYPE_PONG, h_Body_length = of_nat (length pong)\<rparr>"
  let ?r = "cap - (8 + length pong)"
  let ?a = "alert_of ltr ns ?r" and ?b = "?h @ pong @ drop (8 + length pong) resp"
  have fits: "8 + length pong \<le> cap" using pong(2) assms(2) by simp
  then have "8 + length pong + ?r \<le> length ?b" using assms(3) by simp
  note alert = alert_if_dead_ok[OF assms(1) this, of ltr]
  have "pong_response le ltr g ns seqNo resp cap = Inr (int (8 + length pong + length ?a), g,
      ?h @ pong @ ?a @ drop (8 + length pong + length ?a) resp)"
    using pong(1) fits assms(3) alert
    by (simp add: pong_response_def HEADER_SIZE_def EncodeHeader_wire buf_write_def Let_def
        add.commute[of "length pong" 8] add.commute[of "length ?a"])
  moreover have "length ?a \<le> ?r" by (auto simp: alert_of_def split: option.splits sum.splits)
  then have "8 + length pong + length ?a \<le> cap" using fits by linarith
  ultimately show thesis using that pong(2,3) by blast
qed

section \<open>Exchanges between members\<close>

lemma packet_length_small: "n < 2 ^ 16 \<Longrightarrow> packet_length \<lparr>h_Type = t, h_Body_length = of_nat n\<rparr> = 8 + n"
proof -
  assume n: "n < 2 ^ 16"
  have "(of_nat n + 8 :: u32) = of_nat (n + 8)" by simp
  then have "unat (of_nat n + 8 :: u32) = (n + 8) mod 2 ^ 32" by (simp only: unat_of_nat) simp
  then show ?thesis using n by (simp add: packet_length_def)
qed

lemma unat_u32_small: "n < 2 ^ 16 \<Longrightarrow> unat (of_nat n :: u32) = n"
  by (simp only: unat_of_nat) simp

lemma handlePacket_ping:
  assumes "reads_ping ping seqNo name" "length ping < 2 ^ 16" "msgs = [] \<longleftrightarrow> body = []"
    "msgs \<noteq> [] \<longrightarrow> reads_states body msgs" "list_all sendable msgs"
  shows "handlePacket id le ltr h
      (wire_header \<lparr>h_Type = TYPE_PING, h_Body_length = of_nat (length ping)\<rparr> @ ping @ body @ rest)
      (8 + length ping + length body) resp cap =
    rbind (rfold (\<lambda>g. merge_state g True) h msgs) (\<lambda>h'. pong_response le ltr h' (getNodeState h name) seqNo resp cap)"
proof -
  let ?h = "\<lparr>h_Type = TYPE_PING, h_Body_length = of_nat (length ping)\<rparr>"
  let ?buff = "wire_header ?h @ ping @ body @ rest"
  have "DecodeHeader le ?buff 0 = Inr ?h" by (rule DecodeHeader_wire) simp_all
  moreover have "decode_ping ?buff 8 = Inr \<lparr>pi_seqNo = seqNo, pi_from = Some name\<rparr>"
    using assms(1)[unfolded reads_ping_def, rule_format, of "wire_header ?h" "body @ rest"] by simp
  moreover have "rbind (GetNodeStates ?buff (8 + length ping)) (\<lambda>m. mergeStates id h m True) =
      rfold (\<lambda>g. merge_state g True) h msgs" if "msgs \<noteq> []"
  proof -
    have "GetNodeStates ?buff (8 + length ping) = Inr \<lparr>fss_nodes = Some (map (\<lambda>ns. wire ns (printed_port ns)) msgs)\<rparr>"
      using assms(4)[rule_format, OF that, unfolded reads_states_def, rule_format, of "wire_header ?h @ ping" rest] by simp
    then show ?thesis using mergeStates_wire[OF assms(5)] by simp
  qed
  ultimately show ?thesis
    using assms(3) by (cases "msgs = []")
      (simp_all add: handlePacket_def HEADER_SIZE_def of_option_def packet_length_small[OF assms(2)] unat_u32_small[OF assms(2)])
qed

lemma generatePing_datagram:
  assumes "queue_ok a" "no_null (g_name a)" "length (g_name a) \<le> 1000" "length buff = 1460"
  obtains d a' rest msgs q m where "generatePing le ltr a seqNo buff 1460 = Inr (int (length d), a', d @ rest)"
    "0 < length d" "length (d @ rest) = 1460" "a' = a\<lparr>g_bc_queue := q, g_MAX_APPENDED_MSG := m\<rparr>" "queue_sent a a' msgs"
    "gossiped a a' msgs" "ping_datagram d (g_name a) seqNo msgs"
proof -
  have room: "length (g_name a) + 80 \<le> 1460" using assms(3) by simp
  obtain ping msgs body q' m where p:
    "generatePing le ltr a seqNo buff 1460 = Inr (int (8 + length ping + length body),
       a\<lparr>g_bc_queue := q', g_MAX_APPENDED_MSG := m\<rparr>,
       wire_header \<lparr>h_Type = TYPE_PING, h_Body_length = of_nat (length ping)\<rparr> @ ping @ body @
         drop (8 + length ping + length body) buff)"
    "8 + length ping + length body \<le> 1460" "length ping < 2 ^ 16"
    "queue_sent a (a\<lparr>g_bc_queue := q', g_MAX_APPENDED_MSG := m\<rparr>) msgs"
    "gossiped a (a\<lparr>g_bc_queue := q', g_MAX_APPENDED_MSG := m\<rparr>) msgs"
    "list_all sendable msgs" "msgs = [] \<longleftrightarrow> body = []" "reads_ping ping seqNo (g_name a)"
    "msgs \<noteq> [] \<longrightarrow> reads_states body msgs"
    by (rule generatePing_ok[OF assms(1,2) room assms(4), of le ltr seqNo]) (simp, rule that, assumption+)
  let ?h = "\<lparr>h_Type = TYPE_PING, h_Body_length = of_nat (length ping)\<rparr>"
  let ?d = "wire_header ?h @ ping @ body"
  have len: "length ?d = 8 + length ping + length body" by simp
  have "DecodeHeader le (?d @ rest) 0 = Inr ?h" for le rest by (simp, rule DecodeHeader_wire) simp_all
  then have "ping_datagram ?d (g_name a) seqNo msgs"
    using handlePacket_ping[OF p(8,3,7,9,6)] unfolding ping_datagram_def len by (simp add: pong_received_def TYPE_defs)
  moreover have "generatePing le ltr a seqNo buff 1460 = Inr (int (length ?d),
      a\<lparr>g_bc_queue := q', g_MAX_APPENDED_MSG := m\<rparr>, ?d @ drop (length ?d) buff)" using p(1) by (simp add: add.assoc)
  moreover have "length (?d @ drop (length ?d) buff) = 1460" using p(2) assms(4) by simp
  moreover have "0 < length ?d" by simp
  ultimately show thesis using that p(4,5) by blast
qed

lemma ping_sent:
  assumes "queue_ok a" "no_null (g_name a)" "length (g_name a) \<le> 1000" "length buff = 1460"
  shows "\<exists>n a' packet msgs. generatePing le ltr a seqNo buff 1460 = Inr (int n, a', packet) \<and> n \<le> 1460 \<and>
    (\<exists>q m. a' = a\<lparr>g_bc_queue := q, g_MAX_APPENDED_MSG := m\<rparr>) \<and> queue_sent a a' msgs \<and>
    (\<forall>le' ltr' b rest resp cap. handlePacket id le' ltr' b (take n packet @ rest) n resp cap =
       rbind (rfold (\<lambda>g. merge_state g True) b msgs)
         (\<lambda>b'. pong_response le' ltr' b' (getNodeState b (g_name a)) seqNo resp cap))"
proof -
  obtain d a' rest msgs q m where p: "generatePing le ltr a seqNo buff 1460 = Inr (int (length d), a', d @ rest)"
    "length (d @ rest) = 1460" "a' = a\<lparr>g_bc_queue := q, g_MAX_APPENDED_MSG := m\<rparr>" "queue_sent a a' msgs"
    "ping_datagram d (g_name a) seqNo msgs"
    using generatePing_datagram[OF assms, of le ltr seqNo] by metis
  have "take (length d) (d @ rest) = d" "length d \<le> 1460" using p(2) by simp_all
  then show ?thesis
    using p unfolding ping_datagram_def
    by (intro exI[of _ "length d"] exI[of _ a'] exI[of _ "d @ rest"] exI[of _ msgs]) auto
qed

text \<open>
  (C16) A ping carries gossip to the receiver intact. A member's ping always fits its buffer; the packet's
  receiver, whatever follows the packet in its buffer, merges exactly the appended messages, in order, and answers
  with the sequence number; nothing of the sender changes but its limit on messages and its queue, which has charged exactly these one
  transmission each, or has appended none and kept all. What \<^verbatim>\<open>convert\<close> refers to is read unchanged.
\<close>

theorem ping_exchange:
  assumes "queue_ok a" "no_null (g_name a)" "length (g_name a) \<le> 1000" "length buff = 1460"
  shows "\<exists>n a' packet msgs. generatePing le ltr a seqNo buff 1460 = Inr (int n, a', packet) \<and> n \<le> 1460 \<and>
    (\<exists>q m. a' = a\<lparr>g_bc_queue := q, g_MAX_APPENDED_MSG := m\<rparr>) \<and> queue_sent a a' msgs \<and>
    (\<forall>le' ltr' b rest resp cap. handlePacket id le' ltr' b (take n packet @ rest) n resp cap =
       rbind (rfold (\<lambda>g. merge_state g True) b msgs)
         (\<lambda>b'. pong_response le' ltr' b' (getNodeState b (g_name a)) seqNo resp cap))"
  using assms by (rule ping_sent)

section \<open>An example\<close>

text \<open>The member of the theory \<open>Member\<close> after its run, with one message in its queue.\<close>

definition ex_member :: gossiper where
  "ex_member = (case ex_run of Inl _ \<Rightarrow> gossiper_new ex_conf (#) 0 id | Inr g \<Rightarrow> g)"

lemma ex_member_run: "ex_run = Inr ex_member"
proof -
  obtain g0 g where "start_member ex_conf (#) 0 id = Inr g0" "rfold member_step g0 ex_inputs = Inr g"
    by (rule ex_run_states)
  then have r: "ex_run = Inr g" by (simp add: ex_run_def)
  show ?thesis unfolding ex_member_def r by simp
qed

lemma ex_member_ev_inv: "ev_inv ex_member"
proof -
  obtain g0 where g: "start_member ex_conf (#) 0 id = Inr g0" "rfold member_step g0 ex_inputs = Inr ex_member"
    using ex_member_run by (auto simp: ex_run_def rbind_Inr_iff)
  then show ?thesis using start_member_D[OF order_ok_Cons g(1)] ex_inputs_ok member.run_inv by blast
qed

lemma ex_msg_sendable: "no_null n \<Longrightarrow> st \<in> {STATE_ALIVE, STATE_SUSPECT, STATE_DEAD} \<Longrightarrow> sendable (ex_msg n d st)"
proof -
  assume "no_null n" "st \<in> {STATE_ALIVE, STATE_SUSPECT, STATE_DEAD}"
  moreover have "''29011'' = port_string 29011"
    by (simp add: port_string_def to_string_def digit_char_def nat_digits.simps char_of_def bit_simps)
  then have "\<exists>port. ''29011'' = port_string port" ..
  ultimately show ?thesis by (simp add: ex_msg_def sendable_def no_null_def)
qed

lemma ex_member_msgs: "queue_msgs ex_member = [ex_msg ''b'' 3 STATE_DEAD] \<and> g_name ex_member = ''a''"
  by code_simp

lemma ex_member_queue_ok: "queue_ok ex_member"
  using ex_member_ev_inv ex_msg_sendable[of "''b''" STATE_DEAD 3]
  by (simp add: queue_ok_def ex_member_msgs ev_inv_def m_inv_def g_inv_def msg_size_def ns_size_def ex_msg_def max_size_def no_null_def)

theorem ping_exchange_witness:
  "\<exists>n a' packet msgs. generatePing True True ex_member 5 (replicate 1460 0) 1460 = Inr (int n, a', packet) \<and>
    queue_sent ex_member a' msgs \<and>
    handlePacket id False True ex_member (take n packet @ []) n (replicate 1460 1) 1460 =
      rbind (rfold (\<lambda>g. merge_state g True) ex_member msgs)
        (\<lambda>b'. pong_response False True b' (getNodeState ex_member ''a'') 5 (replicate 1460 1) 1460)"
proof -
  have "no_null (g_name ex_member)" "length (g_name ex_member) \<le> 1000" by (simp_all add: ex_member_msgs no_null_def)
  from ping_exchange[OF ex_member_queue_ok this, of "replicate 1460 0" True True 5] show ?thesis
    unfolding ex_member_msgs[THEN conjunct2] by (simp only: length_replicate) blast
qed

end
