(* ===== verification/Exchange.thy ===== *)
theory Exchange
  imports Packets
begin

text \<open>
  Exchanges between two members, over the buffers they read and write: a pong and its dead alert, the
  refutation of a false death, and the synchronisation of states over TCP when a member joins.
\<close>

section \<open>Pongs\<close>

text \<open>What a received pong does to a member whose ping was answered with the entry \<open>ns\<close>.\<close>

definition alerted :: "gossiper \<Rightarrow> node_state option \<Rightarrow> gossiper" where
  "alerted a ns =
     (case ns of
        Some st \<Rightarrow> if ns_State st = STATE_DEAD \<and> ns_Name st = g_name a then fuckyou a (ns_Dominant st) else a
      | None \<Rightarrow> a)"

text \<open>The fields of a state that a pong callback reads, one by one.\<close>

lemma decode_state_fields:
  assumes "decode_state mem p = Inr (wire st port)"
  obtains q node s v where "GetRoot mem p = Inr q" "GetPointer mem q 4 = Inr (Some node)"
    "GetPointer mem node 4 = Inr (Some s)" "str mem s = Inr (ns_Name st)"
    "GetField mem q 6 (0 :: u8) = Inr v" "STATE_of_i8 v = STATE_of_i8 (state_i8 (ns_State st))"
    "GetField mem q 8 (0 :: u64) = Inr (ns_Dominant st)"
  using assms
  by (auto simp: decode_state_def NodeState_at_def Node_at_def deref_def wire_def rbind_Inr_iff split: option.splits)

lemma pong_received_alert:
  assumes "DecodeHeader le resp 0 = Inr h" "h_Type h = TYPE_PONG" "decode_pong resp 8 = Inr pong"
    "packet_length h < sz" "decode_state resp (8 + unat (h_Body_length h)) = Inr (wire st port)"
    "ns_State st = STATE_DEAD"
  shows "pong_received le a seq resp sz = Inr (alerted a (Some st))"
proof -
  obtain q node s v where "GetRoot resp (8 + unat (h_Body_length h)) = Inr q" "GetPointer resp q 4 = Inr (Some node)"
    "GetPointer resp node 4 = Inr (Some s)" "str resp s = Inr (ns_Name st)"
    "GetField resp q 6 (0 :: u8) = Inr v" "STATE_of_i8 v = STATE_of_i8 (state_i8 (ns_State st))"
    "GetField resp q 8 (0 :: u64) = Inr (ns_Dominant st)"
    by (rule decode_state_fields[OF assms(5)])
  then show ?thesis
    using assms(1-4,6) STATE_of_state_i8[of STATE_DEAD]
    by (simp add: pong_received_def HEADER_SIZE_def of_option_def alerted_def)
qed

lemma pong_received_plain:
  assumes "DecodeHeader le resp 0 = Inr h" "h_Type h = TYPE_PONG" "decode_pong resp 8 = Inr pong"
    "\<not> packet_length h < sz"
  shows "pong_received le a seq resp sz = Inr a"
  using assms by (simp add: pong_received_def HEADER_SIZE_def)

text \<open>The entry of the pinging member is small enough for the alert to fit next to the pong.\<close>

definition alert_fits :: "node_state option \<Rightarrow> nat \<Rightarrow> bool" where
  "alert_fits ns cap \<longleftrightarrow> (\<forall>st. ns = Some st \<longrightarrow> sendable st \<and> ns_size st + 250 \<le> cap)"

lemma alert_fits_state_ok: "alert_fits ns cap \<Longrightarrow> cap < 2 ^ 16 \<Longrightarrow> state_ok ns"
  by (auto simp: alert_fits_def state_ok_def max_size_def)

lemma alert_of_cases:
  assumes "alert_fits ns cap" "cap < 2 ^ 16" "n \<le> 54"
  obtains (none) "alert_of ltr ns (cap - n) = []" "\<And>a. alerted a ns = a"
  | (alert) st where "ns = Some st" "ns_State st = STATE_DEAD" "alert_of ltr ns (cap - n) \<noteq> []"
    "\<And>pre post. decode_state (pre @ alert_of ltr ns (cap - n) @ post) (length pre) = Inr (wire st (printed_port st))"
proof (cases "\<exists>st. ns = Some st \<and> ns_State st = STATE_DEAD")
  case True
  then obtain st where st: "ns = Some st" "ns_State st = STATE_DEAD" by blast
  then have s: "encodable st" "ns_size st + 250 \<le> cap"
    using assms(1) sendable_encodable by (auto simp: alert_fits_def)
  then have "ns_size st + 400 \<le> max_size" using assms(2) by (simp add: max_size_def)
  from encode_state_ok[OF s(1) this, of ltr] obtain body where b: "encode_state ltr st = Inr body"
    "length body \<le> ns_size st + 188"
    "\<And>pre post. decode_state (pre @ body @ post) (length pre) = Inr (wire st (printed_port st))"
    by metis
  have "length body \<le> cap - n" using b(2) s(2) assms(3) by linarith
  then have "alert_of ltr ns (cap - n) = body" using st b(1) by (simp add: alert_of_def)
  moreover have "body \<noteq> []"
    using b(3)[of "[]" "[]"] by (auto simp: decode_state_def GetRoot_def ReadScalar_def buf_read_def rbind_Inr_iff split: if_splits)
  ultimately show thesis using alert st b(3) by simp
next
  case False
  then show thesis using none by (auto simp: alert_of_def alerted_def split: option.splits)
qed

text \<open>A datagram that is a pong and carries the alert for the entry \<open>ns\<close>, if that one is dead; a server ignores it.\<close>

definition pong_datagram :: "bytes \<Rightarrow> node_state option \<Rightarrow> bool" where
  "pong_datagram d ns \<longleftrightarrow>
     (\<forall>le a seq rest. pong_received le a seq (d @ rest) (length d) = Inr (alerted a ns)) \<and>
     (\<forall>le ltr g rest resp cap. handlePacket id le ltr g (d @ rest) (length d) resp cap = Inr (0, g, resp))"

lemma pong_response_datagram:
  assumes "alert_fits ns cap" "54 \<le> cap" "cap < 2 ^ 16" "length resp = cap"
  obtains d rest where "pong_response le ltr b ns seqNo resp cap = Inr (int (length d), b, d @ rest)" "0 < length d"
    "length (d @ rest) = cap" "pong_datagram d ns"
proof -
  obtain pong alert where p:
    "pong_response le ltr b ns seqNo resp cap = Inr (int (8 + length pong + length alert), b,
       wire_header \<lparr>h_Type = TYPE_PONG, h_Body_length = of_nat (length pong)\<rparr> @ pong @ alert @
         drop (8 + length pong + length alert) resp)"
    "8 + length pong + length alert \<le> cap" "length pong \<le> 46" "alert = alert_of ltr ns (cap - (8 + length pong))"
    "reads_pong pong seqNo"
    by (rule pong_response_ok[OF alert_fits_state_ok[OF assms(1,3)] assms(2,4,3)])
  let ?h = "\<lparr>h_Type = TYPE_PONG, h_Body_length = of_nat (length pong)\<rparr>"
  let ?d = "wire_header ?h @ pong @ alert" and ?n = "8 + length pong + length alert"
  have sz: "packet_length ?h = 8 + length pong" "unat (h_Body_length ?h) = length pong"
    using p(3) packet_length_small[of "length pong" TYPE_PONG] unat_u32_small[of "length pong"] by simp_all
  have n: "8 + length pong \<le> 54" using p(3) by simp
  have d: "DecodeHeader le (wire_header ?h @ pong @ alert @ rest) 0 = Inr ?h" for le rest by (rule DecodeHeader_wire) simp_all
  have "pong_received le' a seq (?d @ rest) (length ?d) = Inr (alerted a ns)" for le' a seq rest
  proof -
    let ?m = "wire_header ?h @ pong @ alert @ rest"
    have take: "?d @ rest = ?m" "length ?d = ?n" by simp_all
    have y: "decode_pong ?m 8 = Inr \<lparr>po_seqNo = seqNo\<rparr>"
      using p(5)[unfolded reads_pong_def, rule_format, of "wire_header ?h" "alert @ rest"] by simp
    show ?thesis
    proof (rule alert_of_cases[OF assms(1,3) n, of ltr])
      assume e: "alert_of ltr ns (cap - (8 + length pong)) = []" and "\<And>a. alerted a ns = a"
      moreover have "\<not> packet_length ?h < ?n" by (simp add: sz p(4) e)
      ultimately show ?thesis unfolding take using pong_received_plain[OF d _ y] by simp
    next
      fix st assume st: "ns = Some st" "ns_State st = STATE_DEAD" "alert_of ltr ns (cap - (8 + length pong)) \<noteq> []"
        "\<And>pre post. decode_state (pre @ alert_of ltr ns (cap - (8 + length pong)) @ post) (length pre) =
           Inr (wire st (printed_port st))"
      have "decode_state ((wire_header ?h @ pong) @ alert @ rest) (length (wire_header ?h @ pong)) =
          Inr (wire st (printed_port st))" unfolding p(4) by (rule st(4))
      then have "decode_state ?m (8 + unat (h_Body_length ?h)) = Inr (wire st (printed_port st))" unfolding sz(2) by simp
      moreover have "packet_length ?h < ?n" using st(3) by (simp add: sz p(4))
      ultimately show ?thesis unfolding take st(1) using pong_received_alert[OF d _ y _ _ st(2)] by simp
    qed
  qed
  moreover have "handlePacket id le' ltr' g (?d @ rest) (length ?d) out sz = Inr (0, g, out)" for le' ltr' g rest out sz
    using d by (simp add: handlePacket_def TYPE_defs)
  ultimately have "pong_datagram ?d ns" by (simp add: pong_datagram_def)
  moreover have "pong_response le ltr b ns seqNo resp cap = Inr (int (length ?d), b, ?d @ drop (length ?d) resp)"
    using p(1) by (simp add: add.assoc)
  moreover have "length (?d @ drop (length ?d) resp) = cap" "0 < length ?d" using p(2) assms(4) by simp_all
  ultimately show thesis using that by blast
qed

lemma pong_sent:
  assumes "alert_fits ns cap" "54 \<le> cap" "cap < 2 ^ 16" "length resp = cap"
  shows "\<exists>n packet. pong_response le ltr b ns seqNo resp cap = Inr (int n, b, packet) \<and> n \<le> cap \<and>
    (\<forall>le' a seq rest. pong_received le' a seq (take n packet @ rest) n = Inr (alerted a ns))"
proof (rule pong_response_datagram[OF assms])
  fix d rest assume p: "pong_response le ltr b ns seqNo resp cap = Inr (int (length d), b, d @ rest)"
    "length (d @ rest) = cap" "pong_datagram d ns"
  then show ?thesis unfolding pong_datagram_def by (intro exI[of _ "length d"] exI[of _ "d @ rest"]) auto
qed

text \<open>
  A pong answers the ping and, when the sender of the ping was known as dead, alerts it. The
  answer always fits its buffer and is read without a fault, whatever follows it; the receiver
  objects with the dominant of the entry exactly when that entry is dead and named like the
  receiver, whether or not the pong's sequence number is the expected one.
\<close>

theorem pong_exchange:
  assumes "alert_fits ns cap" "54 \<le> cap" "cap < 2 ^ 16" "length resp = cap"
  shows "\<exists>n packet. pong_response le ltr b ns seqNo resp cap = Inr (int n, b, packet) \<and> n \<le> cap \<and>
    (\<forall>le' a seq rest. pong_received le' a seq (take n packet @ rest) n = Inr (alerted a ns))"
  using assms by (rule pong_sent)

theorem pong_exchange_witness:
  "\<exists>n packet. pong_response True True ex_member (Some (ex_msg ''b'' 3 STATE_DEAD)) 9 (replicate 1460 0) 1460 =
      Inr (int n, ex_member, packet) \<and>
    pong_received False (gossiper_new (ex_conf\<lparr>conf_Name := ''b''\<rparr>) (#) 0 id) 1 (take n packet @ [7]) n =
      Inr (fuckyou (gossiper_new (ex_conf\<lparr>conf_Name := ''b''\<rparr>) (#) 0 id) 3)"
proof -
  have "alert_fits (Some (ex_msg ''b'' 3 STATE_DEAD)) 1460"
    using ex_msg_sendable[of "''b''" STATE_DEAD 3] by (simp add: alert_fits_def ns_size_def ex_msg_def no_null_def)
  from pong_exchange[OF this, of "replicate 1460 0" True True ex_member 9] obtain n packet where
    "pong_response True True ex_member (Some (ex_msg ''b'' 3 STATE_DEAD)) 9 (replicate 1460 0) 1460 = Inr (int n, ex_member, packet)"
    "\<forall>le' a seq rest. pong_received le' a seq (take n packet @ rest) n = Inr (alerted a (Some (ex_msg ''b'' 3 STATE_DEAD)))"
    by auto
  then show ?thesis by (intro exI[of _ n] exI[of _ packet]) (simp add: alerted_def ex_msg_def gossiper_new_def)
qed

section \<open>The refutation of a false death\<close>

lemma merge_run: "rfold member_step g (map (In_state bc) msgs) = rfold (\<lambda>g. merge_state g bc) g msgs"
proof (induction msgs arbitrary: g)
  case (Cons m msgs)
  then show ?case by (cases "merge_state g bc m") simp_all
qed simp

lemma merge_inputs_ok: "list_all input_ok (map (In_state bc) msgs)"
  by (simp add: list_all_iff)

lemma merge_states_ev_inv: "ev_inv g \<Longrightarrow> rfold (\<lambda>g. merge_state g bc) g msgs = Inr g' \<Longrightarrow> ev_inv g'"
  unfolding merge_run[symmetric] using merge_inputs_ok by (rule member.run_inv[rotated])

lemma merge_states_le: "ev_inv g \<Longrightarrow> rfold (\<lambda>g. merge_state g bc) g msgs = Inr g' \<Longrightarrow> g_le g g'"
  unfolding merge_run[symmetric] using merge_inputs_ok by (rule member_progress.run_le[rotated])

text \<open>
  (C13) A false death is refuted in one exchange of packets. Member \<open>a\<close> pings member \<open>b\<close>, which holds \<open>a\<close>
  for dead and has no newer news of it after merging the ping's gossip. Reading the answer, \<open>a\<close>
  objects with a higher dominant, and \<open>b\<close> accepts that objection whenever it arrives as the next message: it then lists \<open>a\<close> as
  alive again. The byte order of the two hosts may differ.
\<close>

theorem false_death_refuted:
  assumes "queue_ok a" "no_null (g_name a)" "length (g_name a) \<le> 1000" "length buff = 1460"
    "generatePing le ltr a seq buff 1460 = Inr (int n, a', ping)"
    "ev_inv b" "getNodeState b (g_name a) = Some st" "ns_State st = STATE_DEAD" "ns_Name st = g_name a"
    "alert_fits (Some st) 1460" "ns_Dominant st \<noteq> - 1" "length resp = 1460"
    "handlePacket id le' ltr' b (take n ping @ rest) n resp 1460 = Inr (k, b', answer)"
    "getNodeState b' (g_name a) = Some st'" "ns_Dominant st' \<le> ns_Dominant st"
  shows "pong_received le a' seq (take (nat k) answer @ rest') (nat k) = Inr (fuckyou a' (ns_Dominant st)) \<and>
    (\<exists>h' st''. aliveNode b' (self_state a' (g_dominant (fuckyou a' (ns_Dominant st)))) bc = Inr h' \<and>
       getNodeState h' (g_name a) = Some st'' \<and> ns_State st'' = STATE_ALIVE \<and> g_name a \<in> set (GetAliveNodes h'))"
proof -
  obtain msgs b'' where x: "g_name a' = g_name a" "rfold (\<lambda>g. merge_state g True) b msgs = Inr b''"
    "pong_response le' ltr' b'' (Some st) seq resp 1460 = Inr (k, b', answer)"
    using ping_sent[OF assms(1-4), of le ltr seq] assms(5,7,13) by (fastforce simp: rbind_Inr_iff)
  moreover obtain m packet where y: "pong_response le' ltr' b'' (Some st) seq resp 1460 = Inr (int m, b'', packet)"
    "\<forall>le a seq rest. pong_received le a seq (take m packet @ rest) m = Inr (alerted a (Some st))"
    using pong_sent[OF assms(10) _ _ assms(12), of le' ltr' b'' seq] by auto
  ultimately have b: "b' = b''" "k = int m" "answer = packet" by auto
  then have inv: "ev_inv b'" using merge_states_ev_inv[OF assms(6) x(2)] by simp
  then have "g_inv b'" "\<not> g_is_leaving b'" by (simp_all add: ev_inv_def m_inv_def)
  then show ?thesis
    using y(2) b objection_accepted[of b' a' "ns_Dominant st" st' bc] assms(8,9,11,14,15) x(1) by (simp add: alerted_def)
qed

text \<open>A member \<open>b\<close> that has just been constructed, and a member \<open>a\<close> that holds it for dead.\<close>

definition ex_b :: gossiper where
  "ex_b = gossiper_new (ex_conf\<lparr>conf_Name := ''b''\<rparr>) (#) 0 id"

definition ex_accuser :: gossiper where
  "ex_accuser = (case rbind (start_member ex_conf (#) 0 id) (\<lambda>g. rfold member_step g (take 3 ex_inputs)) of
     Inl _ \<Rightarrow> gossiper_new ex_conf (#) 0 id | Inr g \<Rightarrow> g)"

lemma ex_accuser_knows:
  "getNodeState ex_accuser ''b'' = Some (ex_msg ''b'' 3 STATE_DEAD)"
  by code_simp

lemma ex_accuser_ev_inv: "ev_inv ex_accuser"
proof -
  have "is_ok (rbind (start_member ex_conf (#) 0 id) (\<lambda>g. rfold member_step g (take 3 ex_inputs)))" by code_simp
  then obtain g0 g where g: "start_member ex_conf (#) 0 id = Inr g0" "rfold member_step g0 (take 3 ex_inputs) = Inr g"
    by (auto simp: is_ok_iff rbind_Inr_iff)
  then have acc: "ex_accuser = g" by (simp add: ex_accuser_def)
  have "list_all input_ok (take 3 ex_inputs)" by (simp add: ex_inputs_def)
  then show ?thesis unfolding acc using start_member_D[OF order_ok_Cons g(1)] g(2) member.run_inv by blast
qed

lemma ex_b_queue: "queue_ok ex_b" "bq_rot (g_bc_queue ex_b) = []" "g_name ex_b = ''b''" "queue_msgs ex_b = []"
proof -
  show q: "bq_rot (g_bc_queue ex_b) = []" by code_simp
  then show m: "queue_msgs ex_b = []" by (simp add: queue_msgs_def)
  show "g_name ex_b = ''b''" by (simp add: ex_b_def gossiper_new_def)
  have "bq_idle (g_bc_queue ex_b)" by (simp add: ex_b_def gossiper_new_def bq_inv_init[OF order_ok_Cons])
  then show "queue_ok ex_b" using m by (simp add: queue_ok_def msg_size_def max_size_def)
qed

theorem false_death_refuted_witness:
  "\<exists>n a' ping k answer h' st''. generatePing True True ex_b 1 (replicate 1460 0) 1460 = Inr (int n, a', ping) \<and>
    handlePacket id False True ex_accuser (take n ping @ [3]) n (replicate 1460 0) 1460 = Inr (k, ex_accuser, answer) \<and>
    pong_received True a' 1 (take (nat k) answer @ []) (nat k) = Inr (fuckyou a' 3) \<and>
    aliveNode ex_accuser (self_state a' (g_dominant (fuckyou a' 3))) True = Inr h' \<and>
    getNodeState h' ''b'' = Some st'' \<and> ns_State st'' = STATE_ALIVE \<and> ''b'' \<in> set (GetAliveNodes h')"
proof -
  let ?st = "ex_msg ''b'' 3 STATE_DEAD" and ?buff = "replicate 1460 0"
  have nm: "no_null (g_name ex_b)" "length (g_name ex_b) \<le> 1000" by (simp_all add: ex_b_queue no_null_def)
  have fits: "alert_fits (Some ?st) 1460"
    using ex_msg_sendable[of "''b''" STATE_DEAD 3] by (simp add: alert_fits_def ns_size_def ex_msg_def no_null_def)
  obtain n a' ping msgs where p: "generatePing True True ex_b 1 ?buff 1460 = Inr (int n, a', ping)"
    "queue_sent ex_b a' msgs"
    "\<And>le' ltr' b rest resp cap. handlePacket id le' ltr' b (take n ping @ rest) n resp cap =
       rbind (rfold (\<lambda>g. merge_state g True) b msgs)
         (\<lambda>b'. pong_response le' ltr' b' (getNodeState b ''b'') 1 resp cap)"
    using ping_sent[OF ex_b_queue(1) nm, of ?buff True True 1] unfolding ex_b_queue(3) by auto
  have "msgs = []" using p(2) by (auto simp: queue_sent_def ex_b_queue(4) Let_def)
  moreover obtain m packet where "pong_response False True ex_accuser (Some ?st) 1 ?buff 1460 = Inr (int m, ex_accuser, packet)"
    using pong_sent[OF fits, of ?buff False True ex_accuser 1] by auto
  ultimately have h: "handlePacket id False True ex_accuser (take n ping @ [3]) n ?buff 1460 = Inr (int m, ex_accuser, packet)"
    by (simp add: p(3) ex_accuser_knows)
  have "pong_received True a' 1 (take (nat (int m)) packet @ []) (nat (int m)) = Inr (fuckyou a' (ns_Dominant ?st)) \<and>
    (\<exists>h' st''. aliveNode ex_accuser (self_state a' (g_dominant (fuckyou a' (ns_Dominant ?st)))) True = Inr h' \<and>
       getNodeState h' (g_name ex_b) = Some st'' \<and> ns_State st'' = STATE_ALIVE \<and> g_name ex_b \<in> set (GetAliveNodes h'))"
    by (rule false_death_refuted[where st' = ?st, OF ex_b_queue(1) nm _ p(1) ex_accuser_ev_inv _ _ _ fits _ _ h])
      (simp_all add: ex_b_queue(3) ex_accuser_knows ex_msg_def)
  then have "pong_received True a' 1 (take (nat (int m)) packet @ []) (nat (int m)) = Inr (fuckyou a' 3) \<and>
    (\<exists>h' st''. aliveNode ex_accuser (self_state a' (g_dominant (fuckyou a' 3))) True = Inr h' \<and>
       getNodeState h' ''b'' = Some st'' \<and> ns_State st'' = STATE_ALIVE \<and> ''b'' \<in> set (GetAliveNodes h'))"
    by (simp only: ex_b_queue(3)) (simp add: ex_msg_def)
  with p(1) h show ?thesis by blast
qed
end
