(* ===== verification/Agreement.thy ===== *)
theory Agreement
  imports Exchange
begin

text \<open>
  When members agree. What ALIVE and DEAD messages do to one entry of the node table is a small machine on
  the entry's dominant and whether it is dead; the handlers of \<^verbatim>\<open>src/src/gossiper.hpp\<close> refine it. A DEAD
  message about a node that is dead already is not recorded, so the order of messages matters, but hearing
  the same news a second time settles it.
\<close>

section \<open>One entry of the table\<close>

type_synonym entry = "(u64 \<times> bool) option"

definition entry_of :: "gossiper \<Rightarrow> string \<Rightarrow> entry" where
  "entry_of g n = map_option (\<lambda>st. (ns_Dominant st, ns_State st = STATE_DEAD)) (getNodeState g n)"

definition entry_dominant :: "entry \<Rightarrow> u64" where
  "entry_dominant e = (case e of None \<Rightarrow> 0 | Some (d, _) \<Rightarrow> d)"

lemma entry_dominant_simps [simp]: "entry_dominant None = 0" "entry_dominant (Some (d, b)) = d"
  by (simp_all add: entry_dominant_def)

definition hears :: "entry \<Rightarrow> node_state \<Rightarrow> entry" where
  "hears e m =
     (if ns_State m = STATE_ALIVE then
        if entry_dominant e < ns_Dominant m then Some (ns_Dominant m, False) else e
      else
        case e of
          Some (d, False) \<Rightarrow> if d \<le> ns_Dominant m then Some (ns_Dominant m, True) else e
        | _ \<Rightarrow> e)"

definition verdict :: "node_state \<Rightarrow> bool" where
  "verdict m \<longleftrightarrow> ns_State m = STATE_ALIVE \<or> ns_State m = STATE_DEAD"

lemma merge_state_entry:
  assumes "ev_inv g" "n \<noteq> g_name g" "verdict m"
  shows "\<exists>g'. merge_state g bc m = Inr g' \<and> ev_inv g' \<and> g_name g' = g_name g \<and>
    entry_of g' n = (if ns_Name m = n then hears (entry_of g n) m else entry_of g n)"
proof -
  have wf: "um_wf (g_node_map g)" and ds: "distinct (g_nodes g)" and nl: "\<not> g_is_leaving g"
    using assms(1) by (auto simp: ev_inv_def m_inv_def g_inv_def)
  define g' where "g' = (if ns_State m = STATE_ALIVE then if alive_accepts g m then alive_result g m bc else g else dead_step g m)"
  have m: "merge_state g bc m = Inr g'"
    using assms(3) by (auto simp: merge_state_def g'_def verdict_def aliveNode_cases[OF wf] deadNode_cases)
  have "ev_inv g'" using member_step_ev_inv[OF assms(1), of "In_state bc m"] m by simp
  moreover have "g_name g' = g_name g"
    by (auto simp: g'_def alive_result_fields[OF wf] dead_result_fields[OF wf ds] dead_step_def dead_base_def split: option.splits)
  moreover have "entry_of g' n = (if ns_Name m = n then hears (entry_of g n) m else entry_of g n)"
  proof (cases "ns_State m = STATE_ALIVE")
    case True
    then show ?thesis using nl
      by (auto simp: g'_def entry_of_def getNodeState_def hears_def alive_accepts_def known_dominant_def entry_dominant_def
          alive_result_fields[OF wf] split: option.splits)
  next
    case False
    then show ?thesis using assms(2,3)
      by (auto simp: g'_def entry_of_def getNodeState_def hears_def dead_step_def verdict_def dead_result_fields[OF wf ds] dead_base_def
          split: option.splits)
  qed
  ultimately show ?thesis using m by blast
qed

lemma merge_all_entry:
  assumes "ev_inv g" "n \<noteq> g_name g" "list_all verdict ms"
  shows "\<exists>g'. rfold (\<lambda>g. merge_state g bc) g ms = Inr g' \<and> ev_inv g' \<and> g_name g' = g_name g \<and>
    entry_of g' n = foldl hears (entry_of g n) (filter (\<lambda>m. ns_Name m = n) ms)"
  using assms
proof (induction ms arbitrary: g)
  case (Cons m ms)
  then obtain g1 where "merge_state g bc m = Inr g1" "ev_inv g1" "g_name g1 = g_name g"
    "entry_of g1 n = (if ns_Name m = n then hears (entry_of g n) m else entry_of g n)"
    using merge_state_entry[of g n m bc] by auto
  then show ?case using Cons.IH[of g1] Cons.prems by auto
qed simp

lemma alive_iff_entry: "ev_inv g \<Longrightarrow> n \<in> set (GetAliveNodes g) \<longleftrightarrow> (\<exists>d. entry_of g n = Some (d, False))"
  by (auto simp: ev_inv_alive_exact(3) entry_of_def)

section \<open>Two rounds\<close>

lemma hears_dominant: "entry_dominant e \<le> entry_dominant (hears e m)"
  by (auto simp: hears_def entry_dominant_def split: option.splits bool.splits)

lemma hears_all_dominant: "entry_dominant e \<le> entry_dominant (foldl hears e ms)"
proof (induction ms arbitrary: e)
  case (Cons m ms)
  then show ?case using hears_dominant[of e m] order_trans by fastforce
qed simp

lemma heard_alive: "m \<in> set ms \<Longrightarrow> ns_State m = STATE_ALIVE \<Longrightarrow> ns_Dominant m \<le> entry_dominant (foldl hears e ms)"
proof (induction ms arbitrary: e)
  case (Cons x ms)
  have "ns_Dominant m \<le> entry_dominant (hears e m)" using Cons.prems(2) by (simp add: hears_def not_less)
  then show ?case using Cons hears_all_dominant[of "hears e m" ms] by (auto intro: order_trans)
qed simp

text \<open>Where an entry comes from.\<close>

lemma hears_source:
  "foldl hears e ms = Some (d, dead) \<Longrightarrow> e = Some (d, dead) \<or>
     (\<exists>m \<in> set ms. ns_Dominant m = d \<and> (if dead then ns_State m \<noteq> STATE_ALIVE else ns_State m = STATE_ALIVE \<and> entry_dominant e < d))"
proof (induction ms arbitrary: e)
  case (Cons m ms)
  have "hears e m = e \<or> hears e m = Some (ns_Dominant m, ns_State m \<noteq> STATE_ALIVE) \<and> (ns_State m = STATE_ALIVE \<longrightarrow> entry_dominant e < ns_Dominant m)"
    by (auto simp: hears_def split: option.splits bool.splits)
  then show ?case using Cons.IH[of "hears e m"] Cons.prems hears_dominant[of e m]
    by (auto split: if_splits)
qed simp

lemma hears_keeps: "e \<noteq> None \<Longrightarrow> foldl hears e ms \<noteq> None"
proof (induction ms arbitrary: e)
  case (Cons m ms)
  have "hears e m \<noteq> None" using Cons.prems by (auto simp: hears_def split: bool.splits)
  then show ?case using Cons.IH by simp
qed simp

text \<open>No ALIVE message is news any more: the entry can only die.\<close>

lemma hears_old_step:
  assumes "ns_State m = STATE_ALIVE \<longrightarrow> ns_Dominant m \<le> entry_dominant e"
  shows "hears e m = Some (d, False) \<longleftrightarrow> e = Some (d, False) \<and> (ns_State m \<noteq> STATE_ALIVE \<longrightarrow> ns_Dominant m < d)"
  using assms by (auto simp: hears_def not_less not_le split: option.splits bool.splits)

lemma hears_old:
  assumes "\<forall>m \<in> set ms. ns_State m = STATE_ALIVE \<longrightarrow> ns_Dominant m \<le> entry_dominant e"
  shows "foldl hears e ms = Some (d, False) \<longleftrightarrow>
    e = Some (d, False) \<and> (\<forall>m \<in> set ms. ns_State m \<noteq> STATE_ALIVE \<longrightarrow> ns_Dominant m < d)"
  using assms
proof (induction ms arbitrary: e)
  case (Cons m ms)
  have "\<forall>x \<in> set ms. ns_State x = STATE_ALIVE \<longrightarrow> ns_Dominant x \<le> entry_dominant (hears e m)"
  proof (intro ballI impI)
    fix x assume "x \<in> set ms" "ns_State x = STATE_ALIVE"
    then have "ns_Dominant x \<le> entry_dominant e" using Cons.prems by simp
    also have "\<dots> \<le> entry_dominant (hears e m)" by (rule hears_dominant)
    finally show "ns_Dominant x \<le> entry_dominant (hears e m)" .
  qed
  note IH = Cons.IH[OF this]
  have step: "hears e m = Some (d, False) \<longleftrightarrow> e = Some (d, False) \<and> (ns_State m \<noteq> STATE_ALIVE \<longrightarrow> ns_Dominant m < d)"
    using Cons.prems by (intro hears_old_step) simp
  show ?case unfolding foldl_Cons IH step by auto
qed simp

text \<open>The last word on a node: the highest ALIVE message, or the entry itself, above every DEAD one.\<close>

definition last_word_alive :: "entry \<Rightarrow> node_state set \<Rightarrow> bool" where
  "last_word_alive e M \<longleftrightarrow>
     (\<exists>x. (e = Some (x, False) \<or> entry_dominant e < x \<and> (\<exists>m \<in> M. ns_State m = STATE_ALIVE \<and> ns_Dominant m = x)) \<and>
        (\<forall>m \<in> M. if ns_State m = STATE_ALIVE then ns_Dominant m \<le> x else ns_Dominant m < x))"

lemma two_rounds_settle:
  assumes "set r1 = M" "set r2 = M"
  shows "(\<exists>d. foldl hears e (r1 @ r2) = Some (d, False)) \<longleftrightarrow> last_word_alive e M"
proof -
  let ?e1 = "foldl hears e r1"
  have A: "\<forall>m \<in> M. ns_State m = STATE_ALIVE \<longrightarrow> ns_Dominant m \<le> entry_dominant ?e1"
    using heard_alive assms(1) by blast
  have old: "(\<exists>d. foldl hears e (r1 @ r2) = Some (d, False)) \<longleftrightarrow>
      (\<exists>d. ?e1 = Some (d, False) \<and> (\<forall>m \<in> M. ns_State m \<noteq> STATE_ALIVE \<longrightarrow> ns_Dominant m < d))"
    using hears_old[of r2 ?e1] A assms(2) by simp
  show ?thesis
  proof
    assume "\<exists>d. foldl hears e (r1 @ r2) = Some (d, False)"
    then obtain d where d: "?e1 = Some (d, False)" "\<forall>m \<in> M. ns_State m \<noteq> STATE_ALIVE \<longrightarrow> ns_Dominant m < d"
      using old by blast
    have "e = Some (d, False) \<or> (\<exists>m \<in> M. ns_Dominant m = d \<and> ns_State m = STATE_ALIVE \<and> entry_dominant e < d)"
      using hears_source[OF d(1)] assms(1) by simp
    moreover have "\<forall>m \<in> M. if ns_State m = STATE_ALIVE then ns_Dominant m \<le> d else ns_Dominant m < d"
      using A d by simp
    ultimately show "last_word_alive e M" unfolding last_word_alive_def by blast
  next
    assume "last_word_alive e M"
    then obtain x where x: "e = Some (x, False) \<or> entry_dominant e < x \<and> (\<exists>m \<in> M. ns_State m = STATE_ALIVE \<and> ns_Dominant m = x)"
      "\<forall>m \<in> M. if ns_State m = STATE_ALIVE then ns_Dominant m \<le> x else ns_Dominant m < x"
      by (auto simp: last_word_alive_def)
    have ge: "x \<le> entry_dominant ?e1"
    proof (cases "e = Some (x, False)")
      case True
      then show ?thesis using hears_all_dominant[of e r1] by simp
    qed (use x(1) A in auto)
    have pos: "entry_dominant e \<le> x" using x(1) by auto
    have "\<exists>d dead. ?e1 = Some (d, dead)"
      using x(1) ge hears_keeps[of e r1] by (cases ?e1) auto
    then obtain d dead where d: "?e1 = Some (d, dead)" by blast
    have "\<not> dead"
    proof
      assume dead
      with hears_source[OF d] assms(1) have "e = Some (d, True) \<or> (\<exists>m \<in> M. ns_Dominant m = d \<and> ns_State m \<noteq> STATE_ALIVE)" by simp
      then show False using ge d x by fastforce
    qed
    moreover have "\<forall>m \<in> M. ns_State m \<noteq> STATE_ALIVE \<longrightarrow> ns_Dominant m < d"
      using x(2) ge d by fastforce
    ultimately show "\<exists>d. foldl hears e (r1 @ r2) = Some (d, False)" using old d by auto
  qed
qed

section \<open>Examples\<close>

lemma ex_entry: "entry_of ex_member ''b'' = Some (4, False)" "g_name ex_member = ''a''"
  by code_simp+

definition ex_news :: "node_state list" where
  "ex_news = [ex_msg ''b'' 4 STATE_DEAD, ex_msg ''b'' 6 STATE_DEAD, ex_msg ''b'' 5 STATE_ALIVE]"

lemma ex_news_set: "set (rev ex_news) = set ex_news" "list_all verdict (ex_news @ ex_news)"
  by (simp, simp add: ex_news_def verdict_def ex_msg_def)

lemma ex_news_last: "\<not> last_word_alive (Some (4, False)) {m \<in> set ex_news. ns_Name m = ''b''}"
proof
  assume "last_word_alive (Some (4, False)) {m \<in> set ex_news. ns_Name m = ''b''}"
  then obtain x where x: "x = 4 \<or> (\<exists>m \<in> set ex_news. ns_State m = STATE_ALIVE \<and> ns_Dominant m = x)"
    "\<forall>m \<in> set ex_news. ns_Name m = ''b'' \<longrightarrow> ns_State m \<noteq> STATE_ALIVE \<longrightarrow> ns_Dominant m < x"
    unfolding last_word_alive_def by fastforce
  have "x = 4 \<or> x = 5" using x(1) by (auto simp: ex_news_def ex_msg_def)
  moreover have "6 < x" using x(2) by (simp add: ex_news_def ex_msg_def)
  ultimately show False by auto
qed

section \<open>Properties\<close>

text \<open>
  (C8) Two rounds of the same news make members agree. Two members that start with the same entry of a node, or none,
  and hear the same ALIVE and DEAD messages twice, each round in any order and with any repetitions, agree on whether
  the node is alive, and on nothing but the news: it is alive exactly when its highest ALIVE message,
  or its old entry, exceeds every DEAD one.
\<close>

theorem two_rounds_agree:
  assumes "ev_inv a" "ev_inv b" "n \<noteq> g_name a" "n \<noteq> g_name b" "entry_of a n = entry_of b n"
    "list_all verdict (r1 @ r2)" "set r1 = M" "set r2 = M" "set s1 = M" "set s2 = M"
  shows "\<exists>a' b'. rfold (\<lambda>g. merge_state g bc) a (r1 @ r2) = Inr a' \<and> rfold (\<lambda>g. merge_state g bc') b (s1 @ s2) = Inr b' \<and>
    (n \<in> set (GetAliveNodes a') \<longleftrightarrow> n \<in> set (GetAliveNodes b')) \<and>
    (n \<in> set (GetAliveNodes a') \<longleftrightarrow> last_word_alive (entry_of a n) {m \<in> M. ns_Name m = n})"
proof -
  let ?f = "filter (\<lambda>m. ns_Name m = n)" and ?M = "{m \<in> M. ns_Name m = n}"
  have v: "list_all verdict (s1 @ s2)" using assms(6-10) by (auto simp: list_all_iff)
  obtain a' where a: "rfold (\<lambda>g. merge_state g bc) a (r1 @ r2) = Inr a'" "ev_inv a'"
    "entry_of a' n = foldl hears (entry_of a n) (?f r1 @ ?f r2)"
    using merge_all_entry[OF assms(1,3,6), of bc] by auto
  obtain b' where b: "rfold (\<lambda>g. merge_state g bc') b (s1 @ s2) = Inr b'" "ev_inv b'"
    "entry_of b' n = foldl hears (entry_of b n) (?f s1 @ ?f s2)"
    using merge_all_entry[OF assms(2,4) v, of bc'] by auto
  have "(\<exists>d. entry_of a' n = Some (d, False)) \<longleftrightarrow> last_word_alive (entry_of a n) ?M"
    unfolding a(3) by (rule two_rounds_settle) (use assms(7,8) in auto)
  moreover have "(\<exists>d. entry_of b' n = Some (d, False)) \<longleftrightarrow> last_word_alive (entry_of b n) ?M"
    unfolding b(3) by (rule two_rounds_settle) (use assms(9,10) in auto)
  ultimately show ?thesis using a(1,2) b(1,2) assms(5) by (simp add: alive_iff_entry)
qed

theorem two_rounds_agree_witness:
  "\<exists>a' b'. rfold (\<lambda>g. merge_state g True) ex_member (ex_news @ ex_news) = Inr a' \<and>
    rfold (\<lambda>g. merge_state g True) ex_member (rev ex_news @ ex_news) = Inr b' \<and>
    ''b'' \<notin> set (GetAliveNodes a') \<and> ''b'' \<notin> set (GetAliveNodes b')"
proof -
  have "''b'' \<noteq> g_name ex_member" by (simp add: ex_entry(2))
  from two_rounds_agree[OF ex_member_ev_inv ex_member_ev_inv this this refl ex_news_set(2) refl refl ex_news_set(1) refl, of True True]
    ex_news_last
  show ?thesis unfolding ex_entry(1) by blast
qed

text \<open>
  One round is not enough. A member that knows a node as alive and hears that it died, that it died again later, and
  then the objection from in between, takes it for alive; had the objection come first, for dead. The code drops a
  DEAD message about a node that is dead already, with its dominant.
\<close>

theorem order_of_news_matters:
  assumes "ev_inv g" "n \<noteq> g_name g" "entry_of g n = Some (d, False)"
    "ns_Name m1 = n" "ns_State m1 = STATE_DEAD" "ns_Name m2 = n" "ns_State m2 = STATE_ALIVE"
    "ns_Name m3 = n" "ns_State m3 = STATE_DEAD"
    "d \<le> ns_Dominant m1" "ns_Dominant m1 < ns_Dominant m2" "ns_Dominant m2 \<le> ns_Dominant m3"
  shows "\<exists>g1 g2. rfold (\<lambda>g. merge_state g bc) g [m1, m3, m2] = Inr g1 \<and> n \<in> set (GetAliveNodes g1) \<and>
    rfold (\<lambda>g. merge_state g bc) g [m2, m1, m3] = Inr g2 \<and> n \<notin> set (GetAliveNodes g2)"
proof -
  have v: "list_all verdict [m1, m3, m2]" "list_all verdict [m2, m1, m3]" using assms by (simp_all add: verdict_def)
  have "foldl hears (Some (d, False)) [m1, m3, m2] = Some (ns_Dominant m2, False)"
    "foldl hears (Some (d, False)) [m2, m1, m3] = Some (ns_Dominant m3, True)"
    using assms(5-) by (auto simp: hears_def)
  then show ?thesis
    using merge_all_entry[OF assms(1,2) v(1), of bc] merge_all_entry[OF assms(1,2) v(2), of bc] assms(3,4,6,8)
    by (auto simp: alive_iff_entry)
qed

theorem order_of_news_matters_witness:
  "\<exists>g1 g2. rfold (\<lambda>g. merge_state g True) ex_member ex_news = Inr g1 \<and> ''b'' \<in> set (GetAliveNodes g1) \<and>
    rfold (\<lambda>g. merge_state g True) ex_member [ex_msg ''b'' 5 STATE_ALIVE, ex_msg ''b'' 4 STATE_DEAD, ex_msg ''b'' 6 STATE_DEAD] = Inr g2 \<and>
    ''b'' \<notin> set (GetAliveNodes g2)"
  unfolding ex_news_def
  by (rule order_of_news_matters[OF ex_member_ev_inv _ ex_entry(1)]) (simp_all add: ex_entry(2) ex_msg_def)

end
