(* ===== verification/Tcp_Runner.thy ===== *)
theory Tcp_Runner
  imports Header
begin

text \<open>
  \<^verbatim>\<open>src/src/network/tcp/runner.hpp\<close>: the TCP server. A \<^verbatim>\<open>Session\<close> is a chain of asynchronous operations, read the
  header, read the body, write the response; the lambda given to each is a step of the model.
  asio completes an operation either with an error or with exactly the bytes asked for. The handlers are
  parameters, and \<open>'s\<close> is the state that the body handler changes, the member that runs the server.

  \<^verbatim>\<open>asio::buffer\<close> of an array is never longer than the array, so a body or response of more than
  65536 bytes is cut. The lambda of \<^verbatim>\<open>doReadBody\<close> captures the local \<^verbatim>\<open>header\<close> by reference and runs after
  the function has returned: \<open>reread h\<close> is what the dead variable that held \<open>h\<close> reads as, and \<open>fresh\<close> what a
  new \<^verbatim>\<open>Header\<close> holds.
\<close>

section \<open>Sessions\<close>

type_synonym header_handler = "bytes \<Rightarrow> nat \<Rightarrow> Header \<Rightarrow> Header result"
type_synonym 's body_handler = "'s \<Rightarrow> u32 \<Rightarrow> bytes \<Rightarrow> nat \<Rightarrow> bytes \<Rightarrow> nat \<Rightarrow> (u64 \<times> 's \<times> bytes) result"

text \<open>The operation a session waits for; \<open>Ended\<close> when there is none and the session is destroyed.\<close>

datatype session_op =
    Not_started
  | Reading_header
  | Reading_body Header
  | Writing bytes
  | Ended

record Session =
  s_header_size :: u32
  s_in_buff :: bytes
  s_out_buff :: bytes
  s_op :: session_op

definition buff_size :: nat where
  "buff_size = 65536"

text \<open>\<open>junk\<close> is what the two uninitialised buffers hold.\<close>

definition Session_new :: "bytes \<times> bytes \<Rightarrow> u32 \<Rightarrow> Session" where
  "Session_new junk header_size =
     \<lparr>s_header_size = header_size, s_in_buff = fst junk, s_out_buff = snd junk, s_op = Not_started\<rparr>"

definition doReadHeader :: "Session \<Rightarrow> Session" where
  "doReadHeader s = s\<lparr>s_op := Reading_header\<rparr>"

definition Go :: "Session \<Rightarrow> Session" where
  "Go s = doReadHeader s"

definition doReadBody :: "header_handler \<Rightarrow> Header \<Rightarrow> Session \<Rightarrow> Session result" where
  "doReadBody handle_header fresh s =
     rbind (handle_header (s_in_buff s) (unat (s_header_size s)) fresh) (\<lambda>header.
       Inr (s\<lparr>s_op := Reading_body header\<rparr>))"

definition doWriteResponse :: "u32 \<Rightarrow> Session \<Rightarrow> Session" where
  "doWriteResponse len s = s\<lparr>s_op := Writing (take (unat len) (s_out_buff s))\<rparr>"

text \<open>How many bytes the pending operation reads.\<close>

definition wanted :: "Session \<Rightarrow> nat" where
  "wanted s =
     (case s_op s of
        Reading_header \<Rightarrow> min buff_size (unat (s_header_size s))
      | Reading_body header \<Rightarrow> min buff_size (unat (h_Body_length header))
      | _ \<Rightarrow> 0)"

definition received :: "bytes \<Rightarrow> Session \<Rightarrow> Session" where
  "received data s = s\<lparr>s_in_buff := data @ drop (length data) (s_in_buff s)\<rparr>"

text \<open>A completion: the error code is set, or the bytes arrived. Nothing is done on an error.\<close>

datatype completion = Failed | Completed bytes

fun session_step ::
  "header_handler \<Rightarrow> 's body_handler \<Rightarrow> Header \<Rightarrow> (Header \<Rightarrow> Header) \<Rightarrow> 's \<times> Session \<Rightarrow> completion \<Rightarrow> ('s \<times> Session) result" where
  "session_step handle_header handle_body fresh reread (st, s) Failed = Inr (st, s\<lparr>s_op := Ended\<rparr>)"
| "session_step handle_header handle_body fresh reread (st, s) (Completed data) =
     (case s_op s of
        Reading_header \<Rightarrow>
          rbind (doReadBody handle_header fresh (received data s)) (\<lambda>s'. Inr (st, s'))
      | Reading_body header \<Rightarrow>
          let s1 = received data s; header' = reread header
          in rbind (handle_body st (h_Type header') (s_in_buff s1) (unat (h_Body_length header')) (s_out_buff s1) buff_size)
               (\<lambda>(resp_length, st', out). Inr (st', doWriteResponse (ucast resp_length) (s1\<lparr>s_out_buff := out\<rparr>)))
      | Writing _ \<Rightarrow> Inr (st, s\<lparr>s_op := Ended\<rparr>)
      | _ \<Rightarrow> Inr (st, s))"

section \<open>A connection\<close>

text \<open>
  The completions of a session whose peer sends \<open>inp\<close> and then nothing more: a read that asks for more
  than is left fails. The bytes sent to the peer are those of the write, if it comes to that.
\<close>

definition completion_of :: "bytes \<Rightarrow> Session \<Rightarrow> completion" where
  "completion_of inp s = (if length inp < wanted s then Failed else Completed (take (wanted s) inp))"

fun serve ::
  "nat \<Rightarrow> header_handler \<Rightarrow> 's body_handler \<Rightarrow> Header \<Rightarrow> (Header \<Rightarrow> Header) \<Rightarrow> bytes \<Rightarrow> 's \<times> Session \<Rightarrow>
     (bytes \<times> 's \<times> Session) result" where
  "serve 0 handle_header handle_body fresh reread inp (st, s) = Inr ([], st, s)"
| "serve (Suc n) handle_header handle_body fresh reread inp (st, s) =
     rbind (session_step handle_header handle_body fresh reread (st, s) (completion_of inp s)) (\<lambda>next.
     rbind (serve n handle_header handle_body fresh reread (drop (wanted s) inp) next) (\<lambda>(out, st', s').
       Inr ((case s_op s of Writing resp \<Rightarrow> resp | _ \<Rightarrow> []) @ out, st', s')))"

section \<open>The server\<close>

text \<open>
  \<^verbatim>\<open>Server\<close>: \<open>sv_accepting\<close> says that an \<^verbatim>\<open>async_accept\<close> is pending. Its lambda starts a session when a connection
  was accepted, and accepts again in any case.
\<close>

record 's tcp_Server =
  sv_state :: 's
  sv_header_size :: u32
  sv_accepting :: bool
  sv_sessions :: "Session list"

definition tcp_Server_new :: "u32 \<Rightarrow> 's \<Rightarrow> 's tcp_Server" where
  "tcp_Server_new header_size st =
     \<lparr>sv_state = st, sv_header_size = header_size, sv_accepting = False, sv_sessions = []\<rparr>"

definition doAccept :: "'s tcp_Server \<Rightarrow> 's tcp_Server" where
  "doAccept sv = sv\<lparr>sv_accepting := True\<rparr>"

definition tcp_Start :: "'s tcp_Server \<Rightarrow> 's tcp_Server" where
  "tcp_Start sv = doAccept sv"

datatype tcp_event =
    Accepted "bytes \<times> bytes"
  | Accept_failed
  | Session_event nat completion

text \<open>An event can only happen when the operation it completes is pending.\<close>

fun event_ok :: "'s tcp_Server \<Rightarrow> tcp_event \<Rightarrow> bool" where
  "event_ok sv (Accepted junk) \<longleftrightarrow> sv_accepting sv \<and> length (fst junk) = buff_size \<and> length (snd junk) = buff_size"
| "event_ok sv Accept_failed \<longleftrightarrow> sv_accepting sv"
| "event_ok sv (Session_event i c) \<longleftrightarrow> i < length (sv_sessions sv) \<and>
     s_op (sv_sessions sv ! i) \<noteq> Ended \<and>
     (case c of Failed \<Rightarrow> True | Completed data \<Rightarrow> length data = wanted (sv_sessions sv ! i))"

definition on_accept :: "'s tcp_Server \<Rightarrow> (bytes \<times> bytes) option \<Rightarrow> 's tcp_Server" where
  "on_accept sv connection =
     doAccept (case connection of
         Some junk \<Rightarrow> sv\<lparr>sv_sessions := sv_sessions sv @ [Go (Session_new junk (sv_header_size sv))]\<rparr>
       | None \<Rightarrow> sv)"

fun tcp_server_step ::
  "header_handler \<Rightarrow> 's body_handler \<Rightarrow> Header \<Rightarrow> (Header \<Rightarrow> Header) \<Rightarrow> 's tcp_Server \<Rightarrow> tcp_event \<Rightarrow> 's tcp_Server result" where
  "tcp_server_step handle_header handle_body fresh reread sv (Accepted junk) =
     Inr (on_accept (sv\<lparr>sv_accepting := False\<rparr>) (Some junk))"
| "tcp_server_step handle_header handle_body fresh reread sv Accept_failed =
     Inr (on_accept (sv\<lparr>sv_accepting := False\<rparr>) None)"
| "tcp_server_step handle_header handle_body fresh reread sv (Session_event i c) =
     rbind (session_step handle_header handle_body fresh reread (sv_state sv, sv_sessions sv ! i) c) (\<lambda>(st, s).
       Inr (sv\<lparr>sv_state := st, sv_sessions := (sv_sessions sv)[i := s]\<rparr>))"

text \<open>
  \<^verbatim>\<open>TcpRunner\<close>: \<^verbatim>\<open>PrepareServer\<close> makes the one server, which nothing starts. The temporary \<^verbatim>\<open>std::thread\<close> of \<^verbatim>\<open>Run\<close> is
  destroyed while joinable, which calls \<^verbatim>\<open>std::terminate\<close>.
\<close>

record 's TcpRunner =
  tr_svr :: "'s tcp_Server option"

definition TcpRunner_new :: "'s TcpRunner" where
  "TcpRunner_new = \<lparr>tr_svr = None\<rparr>"

definition PrepareServer :: "'s TcpRunner \<Rightarrow> u32 \<Rightarrow> 's \<Rightarrow> bool \<times> 's TcpRunner" where
  "PrepareServer r header_size st =
     (case tr_svr r of
        Some _ \<Rightarrow> (False, r)
      | None \<Rightarrow> (True, r\<lparr>tr_svr := Some (tcp_Server_new header_size st)\<rparr>))"

definition TcpRunner_Run :: "'s TcpRunner \<Rightarrow> 's TcpRunner result" where
  "TcpRunner_Run r = Inl Terminate"


section \<open>Facts\<close>

lemma session_step_received [simp]:
  "s_header_size (received data s) = s_header_size s" "s_out_buff (received data s) = s_out_buff s"
  "s_in_buff (received data s) = data @ drop (length data) (s_in_buff s)" "s_op (received data s) = s_op s"
  by (simp_all add: received_def)

text \<open>How many completions a session can still have, and which states its body handler can leave behind.\<close>

fun rank :: "session_op \<Rightarrow> nat" where
  "rank Not_started = 4"
| "rank Reading_header = 3"
| "rank (Reading_body _) = 2"
| "rank (Writing _) = 1"
| "rank Ended = 0"

definition handled :: "'s body_handler \<Rightarrow> 's \<Rightarrow> 's \<Rightarrow> bool" where
  "handled handle_body st st' \<longleftrightarrow>
     (\<exists>type buff n out r out'. handle_body st type buff n out buff_size = Inr (r, st', out'))"

lemma handledI: "hb st type buff n out buff_size = Inr (r, st', out') \<Longrightarrow> handled hb st st'"
  unfolding handled_def by blast

lemma session_step_cases:
  assumes "session_step hh hb fresh reread (st, s) c = Inr (st', s')" "s_op s \<noteq> Not_started"
  shows "(s_op s = Ended \<and> s_op s' = Ended \<or> rank (s_op s') < rank (s_op s)) \<and>
    s_op s' \<noteq> Not_started \<and>
    (st' = st \<or> (\<exists>h. s_op s = Reading_body h) \<and> rank (s_op s') \<le> 1 \<and> handled hb st st')"
proof (cases c)
  case Failed
  with assms show ?thesis by (cases "s_op s") auto
next
  case (Completed data)
  with assms show ?thesis
    by (cases "s_op s")
      (auto simp: doReadBody_def doWriteResponse_def rbind_Inr_iff Let_def intro: handledI)
qed

lemma session_run_rank:
  assumes "rfold (session_step hh hb fresh reread) (st, s) cs = Inr (st', s')" "s_op s \<noteq> Not_started"
    "rank (s_op s) \<le> length cs"
  shows "s_op s' = Ended \<and> (st' = st \<or> handled hb st st')"
  using assms
proof (induction cs arbitrary: st s)
  case Nil
  then show ?case by (cases "s_op s") auto
next
  case (Cons c cs)
  obtain st1 s1 where 1: "session_step hh hb fresh reread (st, s) c = Inr (st1, s1)"
    "rfold (session_step hh hb fresh reread) (st1, s1) cs = Inr (st', s')"
    using Cons.prems(1) by (auto simp: rbind_Inr_iff)
  note step = session_step_cases[OF 1(1) Cons.prems(2)]
  have "rank (s_op s1) \<le> length cs" using step Cons.prems(3) by auto
  then have IH: "s_op s' = Ended \<and> (st' = st1 \<or> handled hb st1 st')" using Cons.IH[OF 1(2)] step by blast
  show ?case
  proof (cases "st1 = st")
    case False
    then have low: "rank (s_op s1) \<le> 1" and h: "handled hb st st1" using step by auto
    have "st' = st1"
      using 1(2) low
    proof (induction cs arbitrary: s1)
      case (Cons c cs)
      obtain st2 s2 where 2: "session_step hh hb fresh reread (st1, s1) c = Inr (st2, s2)"
        "rfold (session_step hh hb fresh reread) (st2, s2) cs = Inr (st', s')"
        using Cons.prems(1) by (auto simp: rbind_Inr_iff)
      have "s_op s1 \<noteq> Not_started" using Cons.prems(2) by auto
      from session_step_cases[OF 2(1) this] Cons.prems(2) have "st2 = st1" "rank (s_op s2) \<le> 1" by auto
      then show ?case using Cons.IH 2(2) by simp
    qed simp
    then show ?thesis using IH h by simp
  qed (use IH in simp)
qed

lemma serve_Suc:
  assumes "session_step hh hb fresh reread (st, s) (completion_of inp s) = Inr next"
  shows "serve (Suc n) hh hb fresh reread inp (st, s) =
    rbind (serve n hh hb fresh reread (drop (wanted s) inp) next) (\<lambda>(out, st', s').
       Inr ((case s_op s of Writing resp \<Rightarrow> resp | _ \<Rightarrow> []) @ out, st', s'))"
  using assms by simp

text \<open>A complete request is answered once, and the connection ends.\<close>

lemma serve_request:
  assumes "s_op s = Reading_header" "length hdr = unat (s_header_size s)" "length hdr \<le> buff_size"
    "hh (hdr @ drop (length hdr) (s_in_buff s)) (length hdr) fresh = Inr h"
    "length body = unat (h_Body_length h)" "length body \<le> buff_size"
    "hb st (h_Type (reread h)) (body @ drop (length body) (hdr @ drop (length hdr) (s_in_buff s)))
       (unat (h_Body_length (reread h))) (s_out_buff s) buff_size = Inr (r, st', out)"
  shows "\<exists>s'. serve 3 hh hb fresh reread (hdr @ body @ rest) (st, s) =
    Inr (take (unat (ucast r :: u32)) out, st', s') \<and> s_op s' = Ended"
proof -
  let ?run = "serve 3 hh hb fresh reread (hdr @ body @ rest) (st, s)"
  let ?s1 = "(received hdr s)\<lparr>s_op := Reading_body h\<rparr>"
  let ?s2 = "doWriteResponse (ucast r) ((received body ?s1)\<lparr>s_out_buff := out\<rparr>)"
  let ?s3 = "?s2\<lparr>s_op := Ended\<rparr>" and ?resp = "take (unat (ucast r :: u32)) out"
  have w: "wanted s = length hdr" "wanted ?s1 = length body" "wanted ?s2 = 0" "s_op ?s2 = Writing ?resp"
    using assms(1-3,5,6) by (simp_all add: wanted_def doWriteResponse_def)
  have c: "completion_of (hdr @ body @ rest) s = Completed hdr" "completion_of (body @ rest) ?s1 = Completed body"
    "completion_of rest ?s2 = Completed []" by (simp_all only: completion_of_def w) simp_all
  have 1: "session_step hh hb fresh reread (st, s) (completion_of (hdr @ body @ rest) s) = Inr (st, ?s1)"
    unfolding c using assms(1,2,4) by (simp add: doReadBody_def)
  have 2: "session_step hh hb fresh reread (st, ?s1) (completion_of (body @ rest) ?s1) = Inr (st', ?s2)"
    unfolding c using assms(7) by (simp add: Let_def received_def)
  have 3: "session_step hh hb fresh reread (st', ?s2) (completion_of rest ?s2) = Inr (st', ?s3)"
    unfolding c by (simp add: w(4))
  have "?run = Inr (?resp, st', ?s3)"
    unfolding numeral_3_eq_3
    by (simp only: serve_Suc[OF 1] w drop_append append_Nil drop_all)
      (simp del: serve.simps(2) add: serve_Suc[OF 2, of "Suc 0"] serve_Suc[OF 3, of 0] w assms(1))
  then show ?thesis by (intro exI[of _ ?s3]) simp
qed
text \<open>A fault of its handler ends the session, and the program.\<close>

lemma serve_request_fault:
  assumes "s_op s = Reading_header" "length hdr = unat (s_header_size s)" "length hdr \<le> buff_size"
    "hh (hdr @ drop (length hdr) (s_in_buff s)) (length hdr) fresh = Inr h"
    "length body = unat (h_Body_length h)" "length body \<le> buff_size"
    "hb st (h_Type (reread h)) (body @ drop (length body) (hdr @ drop (length hdr) (s_in_buff s)))
       (unat (h_Body_length (reread h))) (s_out_buff s) buff_size = Inl f"
  shows "serve 3 hh hb fresh reread (hdr @ body @ rest) (st, s) = Inl f"
proof -
  let ?s1 = "(received hdr s)\<lparr>s_op := Reading_body h\<rparr>"
  have w: "wanted s = length hdr" "wanted ?s1 = length body"
    using assms(1-3,5,6) by (simp_all add: wanted_def)
  have c: "completion_of (hdr @ body @ rest) s = Completed hdr" "completion_of (body @ rest) ?s1 = Completed body"
    by (simp_all only: completion_of_def w) simp_all
  have 1: "session_step hh hb fresh reread (st, s) (completion_of (hdr @ body @ rest) s) = Inr (st, ?s1)"
    unfolding c using assms(1,2,4) by (simp add: doReadBody_def)
  have 2: "session_step hh hb fresh reread (st, ?s1) (completion_of (body @ rest) ?s1) = Inl f"
    unfolding c using assms(7) by (simp add: Let_def received_def)
  then have "serve (Suc (Suc 0)) hh hb fresh reread (body @ rest) (st, ?s1) = Inl f" by simp
  then show ?thesis
    unfolding numeral_3_eq_3 by (simp only: serve_Suc[OF 1] w drop_append append_Nil drop_all) simp
qed

section \<open>The contract of the handlers\<close>

text \<open>
  What the server needs of its body handler: it keeps the invariant of the state and writes inside the
  response buffer. Events that cannot happen are skipped.
\<close>

definition tcp_server_inv :: "('s \<Rightarrow> bool) \<Rightarrow> 's tcp_Server \<Rightarrow> bool" where
  "tcp_server_inv good sv \<longleftrightarrow> good (sv_state sv) \<and> sv_accepting sv \<and>
     (\<forall>s \<in> set (sv_sessions sv). length (s_in_buff s) = buff_size \<and> length (s_out_buff s) = buff_size \<and>
        s_op s \<noteq> Not_started)"

definition tcp_event_step ::
  "header_handler \<Rightarrow> 's body_handler \<Rightarrow> Header \<Rightarrow> (Header \<Rightarrow> Header) \<Rightarrow> 's tcp_Server \<Rightarrow> tcp_event \<Rightarrow> 's tcp_Server result" where
  "tcp_event_step handle_header handle_body fresh reread sv e =
     (if event_ok sv e then tcp_server_step handle_header handle_body fresh reread sv e else Inr sv)"

lemma wanted_le: "wanted s \<le> buff_size"
  by (simp add: wanted_def split: session_op.splits)

locale session_handlers =
  fixes handle_header :: header_handler
    and handle_body :: "'s body_handler"
    and fresh :: Header
    and reread :: "Header \<Rightarrow> Header"
    and good :: "'s \<Rightarrow> bool"
  assumes body_inv: "good st \<Longrightarrow> handle_body st type buff n out sz = Inr (r, st', out') \<Longrightarrow> good st'"
    and body_length: "handle_body st type buff n out sz = Inr (r, st', out') \<Longrightarrow> length out' = length out"
begin

lemma session_step_inv:
  assumes "session_step handle_header handle_body fresh reread (st, s) c = Inr (st', s')" "good st" "s_op s \<noteq> Not_started"
    "length (s_in_buff s) = buff_size" "length (s_out_buff s) = buff_size"
    "\<And>data. c = Completed data \<Longrightarrow> length data = wanted s"
  shows "good st' \<and> length (s_in_buff s') = buff_size \<and> length (s_out_buff s') = buff_size \<and> s_op s' \<noteq> Not_started"
proof (cases c)
  case (Completed data)
  then have "length data \<le> buff_size" using assms(6) wanted_le[of s] by simp
  with Completed assms(1-5) show ?thesis
    by (cases "s_op s")
      (auto simp: doReadBody_def doWriteResponse_def rbind_Inr_iff Let_def body_length dest: body_inv)
qed (use assms in auto)

lemma server_event_inv:
  assumes "tcp_server_inv good sv" "tcp_event_step handle_header handle_body fresh reread sv e = Inr sv'"
  shows "tcp_server_inv good sv'"
proof (cases "event_ok sv e")
  case True
  with assms(2) have step: "tcp_server_step handle_header handle_body fresh reread sv e = Inr sv'"
    by (simp add: tcp_event_step_def)
  show ?thesis
  proof (cases e)
    case (Session_event i c)
    have i: "i < length (sv_sessions sv)" and c: "c = Completed data \<Longrightarrow> length data = wanted (sv_sessions sv ! i)" for data
      using True Session_event by (auto split: completion.splits)
    obtain st s where s: "session_step handle_header handle_body fresh reread (sv_state sv, sv_sessions sv ! i) c = Inr (st, s)"
      "sv' = sv\<lparr>sv_state := st, sv_sessions := (sv_sessions sv)[i := s]\<rparr>"
      using step Session_event by (auto simp: rbind_Inr_iff)
    have "sv_sessions sv ! i \<in> set (sv_sessions sv)" using i by simp
    then have "good st \<and> length (s_in_buff s) = buff_size \<and> length (s_out_buff s) = buff_size \<and> s_op s \<noteq> Not_started"
      using session_step_inv[OF s(1)] assms(1) c by (auto simp: tcp_server_inv_def)
    then show ?thesis using assms(1) s(2) set_update_subset_insert[of "sv_sessions sv" i s]
      by (auto simp: tcp_server_inv_def)
  qed (use step True assms(1) in \<open>auto simp: tcp_server_inv_def on_accept_def doAccept_def Go_def doReadHeader_def Session_new_def\<close>)
qed (use assms in \<open>simp add: tcp_event_step_def\<close>)

end

sublocale session_handlers \<subseteq> server: fallible_machine "tcp_event_step handle_header handle_body fresh reread" "tcp_server_inv good" "\<lambda>_. True"
  by standard (rule server_event_inv)

section \<open>Properties\<close>

text \<open>
  (C24) Every connection is answered at most once and ends. Whatever its peer sends, a session has no pending
  operation left after three completions, and in all of them the body handler has run at most once.
\<close>

theorem session_serves_once:
  assumes "rfold (session_step handle_header handle_body fresh reread) (st, Go s) cs = Inr (st', s')" "3 \<le> length cs"
  shows "s_op s' = Ended \<and> (st' = st \<or> handled handle_body st st')"
  using session_run_rank[OF assms(1)] assms(2) by (simp add: Go_def doReadHeader_def)

definition ex_echo :: "nat body_handler" where
  "ex_echo st type buff n out sz = Inr (of_nat n, Suc st, take n buff @ drop n out)"

theorem session_serves_once_witness:
  "\<exists>s'. rfold (session_step (\<lambda>buff n h. Inr \<lparr>h_Type = 1, h_Body_length = 2\<rparr>) ex_echo \<lparr>h_Type = 0, h_Body_length = 0\<rparr> id)
      (5, Go (Session_new (replicate 16 0, replicate 16 0) 8))
      [Completed [0, 0, 0, 1, 0, 0, 0, 2], Completed [7, 8], Completed []] = Inr (6, s') \<and>
    s_op s' = Ended \<and> handled ex_echo 5 6"
proof -
  let ?step = "session_step (\<lambda>buff n h. Inr \<lparr>h_Type = 1, h_Body_length = 2\<rparr>) ex_echo \<lparr>h_Type = 0, h_Body_length = 0\<rparr> id"
  let ?cs = "[Completed [0, 0, 0, 1, 0, 0, 0, 2], Completed [7, 8], Completed []]"
  obtain s' where s: "rfold ?step (5, Go (Session_new (replicate 16 0, replicate 16 0) 8)) ?cs = Inr (6, s')"
    by (simp add: Go_def doReadHeader_def Session_new_def doReadBody_def ex_echo_def Let_def doWriteResponse_def received_def)
  from session_serves_once[OF this] s show ?thesis by auto
qed

end
