(* ===== verification/Udp_Runner.thy ===== *)
theory Udp_Runner
  imports Prelude
begin

text \<open>
  \<^verbatim>\<open>src/src/network/udp/runner.hpp\<close>: the UDP server. It has one buffer, for the datagram it receives and for
  the response, and one endpoint, the sender of the last datagram; it receives again only when the
  response is sent. \<open>'s\<close> is the state the packet handler changes, \<open>'p\<close> the endpoints. asio receives at most as
  many bytes as the buffer has, and cuts a longer datagram.
\<close>

section \<open>The server\<close>

type_synonym 's packet_handler = "'s \<Rightarrow> bytes \<Rightarrow> nat \<Rightarrow> bytes \<Rightarrow> nat \<Rightarrow> (int \<times> 's \<times> bytes) result"

datatype udp_op = Udp_idle | Receiving | Sending bytes

text \<open>What crossed the socket, the last datagram first.\<close>

datatype 'p datagram = Rcvd 'p bytes | Sent 'p bytes

record ('s, 'p) udp_Server =
  us_state :: 's
  us_data :: bytes
  us_sender :: 'p
  us_op :: udp_op
  us_log :: "'p datagram list"

definition mtu :: nat where
  "mtu = 1460"

definition udp_Server_new :: "bytes \<Rightarrow> 'p \<Rightarrow> 's \<Rightarrow> ('s, 'p) udp_Server" where
  "udp_Server_new junk no_one st =
     \<lparr>us_state = st, us_data = junk, us_sender = no_one, us_op = Udp_idle, us_log = []\<rparr>"

definition doReceive :: "('s, 'p) udp_Server \<Rightarrow> ('s, 'p) udp_Server" where
  "doReceive sv = sv\<lparr>us_op := Receiving\<rparr>"

definition udp_Start :: "('s, 'p) udp_Server \<Rightarrow> ('s, 'p) udp_Server" where
  "udp_Start sv = doReceive sv"

definition doSend :: "nat \<Rightarrow> ('s, 'p) udp_Server \<Rightarrow> ('s, 'p) udp_Server" where
  "doSend len sv = sv\<lparr>us_op := Sending (take len (us_data sv))\<rparr>"

text \<open>The lambda of \<^verbatim>\<open>doReceive\<close>: \<open>None\<close> when the error code is set, else the sender and the bytes.\<close>

definition on_receive ::
  "'s packet_handler \<Rightarrow> ('s, 'p) udp_Server \<Rightarrow> ('p \<times> bytes) option \<Rightarrow> ('s, 'p) udp_Server result" where
  "on_receive handle_packet sv r =
     (case r of
        None \<Rightarrow> Inr (doReceive sv)
      | Some (peer, bytes) \<Rightarrow>
          let sv1 = sv\<lparr>us_data := bytes @ drop (length bytes) (us_data sv), us_sender := peer,
                       us_log := Rcvd peer bytes # us_log sv\<rparr>
          in if length bytes > 0 then
               rbind (handle_packet (us_state sv1) (us_data sv1) (length bytes) (us_data sv1) mtu)
                 (\<lambda>(response_length, st, data).
                   let sv2 = sv1\<lparr>us_state := st, us_data := data\<rparr>
                   in Inr (if response_length > 0 then doSend (nat response_length) sv2 else doReceive sv2))
             else Inr (doReceive sv1))"

text \<open>The lambda of \<^verbatim>\<open>doSend\<close>; an error is only reported.\<close>

definition on_sent :: "('s, 'p) udp_Server \<Rightarrow> bool \<Rightarrow> ('s, 'p) udp_Server" where
  "on_sent sv ok =
     doReceive (case us_op sv of
         Sending data \<Rightarrow> if ok then sv\<lparr>us_log := Sent (us_sender sv) data # us_log sv\<rparr> else sv
       | _ \<Rightarrow> sv)"

datatype 'p udp_event = Receive_done "('p \<times> bytes) option" | Send_done bool

text \<open>Events that do not complete the pending operation cannot happen; they are skipped.\<close>

fun udp_server_step :: "'s packet_handler \<Rightarrow> ('s, 'p) udp_Server \<Rightarrow> 'p udp_event \<Rightarrow> ('s, 'p) udp_Server result" where
  "udp_server_step handle_packet sv (Receive_done r) =
     (if us_op sv = Receiving \<and> (case r of None \<Rightarrow> True | Some (_, bytes) \<Rightarrow> length bytes \<le> mtu)
      then on_receive handle_packet sv r else Inr sv)"
| "udp_server_step handle_packet sv (Send_done ok) =
     (case us_op sv of Sending _ \<Rightarrow> Inr (on_sent sv ok) | _ \<Rightarrow> Inr sv)"

section \<open>The contract of the packet handler\<close>

text \<open>Each response follows the datagram it answers and goes to its sender.\<close>

fun answers :: "'p datagram list \<Rightarrow> bool" where
  "answers [] \<longleftrightarrow> True"
| "answers (Rcvd p d # l) \<longleftrightarrow> answers l"
| "answers (Sent p d # Rcvd q e # l) \<longleftrightarrow> p = q \<and> answers l"
| "answers (Sent p d # l) \<longleftrightarrow> False"

definition udp_server_inv :: "('s \<Rightarrow> bool) \<Rightarrow> ('s, 'p) udp_Server \<Rightarrow> bool" where
  "udp_server_inv good sv \<longleftrightarrow> good (us_state sv) \<and> length (us_data sv) = mtu \<and> us_op sv \<noteq> Udp_idle \<and>
     answers (us_log sv) \<and>
     (\<forall>d. us_op sv = Sending d \<longrightarrow> (\<exists>e l. us_log sv = Rcvd (us_sender sv) e # l))"

locale packet_handlers =
  fixes handle_packet :: "'s packet_handler"
    and good :: "'s \<Rightarrow> bool"
  assumes packet_good: "good st \<Longrightarrow> handle_packet st buff n resp sz = Inr (r, st', resp') \<Longrightarrow> good st'"
    and packet_length: "handle_packet st buff n resp sz = Inr (r, st', resp') \<Longrightarrow> length resp' = length resp"
begin

lemma udp_step_inv:
  assumes "udp_server_inv good sv" "udp_server_step handle_packet sv e = Inr sv'"
  shows "udp_server_inv good sv'"
proof (cases e)
  case (Receive_done r)
  with assms show ?thesis
    by (auto simp: udp_server_inv_def on_receive_def doReceive_def doSend_def rbind_Inr_iff Let_def packet_length
        split: if_splits option.splits prod.splits dest: packet_good)
next
  case (Send_done ok)
  with assms show ?thesis
    by (auto simp: udp_server_inv_def on_sent_def doReceive_def split: udp_op.splits if_splits)
qed

end

sublocale packet_handlers \<subseteq> udp: fallible_machine "udp_server_step handle_packet" "udp_server_inv good" "\<lambda>_. True"
  by standard (rule udp_step_inv)

end
