(* ===== verification/Sync.thy ===== *)
theory Sync
  imports Exchange Tcp_Runner Udp_Runner
begin

text \<open>
  The member behind its servers. The handlers of \<^verbatim>\<open>class gossiper\<close> meet the contracts of both servers, so no
  traffic breaks the member's invariant; and two members that synchronise over TCP merge each other's
  tables, the core of \<^verbatim>\<open>Join\<close>.
\<close>

section \<open>The handlers meet the contracts of the servers\<close>

lemma merge_step_ev_inv: "ev_inv g \<Longrightarrow> merge_state g bc st = Inr g' \<Longrightarrow> ev_inv g'"
  using member_step_ev_inv[of g "In_state bc st" g'] by simp

text \<open>The invariant of a member that has lost nothing since \<open>g0\<close>.\<close>

definition since :: "gossiper \<Rightarrow> gossiper \<Rightarrow> bool" where
  "since g0 g \<longleftrightarrow> ev_inv g \<and> g_le g0 g"

lemma since_step: "since g0 g \<Longrightarrow> input_ok e \<Longrightarrow> member_step g e = Inr g' \<Longrightarrow> since g0 g'"
  using member_step_ev_inv[of g e g'] member_step_le[of g e g'] g_le_trans by (auto simp: since_def)

lemma since_frame: "since g0 g \<Longrightarrow> ev_inv g' \<Longrightarrow> g_node_map g' = g_node_map g \<Longrightarrow> since g0 g'"
  using g_le_same[of g' g] g_le_trans by (auto simp: since_def)

lemma since_refl: "ev_inv g \<Longrightarrow> since g g"
  by (simp add: since_def g_le_refl)

interpretation merging: fallible_machine "\<lambda>g ns. rbind (convert ns) (\<lambda>st. merge_state g bc (moved st))" "since g0" "\<lambda>_. True" for moved bc g0
  by standard (use since_step[of _ _ "In_state _ _"] in \<open>auto simp: rbind_Inr_iff\<close>)

lemma mergeStates_since: "since g0 g \<Longrightarrow> mergeStates moved g m bc = Inr g' \<Longrightarrow> since g0 g'"
  using merging.run_inv by (auto simp: mergeStates_def rbind_Inr_iff list_all_iff)

lemma EncodeHeader_length: "EncodeHeader le buff off h = Inr buff' \<Longrightarrow> length buff' = length buff"
  by (auto simp: EncodeHeader_def rbind_Inr_iff dest!: buf_write_length)

lemma send_body_frame:
  "send_body le freed type g body resp sz = Inr (r, g', resp') \<Longrightarrow> g' = g \<and> length resp' = length resp"
  by (auto simp: send_body_def rbind_Inr_iff Let_def split: if_splits dest!: buf_write_length EncodeHeader_length)

interpretation tcp_member: session_handlers "handleHeader le" "handleBody moved le ltr freed" fresh reread "since g0"
  for moved le ltr freed fresh reread g0
proof
  fix st type buff n out sz r st' out'
  assume h: "handleBody moved le ltr freed st type buff n out sz = Inr (r, st', out')"
  then obtain g body ty where s: "send_body le freed ty g body out sz = Inr (r, st', out')"
    "g = st \<or> (\<exists>m. mergeStates moved st m True = Inr g)"
    by (auto simp: handleBody_def rbind_Inr_iff split: if_splits)
  then show "length out' = length out" using send_body_frame by blast
  show "since g0 st'" if "since g0 st" using s that mergeStates_since send_body_frame by blast
qed

lemma alert_if_dead_length: "alert_if_dead ltr ns buff off room = Inr (n, buff') \<Longrightarrow> length buff' = length buff"
  by (auto simp: alert_if_dead_def appendDeadAlert_def rbind_Inr_iff split: option.splits if_splits dest!: buf_write_length)

lemma pong_response_frame:
  "pong_response le ltr g ns seqNo resp sz = Inr (r, g', resp') \<Longrightarrow> g' = g \<and> length resp' = length resp"
  by (auto simp: pong_response_def rbind_Inr_iff Let_def split: if_splits
      dest!: buf_write_length EncodeHeader_length alert_if_dead_length)

interpretation udp_member: packet_handlers "handlePacket moved le ltr" "since g0" for moved le ltr g0
proof
  fix st buff n resp sz r st' resp'
  assume h: "handlePacket moved le ltr st buff n resp sz = Inr (r, st', resp')"
  then have p: "st' = st \<and> resp' = resp \<or>
      (\<exists>g ns seqNo. pong_response le ltr g ns seqNo resp sz = Inr (r, st', resp') \<and>
         (g = st \<or> (\<exists>m. mergeStates moved st m True = Inr g)))"
    by (fastforce simp: handlePacket_def rbind_Inr_iff Let_def split: if_splits)
  then show "length resp' = length resp" using pong_response_frame by blast
  show "since g0 st'" if "since g0 st" using p that pong_response_frame mergeStates_since by metis
qed

section \<open>Synchronisation\<close>

definition node_table :: "gossiper \<Rightarrow> node_state list" where
  "node_table g = map snd (entries (g_node_map g))"

text \<open>A table whose entries can be sent and which fits the buffer of a session, with the header.\<close>

definition table_ok :: "gossiper \<Rightarrow> bool" where
  "table_ok g \<longleftrightarrow> list_all sendable (node_table g) \<and>
     msg_size (node_table g) + 4 * length (node_table g) + 50 + HEADER_SIZE \<le> buff_size"

lemma encodeLocalState_ok:
  assumes "table_ok g"
  obtains bs where "encodeLocalState ltr g = Inr bs" "length bs + 8 \<le> buff_size" "reads_states bs (node_table g)"
proof -
  have sz: "msg_size (node_table g) + 4 * length (node_table g) + 58 \<le> buff_size"
    using assms by (simp add: table_ok_def HEADER_SIZE_def)
  have "list_all encodable (node_table g)"
    using assms sendable_encodable by (auto simp: table_ok_def list_all_iff)
  moreover have "msg_size (node_table g) + 4 * length (node_table g) + 400 \<le> max_size"
    using sz by (simp add: buff_size_def max_size_def)
  ultimately obtain bs where "encode_states ltr (node_table g) = Inr bs"
    "length bs \<le> msg_size (node_table g) + 4 * length (node_table g) + 50" "reads_states bs (node_table g)"
    unfolding reads_states_def using encode_states_ok by metis
  then show thesis using that sz by (simp add: encodeLocalState_def node_table_def)
qed

lemma unat_u32: "n \<le> buff_size \<Longrightarrow> unat (of_nat n :: u32) = n"
  by (simp only: unat_of_nat) (simp add: buff_size_def)

text \<open>A synchronisation message, request or response, with the given states.\<close>

definition sync_message :: "bytes \<Rightarrow> node_state list \<Rightarrow> bool" where
  "sync_message bs msgs \<longleftrightarrow> (\<exists>body. bs = wire_header \<lparr>h_Type = TYPE_SYNCSTATE, h_Body_length = of_nat (length body)\<rparr> @ body \<and>
     length body + 8 \<le> buff_size \<and> reads_states body msgs)"

lemma sync_request_ok:
  assumes "table_ok g"
  obtains req where "sync_request le ltr g = Inr req" "sync_message req (node_table g)"
proof -
  obtain body where b: "encodeLocalState ltr g = Inr body" "length body + 8 \<le> buff_size" "reads_states body (node_table g)"
    using encodeLocalState_ok[OF assms] .
  have "sync_request le ltr g = Inr (wire_header \<lparr>h_Type = TYPE_SYNCSTATE, h_Body_length = of_nat (length body)\<rparr> @ body)"
    using b(1) by (simp add: sync_request_def HEADER_SIZE_def EncodeHeader_wire buf_write_def)
  moreover have "sync_message (wire_header \<lparr>h_Type = TYPE_SYNCSTATE, h_Body_length = of_nat (length body)\<rparr> @ body) (node_table g)"
    using b(2,3) unfolding sync_message_def by blast
  ultimately show thesis by (rule that)
qed

lemma handleBody_sync:
  assumes "reads_states body msgs" "list_all sendable msgs" "rfold (\<lambda>g. merge_state g True) g msgs = Inr g'"
    "table_ok g'" "length out = buff_size"
  obtains body' where
    "handleBody id le ltr (!) g TYPE_SYNCSTATE (body @ rest) n out buff_size =
       Inr (of_nat (8 + length body'), g',
         wire_header \<lparr>h_Type = TYPE_SYNCSTATE, h_Body_length = of_nat (length body')\<rparr> @ body' @ drop (8 + length body') out)"
    "length body' + 8 \<le> buff_size" "reads_states body' (node_table g')"
proof -
  obtain body' where b: "encodeLocalState ltr g' = Inr body'" "length body' + 8 \<le> buff_size" "reads_states body' (node_table g')"
    using encodeLocalState_ok[OF assms(4)] .
  have "GetNodeStates (body @ rest) 0 = Inr \<lparr>fss_nodes = Some (map (\<lambda>ns. wire ns (printed_port ns)) msgs)\<rparr>"
    using assms(1)[unfolded reads_states_def, rule_format, of "[]" rest] by simp
  then have "handleBody id le ltr (!) g TYPE_SYNCSTATE (body @ rest) n out buff_size =
      send_body le (!) TYPE_SYNCSTATE g' body' out buff_size"
    using b(1) assms(3) mergeStates_wire[OF assms(2), of g True] by (simp add: handleBody_def TYPE_defs)
  also have "\<dots> = Inr (of_nat (8 + length body'), g',
      wire_header \<lparr>h_Type = TYPE_SYNCSTATE, h_Body_length = of_nat (length body')\<rparr> @ body' @ drop (8 + length body') out)"
    using b(2) assms(5) by (simp add: send_body_def HEADER_SIZE_def EncodeHeader_wire buf_write_def map_nth add.commute Let_def)
  finally show thesis using that b(2,3) by blast
qed

text \<open>
  A member serving one connection, on which \<open>req\<close> arrives: its session has its handlers. Three completions
  are all a session can have.
\<close>

definition member_serves ::
  "(node_state \<Rightarrow> node_state) \<Rightarrow> bool \<Rightarrow> bool \<Rightarrow> (bytes \<Rightarrow> nat \<Rightarrow> u8) \<Rightarrow> Header \<Rightarrow> (Header \<Rightarrow> Header) \<Rightarrow> bytes \<times> bytes \<Rightarrow> bytes \<Rightarrow> gossiper \<Rightarrow>
     (bytes \<times> gossiper \<times> Session) result" where
  "member_serves moved le ltr freed fresh reread junk req b =
     serve 3 (handleHeader le) (handleBody moved le ltr freed) fresh reread req
       (b, Go (Session_new junk (of_nat HEADER_SIZE)))"

text \<open>How a session handles such a request: its first completion reads the header, its second handles the body.\<close>

lemma sync_session:
  fixes fresh :: Header and junk :: "bytes \<times> bytes"
  assumes "length body + 8 \<le> buff_size"
  defines "h \<equiv> \<lparr>h_Type = TYPE_SYNCSTATE, h_Body_length = of_nat (length body)\<rparr>"
    and "s \<equiv> Go (Session_new junk (of_nat HEADER_SIZE))"
  shows "s_op s = Reading_header" "length (wire_header h) = unat (s_header_size s)" "length (wire_header h) \<le> buff_size"
    "handleHeader le (wire_header h @ drop (length (wire_header h)) (s_in_buff s)) (length (wire_header h)) fresh = Inr h"
    "length body = unat (h_Body_length h)" "length body \<le> buff_size" "s_out_buff s = snd junk"
proof -
  show s: "s_op s = Reading_header" "s_out_buff s = snd junk"
    by (simp_all add: s_def Go_def doReadHeader_def Session_new_def)
  show "length (wire_header h) = unat (s_header_size s)"
    by (simp add: s_def Go_def doReadHeader_def Session_new_def HEADER_SIZE_def)
  show "handleHeader le (wire_header h @ drop (length (wire_header h)) (s_in_buff s)) (length (wire_header h)) fresh = Inr h"
    by (simp add: handleHeader_def HEADER_SIZE_def DecodeHeader_wire)
  show "length (wire_header h) \<le> buff_size" "length body = unat (h_Body_length h)" "length body \<le> buff_size"
    using assms(1) by (simp_all add: h_def unat_u32)
qed

lemma member_serves_merge:
  assumes "sync_message req msgs" "list_all sendable msgs" "rfold (\<lambda>g. merge_state g True) b msgs = Inr b'" "table_ok b'"
    "length (snd junk) = buff_size"
  shows "\<exists>resp s. member_serves id le ltr (!) fresh id junk req b = Inr (resp, b', s) \<and> s_op s = Ended \<and> sync_message resp (node_table b')"
proof -
  obtain body where r: "req = wire_header \<lparr>h_Type = TYPE_SYNCSTATE, h_Body_length = of_nat (length body)\<rparr> @ body"
    "length body + 8 \<le> buff_size" "reads_states body msgs"
    using assms(1) unfolding sync_message_def by blast
  let ?h = "\<lparr>h_Type = TYPE_SYNCSTATE, h_Body_length = of_nat (length body)\<rparr>"
  let ?s = "Go (Session_new junk (of_nat HEADER_SIZE))"
  let ?rest = "drop (length body) (wire_header ?h @ drop (length (wire_header ?h)) (s_in_buff ?s))"
  note s = sync_session(1,2,4,7)[OF r(2), where junk = junk] sync_session(3,5,6)[OF r(2)]
  have out: "length (s_out_buff ?s) = buff_size" using assms(5) s(4) by simp
  obtain body' where h: "handleBody id le ltr (!) b TYPE_SYNCSTATE (body @ ?rest) (length body) (s_out_buff ?s) buff_size =
      Inr (of_nat (8 + length body'), b',
        wire_header \<lparr>h_Type = TYPE_SYNCSTATE, h_Body_length = of_nat (length body')\<rparr> @ body' @ drop (8 + length body') (s_out_buff ?s))"
    "length body' + 8 \<le> buff_size" "reads_states body' (node_table b')"
    using handleBody_sync[OF r(3) assms(2-4) out] .
  let ?resp = "wire_header \<lparr>h_Type = TYPE_SYNCSTATE, h_Body_length = of_nat (length body')\<rparr> @ body'"
  have id: "id ?h = ?h" "h_Type ?h = TYPE_SYNCSTATE" by simp_all
  note sr = serve_request[where reread = id and rest = "[]" and hh = "handleHeader le" and hdr = "wire_header ?h" and h = ?h
      and body = body and s = ?s and fresh = fresh and hb = "handleBody id le ltr (!)" and st = b, OF s(1,2,5,3,6,7), unfolded id, folded s(6), OF h(1)]
  have "unat (ucast (of_nat (8 + length body') :: u64) :: u32) = 8 + length body'"
    using h(2) by (simp only: unsigned_ucast_eq unat_of_nat) (simp add: buff_size_def take_bit_eq_mod)
  then obtain s' where "member_serves id le ltr (!) fresh id junk req b = Inr (?resp, b', s')" "s_op s' = Ended"
    unfolding member_serves_def r(1) using sr by auto
  moreover have "sync_message ?resp (node_table b')" using h(2,3) unfolding sync_message_def by blast
  ultimately show ?thesis by blast
qed

lemma member_serves_fault:
  assumes "sync_message req msgs" "list_all sendable msgs" "rfold (\<lambda>g. merge_state g True) b msgs = Inl f"
  shows "member_serves id le ltr freed fresh id junk req b = Inl f"
proof -
  obtain body where r: "req = wire_header \<lparr>h_Type = TYPE_SYNCSTATE, h_Body_length = of_nat (length body)\<rparr> @ body"
    "length body + 8 \<le> buff_size" "reads_states body msgs"
    using assms(1) unfolding sync_message_def by blast
  let ?s = "Go (Session_new junk (of_nat HEADER_SIZE))"
  let ?h = "\<lparr>h_Type = TYPE_SYNCSTATE, h_Body_length = of_nat (length body)\<rparr>"
  note s = sync_session(1,2,4,7)[OF r(2), where junk = junk] sync_session(3,5,6)[OF r(2)]
  have "GetNodeStates (body @ rest) 0 = Inr \<lparr>fss_nodes = Some (map (\<lambda>ns. wire ns (printed_port ns)) msgs)\<rparr>" for rest
    using r(3)[unfolded reads_states_def, rule_format, of "[]" rest] by simp
  then have h: "handleBody id le ltr freed b TYPE_SYNCSTATE (body @ rest) (length body) out sz = Inl f" for rest out sz
    using assms(3) mergeStates_wire[OF assms(2), of b True] by (simp add: handleBody_def TYPE_defs)
  have id: "id ?h = ?h" "h_Type ?h = TYPE_SYNCSTATE" by simp_all
  note sr = serve_request_fault[where reread = id and rest = "[]" and hh = "handleHeader le" and hdr = "wire_header ?h" and h = ?h
      and body = body and s = ?s and fresh = fresh and hb = "handleBody id le ltr freed" and st = b, OF s(1,2,5,3,6,7), unfolded id,
      folded s(6), OF h]
  then show ?thesis unfolding member_serves_def r(1) by simp
qed

lemma sync_response_merge:
  assumes "sync_message resp msgs" "list_all sendable msgs" "HEADER_SIZE \<le> length buff"
  shows "sync_response id le a buff resp = rfold (\<lambda>g. merge_state g False) a msgs"
proof -
  obtain body where r: "resp = wire_header \<lparr>h_Type = TYPE_SYNCSTATE, h_Body_length = of_nat (length body)\<rparr> @ body"
    "length body + 8 \<le> buff_size" "reads_states body msgs"
    using assms(1) unfolding sync_message_def by blast
  let ?h = "\<lparr>h_Type = TYPE_SYNCSTATE, h_Body_length = of_nat (length body)\<rparr>"
  have "GetNodeStates body 0 = Inr \<lparr>fss_nodes = Some (map (\<lambda>ns. wire ns (printed_port ns)) msgs)\<rparr>"
    using r(3)[unfolded reads_states_def, rule_format, of "[]" "[]"] by simp
  moreover have "DecodeHeader le (wire_header ?h @ rest) 0 = Inr ?h" for rest by (rule DecodeHeader_wire) simp_all
  moreover have "unat (of_nat (length body) :: u32) = length body" using r(2) by (simp add: unat_u32)
  ultimately show ?thesis
    using mergeStates_wire[OF assms(2), of a False] assms(3)
    by (simp add: r(1) sync_response_def HEADER_SIZE_def buf_write_def)
qed

lemma sync_ok:
  assumes "table_ok a" "rfold (\<lambda>g. merge_state g True) b (node_table a) = Inr b'" "table_ok b'"
    "length (fst junk) = buff_size" "length (snd junk) = buff_size"
  shows "\<exists>req resp s. sync_request le ltr a = Inr req \<and>
    member_serves id le' ltr' (!) fresh id junk req b = Inr (resp, b', s) \<and> s_op s = Ended \<and>
    sync_response id le a req resp = rfold (\<lambda>g. merge_state g False) a (node_table b')"
proof -
  obtain req where r: "sync_request le ltr a = Inr req" "sync_message req (node_table a)" using sync_request_ok[OF assms(1)] .
  have snd: "list_all sendable (node_table a)" "list_all sendable (node_table b')" using assms(1,3) by (simp_all add: table_ok_def)
  obtain resp s where s: "member_serves id le' ltr' (!) fresh id junk req b = Inr (resp, b', s)" "s_op s = Ended"
    "sync_message resp (node_table b')"
    using member_serves_merge[OF r(2) snd(1) assms(2,3,5)] by blast
  have "HEADER_SIZE \<le> length req" using r(2) by (auto simp: sync_message_def HEADER_SIZE_def)
  then have "sync_response id le a req resp = rfold (\<lambda>g. merge_state g False) a (node_table b')"
    by (rule sync_response_merge[OF s(3) snd(2)])
  with r(1) s(1,2) show ?thesis by blast
qed

section \<open>What a member learns\<close>

text \<open>The member's entry for the subject of a message is at least as new as the message.\<close>

definition learnt :: "gossiper \<Rightarrow> node_state \<Rightarrow> bool" where
  "learnt g st \<longleftrightarrow> (\<exists>st'. getNodeState g (ns_Name st) = Some st' \<and> state_le st st')"

lemma learnt_mono: "learnt g st \<Longrightarrow> g_le g g' \<Longrightarrow> learnt g' st"
  unfolding learnt_def g_le_def getNodeState_def using state_le_trans by blast

lemma learnt_alive:
  assumes "ev_inv g" "merge_state g bc st = Inr g'" "ns_State st = STATE_ALIVE" "0 < ns_Dominant st"
  shows "learnt g' st"
proof -
  have inv: "g_inv g" "\<not> g_is_leaving g" and wf: "um_wf (g_node_map g)"
    using assms(1) by (simp_all add: ev_inv_def m_inv_def g_inv_def)
  have g': "g' = (if alive_accepts g st then alive_result g st bc else g)"
    using assms(2,3) by (simp add: merge_state_def aliveNode_cases[OF wf])
  show ?thesis
  proof (cases "alive_accepts g st")
    case True
    then show ?thesis by (simp add: g' learnt_def getNodeState_def alive_result_fields[OF wf] state_le_def)
  next
    case False
    then obtain st' where st': "g_find g (ns_Name st) = Some st'" "ns_Dominant st \<le> ns_Dominant st'"
      using assms(4) inv(2) by (auto simp: alive_accepts_def known_dominant_def not_less split: option.splits)
    have "ns_State st \<le> ns_State st'" using inv(1) st'(1) ALIVE_le assms(3) by (auto simp: g_inv_def)
    with st' False show ?thesis
      by (auto simp: g' learnt_def getNodeState_def state_le_def order_le_less)
  qed
qed

lemma merge_learns:
  assumes "ev_inv g" "rfold (\<lambda>g. merge_state g bc) g msgs = Inr g'" "st \<in> set msgs" "ns_State st = STATE_ALIVE"
    "0 < ns_Dominant st"
  shows "learnt g' st"
  using assms
proof (induction msgs arbitrary: g)
  case (Cons m msgs)
  obtain g1 where g1: "merge_state g bc m = Inr g1" "rfold (\<lambda>g. merge_state g bc) g1 msgs = Inr g'"
    using Cons.prems(2) by (auto simp: rbind_Inr_iff)
  have inv: "ev_inv g1" using merge_step_ev_inv[OF Cons.prems(1) g1(1)] .
  show ?case
  proof (cases "st \<in> set msgs")
    case True
    then show ?thesis using Cons.IH[OF inv g1(2)] Cons.prems(4,5) by simp
  next
    case False
    then have "learnt g1 st" using learnt_alive[OF Cons.prems(1) _ Cons.prems(4,5)] g1(1) Cons.prems(3) by auto
    moreover have "g_le g1 g'" using merge_states_le[OF inv g1(2)] .
    ultimately show ?thesis by (rule learnt_mono)
  qed
qed simp
section \<open>An example\<close>

text \<open>A fresh member \<open>b\<close>, the running member \<open>a\<close> it joins, and both after the exchange.\<close>

definition ex_joiner :: gossiper where
  "ex_joiner = (case start_member (ex_conf\<lparr>conf_Name := ''b''\<rparr>) (#) 0 id of Inl _ \<Rightarrow> gossiper_new ex_conf (#) 0 id | Inr g \<Rightarrow> g)"

definition ex_host :: gossiper where
  "ex_host = (case rfold (\<lambda>g. merge_state g True) ex_member (node_table ex_joiner) of Inl _ \<Rightarrow> ex_member | Inr g \<Rightarrow> g)"

definition ex_joined :: gossiper where
  "ex_joined = (case rfold (\<lambda>g. merge_state g False) ex_joiner (node_table ex_host) of Inl _ \<Rightarrow> ex_joiner | Inr g \<Rightarrow> g)"

lemma ex_sync_runs:
  "start_member (ex_conf\<lparr>conf_Name := ''b''\<rparr>) (#) 0 id = Inr ex_joiner"
  "rfold (\<lambda>g. merge_state g True) ex_member (node_table ex_joiner) = Inr ex_host"
  "rfold (\<lambda>g. merge_state g False) ex_joiner (node_table ex_host) = Inr ex_joined"
proof -
  have "is_ok (start_member (ex_conf\<lparr>conf_Name := ''b''\<rparr>) (#) 0 id)" by code_simp
  then show "start_member (ex_conf\<lparr>conf_Name := ''b''\<rparr>) (#) 0 id = Inr ex_joiner" unfolding ex_joiner_def is_ok_iff by auto
  have "is_ok (rfold (\<lambda>g. merge_state g True) ex_member (node_table ex_joiner))" by code_simp
  then show "rfold (\<lambda>g. merge_state g True) ex_member (node_table ex_joiner) = Inr ex_host" unfolding ex_host_def is_ok_iff by auto
  have "is_ok (rfold (\<lambda>g. merge_state g False) ex_joiner (node_table ex_host))" by code_simp
  then show "rfold (\<lambda>g. merge_state g False) ex_joiner (node_table ex_host) = Inr ex_joined" unfolding ex_joined_def is_ok_iff by auto
qed

lemma ex_tables:
  "node_table ex_joiner = [(ex_msg ''b'' 1 STATE_ALIVE)\<lparr>ns_Port := ''7''\<rparr>]"
  "node_table ex_host = [ex_msg ''b'' 4 STATE_ALIVE, (ex_msg ''a'' 1 STATE_ALIVE)\<lparr>ns_Port := ''7''\<rparr>]"
  by code_simp+

lemma ex_table_ok: "table_ok ex_joiner" "table_ok ex_host"
proof -
  have p: "''7'' = port_string 7"
    by (simp add: port_string_def to_string_def digit_char_def nat_digits.simps char_of_def bit_simps)
  have s: "sendable ((ex_msg n d STATE_ALIVE)\<lparr>ns_Port := ''7''\<rparr>)" if "no_null n" for n d
    using ex_msg_sendable[OF that, of STATE_ALIVE d] p by (auto simp: sendable_def)
  show "table_ok ex_joiner" "table_ok ex_host"
    using s[of "''a''"] s[of "''b''"] ex_msg_sendable[of "''b''" STATE_ALIVE 4]
    by (simp_all add: table_ok_def ex_tables no_null_def msg_size_def ns_size_def ex_msg_def HEADER_SIZE_def buff_size_def)
qed

section \<open>Properties\<close>

text \<open>A network in which one member answers every connection.\<close>

definition net_of ::
  "bool \<Rightarrow> bool \<Rightarrow> Header \<Rightarrow> bytes \<times> bytes \<Rightarrow> gossiper \<Rightarrow> string \<Rightarrow> string \<Rightarrow> bytes \<Rightarrow> bytes option" where
  "net_of le ltr fresh junk b host port req =
     (case member_serves id le ltr (!) fresh id junk req b of Inl _ \<Rightarrow> None | Inr (resp, _) \<Rightarrow> Some resp)"

text \<open>
  (C12) Two members that synchronise swap their tables. The joining member \<open>a\<close> sends its table over TCP; the
  session of \<open>b\<close> merges it entry by entry, answers with the table \<open>b'\<close> it has then, and ends; \<open>a\<close> merges that
  table. The hosts may differ in byte order. The hypotheses exclude what the code leaves to chance: the local of
  \<^verbatim>\<open>convert\<close>, the freed builder and the dead header are read unchanged.
\<close>

theorem sync_exchange:
  assumes "table_ok a" "rfold (\<lambda>g. merge_state g True) b (node_table a) = Inr b'" "table_ok b'"
    "length (fst junk) = buff_size" "length (snd junk) = buff_size"
  shows "\<exists>req resp s. sync_request le ltr a = Inr req \<and>
    member_serves id le' ltr' (!) fresh id junk req b = Inr (resp, b', s) \<and> s_op s = Ended \<and>
    sync_response id le a req resp = rfold (\<lambda>g. merge_state g False) a (node_table b')"
  using assms by (rule sync_ok)

theorem sync_exchange_witness:
  "\<exists>req resp s. sync_request True True ex_joiner = Inr req \<and>
    member_serves id False True (!) \<lparr>h_Type = 5, h_Body_length = 5\<rparr> id (replicate buff_size 0, replicate buff_size 0) req ex_member =
      Inr (resp, ex_host, s) \<and>
    sync_response id True ex_joiner req resp = Inr ex_joined"
  using sync_exchange[OF ex_table_ok(1) ex_sync_runs(2) ex_table_ok(2),
      of "(replicate buff_size 0, replicate buff_size 0)" True True False True "\<lparr>h_Type = 5, h_Body_length = 5\<rparr>"]
  by (auto simp: ex_sync_runs(3))

text \<open>
  (C2) Joining works. A member that joins a running one returns from \<^verbatim>\<open>Join\<close> knowing every alive node of that
  member's table, in a state at least as new, and is itself known there; dead memory is read unchanged.
\<close>

theorem join_learns:
  assumes "order_ok ord" "start_member conf ord indet reread = Inr a" "ev_inv b"
    "CHR '':'' \<notin> set host" "CHR '':'' \<notin> set port" "port \<noteq> []"
    "host \<noteq> conf_Addr (g_conf a) \<or> port_string (conf_Port (g_conf a)) \<noteq> port"
    "table_ok a" "rfold (\<lambda>g. merge_state g True) b (node_table a) = Inr b'" "table_ok b'"
    "rfold (\<lambda>g. merge_state g False) a (node_table b') = Inr a'"
    "length (fst junk) = buff_size" "length (snd junk) = buff_size"
  shows "Join id le ltr (net_of le' ltr' fresh junk b) (RegisterNotifier (gossiper_new conf ord indet reread) True True)
      (host @ '':'' @ port) = Some (Inr a') \<and>
    (\<forall>st \<in> set (node_table b'). ns_State st = STATE_ALIVE \<and> 0 < ns_Dominant st \<longrightarrow> learnt a' st) \<and>
    (\<forall>st \<in> set (node_table a). ns_State st = STATE_ALIVE \<and> 0 < ns_Dominant st \<longrightarrow> learnt b' st)"
proof (intro conjI ballI impI)
  obtain req resp s where s: "sync_request le ltr a = Inr req"
    "member_serves id le' ltr' (!) fresh id junk req b = Inr (resp, b', s)"
    "sync_response id le a req resp = Inr a'"
    using sync_ok[OF assms(8-10,12,13), of le ltr le' ltr' fresh] assms(11) by auto
  then have "syncState id le ltr (net_of le' ltr' fresh junk b host port) a = Inr a'"
    by (simp add: syncState_def net_of_def of_option_def)
  moreover have "Split (host @ '':'' @ port) '':'' = Some [host, port]"
    using split_fields_two[OF assms(4,5,6)] by (simp add: Split_char)
  ultimately show "Join id le ltr (net_of le' ltr' fresh junk b) (RegisterNotifier (gossiper_new conf ord indet reread) True True)
      (host @ '':'' @ port) = Some (Inr a')"
    using assms(2,7) by (simp add: Join_def start_member_def)
  have inv: "ev_inv a" using start_member_D[OF assms(1,2)] .
  show "learnt a' st" if "st \<in> set (node_table b')" "ns_State st = STATE_ALIVE \<and> 0 < ns_Dominant st" for st
    using merge_learns[OF inv assms(11) that(1)] that(2) by blast
  show "learnt b' st" if "st \<in> set (node_table a)" "ns_State st = STATE_ALIVE \<and> 0 < ns_Dominant st" for st
    using merge_learns[OF assms(3,9) that(1)] that(2) by blast
qed

theorem join_learns_witness:
  "Join id True True (net_of False True \<lparr>h_Type = 5, h_Body_length = 5\<rparr> (replicate buff_size 0, replicate buff_size 0) ex_member)
      (RegisterNotifier (gossiper_new (ex_conf\<lparr>conf_Name := ''b''\<rparr>) (#) 0 id) True True) ''10.0.0.2:7'' = Some (Inr ex_joined) \<and>
    learnt ex_joined ((ex_msg ''a'' 1 STATE_ALIVE)\<lparr>ns_Port := ''7''\<rparr>)"
proof -
  have "conf_Addr (g_conf ex_joiner) = ''10.0.0.1''" by code_simp
  then have addr: "''10.0.0.2'' \<noteq> conf_Addr (g_conf ex_joiner) \<or> port_string (conf_Port (g_conf ex_joiner)) \<noteq> ''7''" by simp
  have "Join id True True (net_of False True \<lparr>h_Type = 5, h_Body_length = 5\<rparr> (replicate buff_size 0, replicate buff_size 0) ex_member)
      (RegisterNotifier (gossiper_new (ex_conf\<lparr>conf_Name := ''b''\<rparr>) (#) 0 id) True True)
      (''10.0.0.2'' @ '':'' @ ''7'') = Some (Inr ex_joined) \<and>
    (\<forall>st \<in> set (node_table ex_host). ns_State st = STATE_ALIVE \<and> 0 < ns_Dominant st \<longrightarrow> learnt ex_joined st) \<and>
    (\<forall>st \<in> set (node_table ex_joiner). ns_State st = STATE_ALIVE \<and> 0 < ns_Dominant st \<longrightarrow> learnt ex_host st)"
    by (rule join_learns[OF order_ok_Cons ex_sync_runs(1) ex_member_ev_inv _ _ _ addr ex_table_ok(1) ex_sync_runs(2) ex_table_ok(2)
          ex_sync_runs(3)]) simp_all
  then show ?thesis by (simp add: ex_tables ex_msg_def)
qed

end
