(* ===== verification/Asio.thy ===== *)
theory Asio
  imports Prelude
begin

text \<open>
  What the network code uses of \<^verbatim>\<open>asio::steady_timer\<close> (\<^verbatim>\<open>src/thirdparty/asio/basic_waitable_timer.hpp\<close> and
  \<^verbatim>\<open>detail/deadline_timer_service.hpp\<close>). A timer has an expiry time, in milliseconds and \<open>None\<close> for
  \<^verbatim>\<open>time_point::max()\<close>, and the handlers that wait for it. A waiting handler is posted to the queue of the
  \<^verbatim>\<open>io_service\<close> when the time has come, and also, with an error code, when the timer is cancelled or its expiry
  is set anew. A handler in the queue can no longer be cancelled. The functions return the timer and
  the handlers they post.
\<close>

record 'h steady_timer =
  tm_expiry :: "nat option"
  tm_waits :: "'h list"

definition timer_new :: "'h steady_timer" where
  "timer_new = \<lparr>tm_expiry = Some 0, tm_waits = []\<rparr>"

definition expired :: "nat \<Rightarrow> 'h steady_timer \<Rightarrow> bool" where
  "expired now t = (case tm_expiry t of None \<Rightarrow> False | Some e \<Rightarrow> e \<le> now)"

definition timer_cancel :: "'h steady_timer \<Rightarrow> 'h steady_timer \<times> 'h list" where
  "timer_cancel t = (t\<lparr>tm_waits := []\<rparr>, tm_waits t)"

definition expires_at :: "nat option \<Rightarrow> 'h steady_timer \<Rightarrow> 'h steady_timer \<times> 'h list" where
  "expires_at e t = (let (t', posted) = timer_cancel t in (t'\<lparr>tm_expiry := e\<rparr>, posted))"

definition expires_from_now :: "nat \<Rightarrow> nat \<Rightarrow> 'h steady_timer \<Rightarrow> 'h steady_timer \<times> 'h list" where
  "expires_from_now now d t = expires_at (Some (now + d)) t"

definition async_wait :: "'h \<Rightarrow> 'h steady_timer \<Rightarrow> 'h steady_timer" where
  "async_wait h t = t\<lparr>tm_waits := tm_waits t @ [h]\<rparr>"

text \<open>The timer queue of the \<^verbatim>\<open>io_service\<close> looks at the timer.\<close>

definition timer_fire :: "nat \<Rightarrow> 'h steady_timer \<Rightarrow> 'h steady_timer \<times> 'h list" where
  "timer_fire now t = (if expired now t then (t\<lparr>tm_waits := []\<rparr>, tm_waits t) else (t, []))"

lemmas timer_simps = timer_cancel_def expires_at_def expires_from_now_def async_wait_def timer_fire_def expired_def

end
