(* ===== verification/Ticker.thy ===== *)
theory Ticker
  imports Asio
begin

text \<open>
  \<^verbatim>\<open>class AsioTicker\<close> of \<^verbatim>\<open>src/src/ticker.hpp\<close>, with the queue of its \<^verbatim>\<open>io_service\<close>, whose handlers are all
  \<^verbatim>\<open>checkDeadline\<close>. \<open>tk_calls\<close> records when the callback was called and when it had returned, the last call
  first.
\<close>

record AsioTicker =
  tk_now :: nat
  tk_timer :: "unit steady_timer"
  tk_queue :: "unit list"
  tk_timeout :: nat
  tk_op :: bool
  tk_calls :: "(nat \<times> nat) list"

definition AsioTicker_new :: "nat \<Rightarrow> AsioTicker" where
  "AsioTicker_new now =
     \<lparr>tk_now = now, tk_timer = timer_new, tk_queue = [], tk_timeout = 0, tk_op = False, tk_calls = []\<rparr>"

definition Tick :: "u32 \<Rightarrow> bool \<Rightarrow> AsioTicker \<Rightarrow> AsioTicker" where
  "Tick timeout op t =
     (let (tm, posted) = expires_from_now (tk_now t) (unat timeout) (tk_timer t)
      in t\<lparr>tk_op := op, tk_timeout := unat timeout, tk_timer := async_wait () tm, tk_queue := tk_queue t @ posted\<rparr>)"

definition Stop :: "AsioTicker \<Rightarrow> AsioTicker" where
  "Stop t = (let (tm, posted) = timer_cancel (tk_timer t) in t\<lparr>tk_timer := tm, tk_queue := tk_queue t @ posted\<rparr>)"

text \<open>\<^verbatim>\<open>~AsioTicker\<close>: the handlers that are left in the queue, bound to the ticker that is gone.\<close>

definition AsioTicker_destroy :: "AsioTicker \<Rightarrow> unit list" where
  "AsioTicker_destroy t = tk_queue (Stop t)"

text \<open>The callback, if there is one, takes \<open>d\<close> milliseconds.\<close>

definition checkDeadline :: "nat \<Rightarrow> AsioTicker \<Rightarrow> AsioTicker" where
  "checkDeadline d t =
     (let t1 = (if expired (tk_now t) (tk_timer t) then
                  let t0 = (if tk_op t then t\<lparr>tk_now := tk_now t + d, tk_calls := (tk_now t, tk_now t + d) # tk_calls t\<rparr> else t);
                      (tm, posted) = expires_from_now (tk_now t0) (tk_timeout t0) (tk_timer t0)
                  in t0\<lparr>tk_timer := tm, tk_queue := tk_queue t0 @ posted\<rparr>
                else t)
      in t1\<lparr>tk_timer := async_wait () (tk_timer t1)\<rparr>)"

datatype tick_event = Elapse nat | Fire | Run nat | Stop_called

fun ticker_step :: "AsioTicker \<Rightarrow> tick_event \<Rightarrow> AsioTicker result" where
  "ticker_step t (Elapse d) = Inr (t\<lparr>tk_now := tk_now t + d\<rparr>)"
| "ticker_step t Fire =
     (let (tm, posted) = timer_fire (tk_now t) (tk_timer t)
      in Inr (t\<lparr>tk_timer := tm, tk_queue := tk_queue t @ posted\<rparr>))"
| "ticker_step t (Run d) =
     (case tk_queue t of [] \<Rightarrow> Inr t | _ # q \<Rightarrow> Inr (checkDeadline d (t\<lparr>tk_queue := q\<rparr>)))"
| "ticker_step t Stop_called = Inr (Stop t)"

section \<open>The invariant\<close>

text \<open>Each call starts at least \<open>n\<close> milliseconds after the one before it has returned.\<close>

fun spaced :: "nat \<Rightarrow> (nat \<times> nat) list \<Rightarrow> bool" where
  "spaced n [] \<longleftrightarrow> True"
| "spaced n [(s, e)] \<longleftrightarrow> s \<le> e"
| "spaced n ((s, e) # (s', e') # l) \<longleftrightarrow> s \<le> e \<and> e' + n \<le> s \<and> spaced n ((s', e') # l)"

fun last_return :: "nat \<Rightarrow> (nat \<times> nat) list \<Rightarrow> nat" where
  "last_return start [] = start"
| "last_return start ((s, e) # l) = e"

text \<open>
  Exactly one \<^verbatim>\<open>checkDeadline\<close> waits or is queued, and the timer does not expire before the interval has
  passed since the last call.
\<close>

definition ticker_inv :: "nat \<Rightarrow> AsioTicker \<Rightarrow> bool" where
  "ticker_inv start t \<longleftrightarrow> length (tm_waits (tk_timer t)) + length (tk_queue t) = 1 \<and> tk_op t \<and>
     spaced (tk_timeout t) (tk_calls t) \<and>
     (\<exists>e. tm_expiry (tk_timer t) = Some e \<and> last_return start (tk_calls t) + tk_timeout t \<le> e) \<and>
     list_all (\<lambda>c. start + tk_timeout t \<le> fst c) (tk_calls t)"

lemma ticker_inv_Tick:
  assumes "tm_waits (tk_timer t) = []" "tk_queue t = []" "tk_calls t = []"
  shows "ticker_inv (tk_now t) (Tick timeout True t)"
  using assms by (simp add: ticker_inv_def Tick_def timer_simps)

lemma spaced_Cons: "spaced n ((s, e) # l) \<longleftrightarrow> s \<le> e \<and> (l = [] \<or> last_return 0 l + n \<le> s) \<and> spaced n l"
  by (cases l) auto

lemma last_return_start: "l \<noteq> [] \<Longrightarrow> last_return start l = last_return 0 l"
  by (cases l) auto

lemma checkDeadline_inv:
  assumes "ticker_inv start t" "tk_queue t = u # q"
  shows "ticker_inv start (checkDeadline d (t\<lparr>tk_queue := q\<rparr>))"
proof -
  have w: "tm_waits (tk_timer t) = []" "q = []" and op: "tk_op t" using assms by (auto simp: ticker_inv_def)
  obtain e where e: "tm_expiry (tk_timer t) = Some e" using assms by (auto simp: ticker_inv_def)
  show ?thesis
    using assms w op e
    by (cases "e \<le> tk_now t"; cases "tk_calls t")
      (auto simp: ticker_inv_def checkDeadline_def timer_simps Let_def spaced_Cons)
qed

lemma ticker_step_inv:
  assumes "ticker_inv start t" "ticker_step t e = Inr t'"
  shows "ticker_inv start t'"
proof (cases e)
  case (Run d)
  with assms show ?thesis
    by (cases "tk_queue t") (auto dest: checkDeadline_inv)
qed (use assms in \<open>auto simp: ticker_inv_def timer_simps Stop_def Let_def split: option.splits list.splits if_splits\<close>)

interpretation ticker: total_machine ticker_step "ticker_inv start" "\<lambda>_. True" for start
proof
  show "is_ok (ticker_step t e)" for t e by (cases e) (auto split: list.splits prod.splits)
qed (rule ticker_step_inv)

lemma checkDeadline_timeout: "tk_timeout (checkDeadline d t) = tk_timeout t"
  by (simp add: checkDeadline_def Let_def split: prod.splits)

lemma ticker_step_timeout: "ticker_step t e = Inr t' \<Longrightarrow> tk_timeout t' = tk_timeout t"
  by (cases e) (auto simp: checkDeadline_timeout Stop_def split: prod.splits list.splits)

lemma ticker_run_timeout: "rfold ticker_step t es = Inr t' \<Longrightarrow> tk_timeout t' = tk_timeout t"
  by (induction es arbitrary: t) (auto simp: rbind_Inr_iff dest: ticker_step_timeout)

lemma Tick_timeout: "tk_timeout (Tick timeout op t) = unat timeout"
  by (simp add: Tick_def split: prod.splits)

section \<open>Properties\<close>

lemma ticker_queued_once: "ticker_inv start t \<Longrightarrow> tk_queue t \<noteq> [] \<Longrightarrow> \<exists>u. tk_queue t = [u]"
  by (cases "tk_queue t") (auto simp: ticker_inv_def)

lemma destroyed_ticker_pending: "ticker_inv start t \<Longrightarrow> length (AsioTicker_destroy t) = 1"
  by (simp add: ticker_inv_def AsioTicker_destroy_def Stop_def timer_cancel_def)

text \<open>A ticker whose handler is queued or waiting calls its callback once more when time goes on.\<close>

lemma ticker_calls_again:
  assumes "ticker_inv start t"
  shows "\<exists>es t'. list_all (\<lambda>e. e \<noteq> Stop_called) es \<and> rfold ticker_step t es = Inr t' \<and>
    length (tk_calls t') = Suc (length (tk_calls t))"
proof -
  obtain e where e: "tm_expiry (tk_timer t) = Some e" "tk_op t" using assms by (auto simp: ticker_inv_def)
  let ?t = "t\<lparr>tk_now := tk_now t + e\<rparr>"
  show ?thesis
  proof (cases "tk_queue t")
    case Nil
    then obtain u where "tm_waits (tk_timer t) = [u]" using assms by (auto simp: ticker_inv_def length_Suc_conv)
    with Nil e show ?thesis
      by (intro exI[of _ "[Elapse e, Fire, Run 0]"]) (auto simp: timer_simps checkDeadline_def Let_def)
  next
    case (Cons u q)
    with assms have "tm_waits (tk_timer t) = []" "q = []" by (auto simp: ticker_inv_def)
    with Cons e show ?thesis
      by (intro exI[of _ "[Elapse e, Run 0]"]) (auto simp: timer_simps checkDeadline_def Let_def)
  qed
qed

text \<open>
  (C26) A ticker keeps the interval it was given. In every run after \<^verbatim>\<open>Tick(timeout, ..)\<close>, whatever the delays of
  the event loop, the first call of the callback comes at least \<open>timeout\<close> milliseconds after the start, and each further call at least
  \<open>timeout\<close> milliseconds after the one before it has returned; two calls never overlap, and there is never more than
  one \<^verbatim>\<open>checkDeadline\<close> waiting or queued.
\<close>

theorem ticks_spaced:
  assumes "rfold ticker_step (Tick timeout True (AsioTicker_new now)) es = Inr t"
  shows "spaced (unat timeout) (tk_calls t) \<and> list_all (\<lambda>c. now + unat timeout \<le> fst c) (tk_calls t) \<and>
    length (tm_waits (tk_timer t)) + length (tk_queue t) = 1"
proof -
  have "ticker_inv now (Tick timeout True (AsioTicker_new now))"
    using ticker_inv_Tick[of "AsioTicker_new now" timeout] by (simp add: AsioTicker_new_def timer_new_def)
  then have "ticker_inv now t" using ticker.run_inv[of now _ es t] assms by (simp add: list_all_iff)
  moreover have "tk_timeout t = unat timeout" using ticker_run_timeout[OF assms] by (simp add: Tick_timeout)
  ultimately show ?thesis by (simp add: ticker_inv_def)
qed

theorem ticks_spaced_witness:
  "case rfold ticker_step (Tick 500 True (AsioTicker_new 10)) [Elapse 700, Fire, Run 20, Elapse 300, Fire, Run 1, Elapse 400, Fire, Run 3] of
     Inl _ \<Rightarrow> False
   | Inr t \<Rightarrow> tk_calls t = [(1430, 1433), (710, 730)] \<and> spaced 500 (tk_calls t)"
proof -
  let ?es = "[Elapse 700, Fire, Run 20, Elapse 300, Fire, Run 1, Elapse 400, Fire, Run 3]"
  obtain t where t: "rfold ticker_step (Tick 500 True (AsioTicker_new 10)) ?es = Inr t" "tk_calls t = [(1430, 1433), (710, 730)]"
    by (simp add: Tick_def AsioTicker_new_def timer_new_def timer_simps checkDeadline_def Let_def)
  from ticks_spaced[OF t(1)] t show ?thesis by simp
qed

text \<open>
  (C39) \<^verbatim>\<open>Stop\<close> does not stop a ticker. Cancelling the timer posts \<^verbatim>\<open>checkDeadline\<close>, which ignores the error code and waits
  again: after any run, with any number of calls of \<^verbatim>\<open>Stop\<close> in it, the callback is called again as time
  goes on. A ticker that is destroyed instead leaves exactly one handler in the queue, bound to the freed object.
\<close>

theorem Stop_does_not_stop:
  assumes "rfold ticker_step (Tick timeout True (AsioTicker_new now)) es = Inr t"
  shows "(\<exists>es' t'. list_all (\<lambda>e. e \<noteq> Stop_called) es' \<and> rfold ticker_step (Stop t) es' = Inr t' \<and>
    length (tk_calls t') = Suc (length (tk_calls t))) \<and> length (AsioTicker_destroy t) = 1"
proof -
  have "ticker_inv now (Tick timeout True (AsioTicker_new now))"
    using ticker_inv_Tick[of "AsioTicker_new now" timeout] by (simp add: AsioTicker_new_def timer_new_def)
  then have "ticker_inv now t" using ticker.run_inv[of now _ es t] assms by (simp add: list_all_iff)
  then have stop: "ticker_inv now (Stop t)" and destroy: "length (AsioTicker_destroy t) = 1"
    using ticker_step_inv[of now t Stop_called] destroyed_ticker_pending by simp_all
  from ticker_calls_again[OF stop] destroy show ?thesis by (simp add: Stop_def split: prod.splits)
qed

theorem Stop_does_not_stop_witness:
  "\<exists>es' t'. list_all (\<lambda>e. e \<noteq> Stop_called) es' \<and>
    rfold ticker_step (Stop (Tick 500 True (AsioTicker_new 10))) es' = Inr t' \<and> length (tk_calls t') = 1 \<and>
    length (AsioTicker_destroy (Tick 500 True (AsioTicker_new 10))) = 1"
  using Stop_does_not_stop[of 500 10 "[]"] by (simp add: Tick_def AsioTicker_new_def Let_def split: prod.splits)

end
