(* ===== verification/Udp_Client.thy ===== *)
theory Udp_Client
  imports Asio Udp_Runner
begin

text \<open>
  \<^verbatim>\<open>class udp::AsyncClient\<close> of \<^verbatim>\<open>src/src/network/udp/async_client.hpp\<close>, with the queue of its \<^verbatim>\<open>io_service\<close>. The one
  timer guards the sending and then the receiving; the lambda that waits for it ignores the error
  code and looks at the expiry time instead. \<open>is_ip\<close> is the success of \<^verbatim>\<open>asio::ip::address::from_string\<close>, whose
  throwing variant, like opening an open socket and cancelling a closed one, is a \<open>SystemError\<close>. The callbacks are
  recorded in \<open>uc_log\<close>, the last call first; what the first one does to the client is a parameter.
\<close>

section \<open>The client\<close>

datatype wait_kind = Wait_send | Wait_recv

text \<open>Operations of the socket, with \<^verbatim>\<open>timeout > 0\<close>, and the handlers in the queue.\<close>

datatype socket_op = Send_op bool bytes | Recv_op bool

datatype handler =
    On_deadline wait_kind
  | On_sent bool bool
  | On_received bool "bytes option"

datatype called = Send_finished | Send_timed_out | Received bytes | Receive_timed_out

record AsyncClient =
  uc_now :: nat
  uc_open :: bool
  uc_timer :: "wait_kind steady_timer"
  uc_pending :: "socket_op list"
  uc_queue :: "handler list"
  uc_send_finish_cb :: bool
  uc_send_timeout_cb :: bool
  uc_receive_finish_cb :: bool
  uc_receive_timeout_cb :: bool
  uc_log :: "called list"

definition AsyncClient_new :: "nat \<Rightarrow> AsyncClient" where
  "AsyncClient_new now =
     \<lparr>uc_now = now, uc_open = False, uc_timer = timer_new, uc_pending = [], uc_queue = [],
      uc_send_finish_cb = False, uc_send_timeout_cb = False, uc_receive_finish_cb = False,
      uc_receive_timeout_cb = False, uc_log = []\<rparr>"

text \<open>The arguments say whether each callback is set.\<close>

definition Waterfall :: "bool \<Rightarrow> bool \<Rightarrow> bool \<Rightarrow> bool \<Rightarrow> AsyncClient \<Rightarrow> AsyncClient" where
  "Waterfall sfc stc rfc rtc c =
     c\<lparr>uc_send_finish_cb := sfc, uc_send_timeout_cb := stc, uc_receive_finish_cb := rfc, uc_receive_timeout_cb := rtc\<rparr>"

definition set_deadline :: "wait_kind \<Rightarrow> u32 \<Rightarrow> AsyncClient \<Rightarrow> AsyncClient" where
  "set_deadline k timeout c =
     (if timeout > 0 then
        let (tm, posted) = expires_from_now (uc_now c) (unat timeout) (uc_timer c)
        in c\<lparr>uc_timer := async_wait k tm, uc_queue := uc_queue c @ map On_deadline posted\<rparr>
      else c)"

definition cancel_deadline :: "AsyncClient \<Rightarrow> AsyncClient" where
  "cancel_deadline c =
     (let (tm, posted) = timer_cancel (uc_timer c)
      in c\<lparr>uc_timer := tm, uc_queue := uc_queue c @ map On_deadline posted\<rparr>)"

fun aborted :: "socket_op \<Rightarrow> handler" where
  "aborted (Send_op timed _) = On_sent timed False"
| "aborted (Recv_op timed) = On_received timed None"

definition socket_cancel :: "AsyncClient \<Rightarrow> AsyncClient result" where
  "socket_cancel c =
     (if uc_open c then Inr (c\<lparr>uc_pending := [], uc_queue := uc_queue c @ map aborted (uc_pending c)\<rparr>)
      else Inl SystemError)"

text \<open>A datagram larger than the MTU is refused; an empty one is reported and sent.\<close>

definition AsyncSendTo :: "(string \<Rightarrow> bool) \<Rightarrow> bytes \<Rightarrow> string \<Rightarrow> i16 \<Rightarrow> u32 \<Rightarrow> AsyncClient \<Rightarrow> AsyncClient result" where
  "AsyncSendTo is_ip buff host port timeout c =
     (if mtu < length buff then Inr c
      else
        let c1 = set_deadline Wait_send timeout c
        in if \<not> is_ip host then Inr c1
           else if uc_open c1 then Inl SystemError
           else Inr (c1\<lparr>uc_open := True, uc_pending := uc_pending c1 @ [Send_op (timeout > 0) buff]\<rparr>))"

definition asyncReceiveFrom :: "u32 \<Rightarrow> AsyncClient \<Rightarrow> AsyncClient" where
  "asyncReceiveFrom timeout c =
     (let c1 = set_deadline Wait_recv timeout c
      in if uc_open c1 then c1\<lparr>uc_pending := uc_pending c1 @ [Recv_op (timeout > 0)]\<rparr>
         else c1\<lparr>uc_queue := uc_queue c1 @ [On_received (timeout > 0) None]\<rparr>)"

definition AsyncReceiveFrom :: "(string \<Rightarrow> bool) \<Rightarrow> string \<Rightarrow> i16 \<Rightarrow> u32 \<Rightarrow> AsyncClient \<Rightarrow> AsyncClient result" where
  "AsyncReceiveFrom is_ip host port timeout c =
     (if is_ip host then Inr (asyncReceiveFrom timeout c) else Inl SystemError)"

text \<open>\<^verbatim>\<open>checkDeadline\<close> with the callback that its wait passes: cancel the operation, call the timeout callback.\<close>

definition udp_checkDeadline :: "wait_kind \<Rightarrow> AsyncClient \<Rightarrow> AsyncClient result" where
  "udp_checkDeadline k c =
     (if expired (uc_now c) (uc_timer c) then
        rbind (socket_cancel c) (\<lambda>c1.
          Inr (case k of
              Wait_send \<Rightarrow> if uc_send_timeout_cb c1 then c1\<lparr>uc_log := Send_timed_out # uc_log c1\<rparr> else c1
            | Wait_recv \<Rightarrow> if uc_receive_timeout_cb c1 then c1\<lparr>uc_log := Receive_timed_out # uc_log c1\<rparr> else c1))
      else Inr c)"

text \<open>The lambdas of \<^verbatim>\<open>async_send_to\<close> and \<^verbatim>\<open>async_receive_from\<close>.\<close>

definition send_handler :: "(AsyncClient \<Rightarrow> AsyncClient result) \<Rightarrow> bool \<Rightarrow> bool \<Rightarrow> AsyncClient \<Rightarrow> AsyncClient result" where
  "send_handler sfc timed ok c =
     (let c1 = (if timed then cancel_deadline c else c)
      in if \<not> ok then Inr c1
         else if uc_send_finish_cb c1 then sfc (c1\<lparr>uc_log := Send_finished # uc_log c1\<rparr>)
         else Inr c1)"

text \<open>\<^verbatim>\<open>handleSendTo\<close>, which nothing calls: it receives at once, without a timeout and without a callback.\<close>

definition handleSendTo :: "bool \<Rightarrow> AsyncClient \<Rightarrow> AsyncClient" where
  "handleSendTo ok c =
     (let c1 = cancel_deadline c
      in if \<not> ok then c1 else asyncReceiveFrom 0 c1)"

definition receive_handler :: "bool \<Rightarrow> bytes option \<Rightarrow> AsyncClient \<Rightarrow> AsyncClient" where
  "receive_handler timed r c =
     (let c1 = (if timed then cancel_deadline c else c)
      in case r of
           None \<Rightarrow> c1
         | Some data \<Rightarrow> if uc_receive_finish_cb c1 then c1\<lparr>uc_log := Received data # uc_log c1\<rparr> else c1)"

fun run_handler :: "(AsyncClient \<Rightarrow> AsyncClient result) \<Rightarrow> handler \<Rightarrow> AsyncClient \<Rightarrow> AsyncClient result" where
  "run_handler sfc (On_deadline k) c = udp_checkDeadline k c"
| "run_handler sfc (On_sent timed ok) c = send_handler sfc timed ok c"
| "run_handler sfc (On_received timed r) c = Inr (receive_handler timed r c)"

text \<open>
  What happens around the client: time passes, the expired timer posts its handlers, the oldest operation of the
  socket completes, the first handler of the queue runs.
\<close>

datatype client_event = C_elapse nat | C_fire | C_complete "bytes option" | C_run

fun completed :: "bytes option \<Rightarrow> socket_op \<Rightarrow> handler" where
  "completed r (Send_op timed _) = On_sent timed (r \<noteq> None)"
| "completed r (Recv_op timed) = On_received timed (map_option (take mtu) r)"

fun client_step :: "(AsyncClient \<Rightarrow> AsyncClient result) \<Rightarrow> AsyncClient \<Rightarrow> client_event \<Rightarrow> AsyncClient result" where
  "client_step sfc c (C_elapse d) = Inr (c\<lparr>uc_now := uc_now c + d\<rparr>)"
| "client_step sfc c C_fire =
     (let (tm, posted) = timer_fire (uc_now c) (uc_timer c)
      in Inr (c\<lparr>uc_timer := tm, uc_queue := uc_queue c @ map On_deadline posted\<rparr>))"
| "client_step sfc c (C_complete r) =
     (case uc_pending c of
        [] \<Rightarrow> Inr c
      | op # ops \<Rightarrow> Inr (c\<lparr>uc_pending := ops, uc_queue := uc_queue c @ [completed r op]\<rparr>))"
| "client_step sfc c C_run =
     (case uc_queue c of [] \<Rightarrow> Inr c | h # hs \<Rightarrow> run_handler sfc h (c\<lparr>uc_queue := hs\<rparr>))"

section \<open>The probe\<close>

text \<open>The client of \<^verbatim>\<open>gossiper::probeNode\<close>: receive when the ping is sent, do nothing when sending times out.\<close>

definition probe_client :: "(string \<Rightarrow> bool) \<Rightarrow> nat \<Rightarrow> bytes \<Rightarrow> string \<Rightarrow> i16 \<Rightarrow> u32 \<Rightarrow> AsyncClient result" where
  "probe_client is_ip now ping host port timeout =
     AsyncSendTo is_ip ping host port timeout (Waterfall True False True True (AsyncClient_new now))"

definition probe_step :: "(string \<Rightarrow> bool) \<Rightarrow> string \<Rightarrow> i16 \<Rightarrow> u32 \<Rightarrow> AsyncClient \<Rightarrow> client_event \<Rightarrow> AsyncClient result" where
  "probe_step is_ip host port timeout = client_step (AsyncReceiveFrom is_ip host port timeout)"

section \<open>Each callback at most once\<close>

definition is_send :: "socket_op \<Rightarrow> bool" where
  "is_send op = (case op of Send_op _ _ \<Rightarrow> True | _ \<Rightarrow> False)"

lemma is_send_simps [simp]: "is_send (Send_op t b)" "\<not> is_send (Recv_op t)"
  by (simp_all add: is_send_def)

text \<open>How often a callback has been called or still may be.\<close>

definition how_many :: "('a \<Rightarrow> bool) \<Rightarrow> 'a list \<Rightarrow> nat" where
  "how_many P xs = length (filter P xs)"

lemma how_many_simps [simp]:
  "how_many P [] = 0" "how_many P (x # xs) = (if P x then Suc (how_many P xs) else how_many P xs)"
  "how_many P (xs @ ys) = how_many P xs + how_many P ys"
  by (simp_all add: how_many_def)

lemma how_many_map [simp]: "how_many P (map f xs) = how_many (P \<circ> f) xs"
  by (simp add: how_many_def filter_map)

definition sends :: "AsyncClient \<Rightarrow> nat" where
  "sends c = how_many is_send (uc_pending c) + how_many (\<lambda>h. \<exists>t ok. h = On_sent t ok) (uc_queue c) +
     how_many (\<lambda>l. l = Send_finished) (uc_log c)"

definition receives :: "AsyncClient \<Rightarrow> nat" where
  "receives c = how_many (\<lambda>op. \<not> is_send op) (uc_pending c) + how_many (\<lambda>h. \<exists>t r. h = On_received t r) (uc_queue c) +
     how_many (\<lambda>l. \<exists>d. l = Received d) (uc_log c)"

definition waits :: "wait_kind \<Rightarrow> AsyncClient \<Rightarrow> nat" where
  "waits k c = how_many (\<lambda>k'. k' = k) (tm_waits (uc_timer c)) + how_many (\<lambda>h. h = On_deadline k) (uc_queue c) +
     how_many (\<lambda>l. l = (case k of Wait_send \<Rightarrow> Send_timed_out | Wait_recv \<Rightarrow> Receive_timed_out)) (uc_log c)"

definition probe_inv :: "AsyncClient \<Rightarrow> bool" where
  "probe_inv c \<longleftrightarrow> sends c \<le> 1 \<and> waits Wait_send c \<le> 1 \<and>
     receives c \<le> how_many (\<lambda>l. l = Send_finished) (uc_log c) \<and>
     waits Wait_recv c \<le> how_many (\<lambda>l. l = Send_finished) (uc_log c)"

lemma how_many_mono: "(\<And>x. P x \<Longrightarrow> Q x) \<Longrightarrow> how_many P xs \<le> how_many Q xs"
  by (induction xs) auto

lemma how_many_False [simp]: "how_many (\<lambda>x. False) xs = 0"
  by (simp add: how_many_def)

lemma aborted_simps [simp]:
  "(\<exists>t ok. aborted op = On_sent t ok) \<longleftrightarrow> is_send op"
  "(\<exists>t r. aborted op = On_received t r) \<longleftrightarrow> \<not> is_send op"
  "aborted op \<noteq> On_deadline k"
  subgoal by (cases op) (simp_all add: ex_bool_eq)
  subgoal by (cases op) (simp_all add: ex_bool_eq)
  subgoal by (cases op) (simp_all add: ex_bool_eq)
  done

lemma completed_simps [simp]:
  "(\<exists>t ok. completed r op = On_sent t ok) \<longleftrightarrow> is_send op"
  "(\<exists>t r'. completed r op = On_received t r') \<longleftrightarrow> \<not> is_send op"
  "completed r op \<noteq> On_deadline k"
  subgoal by (cases op) auto
  subgoal by (cases op) (simp_all add: ex_bool_eq)
  subgoal by (cases op) (simp_all add: ex_bool_eq)
  done

lemma cancel_deadline_counts [simp]:
  "sends (cancel_deadline c) = sends c" "receives (cancel_deadline c) = receives c" "waits k (cancel_deadline c) = waits k c"
  "uc_log (cancel_deadline c) = uc_log c"
  "uc_send_finish_cb (cancel_deadline c) = uc_send_finish_cb c"
  "uc_receive_finish_cb (cancel_deadline c) = uc_receive_finish_cb c"
  by (simp_all add: cancel_deadline_def timer_simps sends_def receives_def waits_def o_def)

lemma set_deadline_counts [simp]:
  "sends (set_deadline k' t c) = sends c" "receives (set_deadline k' t c) = receives c"
  "waits k (set_deadline k' t c) = waits k c + (if k = k' \<and> t > 0 then 1 else 0)"
  "uc_log (set_deadline k' t c) = uc_log c" "uc_open (set_deadline k' t c) = uc_open c"
  by (simp_all add: set_deadline_def timer_simps sends_def receives_def waits_def o_def)

lemma asyncReceiveFrom_counts:
  "sends (asyncReceiveFrom t c) = sends c" "receives (asyncReceiveFrom t c) = Suc (receives c)"
  "waits k (asyncReceiveFrom t c) = waits k c + (if k = Wait_recv \<and> t > 0 then 1 else 0)"
  "uc_log (asyncReceiveFrom t c) = uc_log c"
  by (simp_all add: asyncReceiveFrom_def Let_def set_deadline_def timer_simps sends_def receives_def waits_def o_def)

lemma handleSendTo_counts:
  "receives (handleSendTo ok c) = receives c + (if ok then 1 else 0)" "waits k (handleSendTo ok c) = waits k c"
  "uc_log (handleSendTo ok c) = uc_log c"
  by (simp_all add: handleSendTo_def asyncReceiveFrom_counts Let_def)

lemma socket_cancel_counts:
  assumes "socket_cancel c = Inr c'"
  shows "sends c' = sends c" "receives c' = receives c" "waits k c' = waits k c" "uc_log c' = uc_log c"
  using assms by (auto simp: socket_cancel_def sends_def receives_def waits_def o_def split: if_splits)

lemma log_counts:
  assumes "uc_log c = L"
  shows "sends (c\<lparr>uc_log := l # L\<rparr>) = sends c + (if l = Send_finished then 1 else 0)"
  "receives (c\<lparr>uc_log := l # L\<rparr>) = receives c + (if \<exists>d. l = Received d then 1 else 0)"
  "waits k (c\<lparr>uc_log := l # L\<rparr>) = waits k c +
     (if l = (case k of Wait_send \<Rightarrow> Send_timed_out | Wait_recv \<Rightarrow> Receive_timed_out) then 1 else 0)"
  using assms by (auto simp: sends_def receives_def waits_def)

lemma queue_counts:
  assumes "uc_queue c = h # hs"
  shows "sends c = sends (c\<lparr>uc_queue := hs\<rparr>) + (if \<exists>t ok. h = On_sent t ok then 1 else 0)"
    "receives c = receives (c\<lparr>uc_queue := hs\<rparr>) + (if \<exists>t r. h = On_received t r then 1 else 0)"
    "waits k c = waits k (c\<lparr>uc_queue := hs\<rparr>) + (if h = On_deadline k then 1 else 0)"
  using assms by (auto simp: sends_def receives_def waits_def)

lemma probe_step_inv:
  assumes "probe_inv c" "probe_step is_ip host port timeout c e = Inr c'"
  shows "probe_inv c'"
proof (cases e)
  case (C_complete r)
  with assms show ?thesis
    by (cases "uc_pending c")
      (auto simp: probe_step_def probe_inv_def sends_def receives_def waits_def split: if_splits)
next
  case C_run
  show ?thesis
  proof (cases "uc_queue c")
    case (Cons h hs)
    let ?c = "c\<lparr>uc_queue := hs\<rparr>"
    note q = queue_counts[OF Cons]
    have step: "run_handler (AsyncReceiveFrom is_ip host port timeout) h ?c = Inr c'"
      using assms(2) C_run Cons by (simp add: probe_step_def)
    show ?thesis
    proof (cases h)
      case (On_deadline k)
      then obtain c1 where "expired (uc_now ?c) (uc_timer ?c) \<longrightarrow> socket_cancel ?c = Inr c1" 
        and c': "c' = (if expired (uc_now ?c) (uc_timer ?c) then
          (case k of Wait_send \<Rightarrow> if uc_send_timeout_cb c1 then c1\<lparr>uc_log := Send_timed_out # uc_log c1\<rparr> else c1
            | Wait_recv \<Rightarrow> if uc_receive_timeout_cb c1 then c1\<lparr>uc_log := Receive_timed_out # uc_log c1\<rparr> else c1) else ?c)"
        using step by (auto simp: udp_checkDeadline_def rbind_Inr_iff split: if_splits)
      with socket_cancel_counts[of ?c c1] assms(1) On_deadline show ?thesis
        by (cases k) (auto simp: probe_inv_def q log_counts)
    next
      case (On_sent t ok)
      let ?c1 = "if t then cancel_deadline ?c else ?c"
      have c1: "sends ?c1 = sends ?c" "receives ?c1 = receives ?c" "\<And>k. waits k ?c1 = waits k ?c" "uc_log ?c1 = uc_log c"
        by simp_all
      have "c' = ?c1 \<or> c' = asyncReceiveFrom timeout (?c1\<lparr>uc_log := Send_finished # uc_log ?c1\<rparr>)"
        using step On_sent by (auto simp: send_handler_def AsyncReceiveFrom_def Let_def split: if_splits)
      with assms(1) On_sent show ?thesis
        by (elim disjE) (auto simp: probe_inv_def q c1 log_counts asyncReceiveFrom_counts simp del: cancel_deadline_counts)
    next
      case (On_received t r)
      let ?c1 = "if t then cancel_deadline ?c else ?c"
      have c1: "sends ?c1 = sends ?c" "receives ?c1 = receives ?c" "\<And>k. waits k ?c1 = waits k ?c" "uc_log ?c1 = uc_log c"
        by simp_all
      have "c' = ?c1 \<or> (\<exists>d. c' = ?c1\<lparr>uc_log := Received d # uc_log ?c1\<rparr>)"
        using step On_received by (auto simp: receive_handler_def Let_def split: if_splits option.splits)
      with assms(1) On_received show ?thesis
        by (elim disjE exE) (auto simp: probe_inv_def q c1 log_counts simp del: cancel_deadline_counts split: wait_kind.splits)
    qed
  qed (use assms C_run in \<open>auto simp: probe_step_def\<close>)
qed (use assms in \<open>auto simp: probe_step_def probe_inv_def sends_def receives_def waits_def timer_simps o_def
    split: option.splits if_splits\<close>)

interpretation probing: fallible_machine "probe_step is_ip host port timeout" probe_inv "\<lambda>_. True" for is_ip host port timeout
  by standard (rule probe_step_inv)

section \<open>Properties\<close>

lemma probe_client_inv:
  assumes "probe_client is_ip now ping host port timeout = Inr c"
  shows "probe_inv c"
  using assms
  by (auto simp: probe_client_def AsyncSendTo_def AsyncClient_new_def Waterfall_def timer_new_def Let_def set_deadline_def
      timer_simps probe_inv_def sends_def receives_def waits_def split: if_splits)

lemma probe_inv_once:
  assumes "probe_inv c"
  shows "how_many (\<lambda>x. x = l) (uc_log c) \<le> 1"
proof (cases l)
  case (Received d)
  have "how_many (\<lambda>x. x = l) (uc_log c) \<le> how_many (\<lambda>l. \<exists>d. l = Received d) (uc_log c)"
    unfolding Received by (rule how_many_mono) blast
  then show ?thesis using assms by (auto simp: probe_inv_def sends_def receives_def waits_def)
qed (use assms in \<open>auto simp: probe_inv_def sends_def receives_def waits_def\<close>)

text \<open>
  (C25) The waterfall of a probe flows once. In every run of a probe's client each callback is called at most
  once, and the pong and the timeout of receiving it are only reported after the ping was sent.
\<close>

theorem waterfall_once:
  assumes "probe_client is_ip now ping host port timeout = Inr c0"
    "rfold (probe_step is_ip host port timeout) c0 es = Inr c"
  shows "how_many (\<lambda>l. l = Send_finished) (uc_log c) \<le> 1 \<and> how_many (\<lambda>l. l = Send_timed_out) (uc_log c) \<le> 1 \<and>
    how_many (\<lambda>l. \<exists>d. l = Received d) (uc_log c) \<le> how_many (\<lambda>l. l = Send_finished) (uc_log c) \<and>
    how_many (\<lambda>l. l = Receive_timed_out) (uc_log c) \<le> how_many (\<lambda>l. l = Send_finished) (uc_log c)"
proof -
  have "probe_inv c" using probing.run_inv[OF probe_client_inv[OF assms(1)] _ assms(2)] by (simp add: list_all_iff)
  then show ?thesis by (auto simp: probe_inv_def sends_def receives_def waits_def)
qed

theorem waterfall_once_witness:
  "\<exists>c0 c. probe_client (\<lambda>_. True) 0 [1, 2] ''10.0.0.1'' 7 500 = Inr c0 \<and>
    rfold (probe_step (\<lambda>_. True) ''10.0.0.1'' 7 500) c0 [C_complete (Some []), C_run, C_complete (Some [5]), C_run, C_run] = Inr c \<and>
    uc_log c = [Received [5], Send_finished] \<and> how_many (\<lambda>l. l = Send_finished) (uc_log c) \<le> 1"
proof -
  obtain c0 c where c: "probe_client (\<lambda>_. True) 0 [1, 2] ''10.0.0.1'' 7 500 = Inr c0"
    "rfold (probe_step (\<lambda>_. True) ''10.0.0.1'' 7 500) c0 [C_complete (Some []), C_run, C_complete (Some [5]), C_run, C_run] = Inr c"
    "uc_log c = [Received [5], Send_finished]"
    by (simp add: probe_client_def AsyncSendTo_def AsyncClient_new_def Waterfall_def timer_new_def Let_def set_deadline_def
      timer_simps probe_step_def send_handler_def AsyncReceiveFrom_def asyncReceiveFrom_def cancel_deadline_def
      udp_checkDeadline_def receive_handler_def socket_cancel_def mtu_def)
  from waterfall_once[OF c(1,2)] c show ?thesis by blast
qed

text \<open>A run in which the pong arrives in time and both callbacks for it are called.\<close>

definition late_run :: "u32 \<Rightarrow> bytes \<Rightarrow> client_event list" where
  "late_run timeout pong =
     [C_complete (Some []), C_run, C_run, C_complete (Some pong), C_run, C_elapse (unat timeout), C_run]"

lemma late_run_log:
  assumes "is_ip host" "length ping \<le> mtu" "timeout > 0" "length pong \<le> mtu"
  shows "\<exists>c0 c. probe_client is_ip now ping host port timeout = Inr c0 \<and>
    rfold (probe_step is_ip host port timeout) c0 (late_run timeout pong) = Inr c \<and>
    uc_log c = [Receive_timed_out, Received pong, Send_finished]"
proof -
  have t: "0 < unat timeout" using assms(3) by (simp add: word_less_nat_alt)
  show ?thesis
    using assms t
    by (simp add: probe_client_def AsyncSendTo_def AsyncClient_new_def Waterfall_def timer_new_def Let_def set_deadline_def
      timer_simps late_run_def probe_step_def send_handler_def AsyncReceiveFrom_def asyncReceiveFrom_def cancel_deadline_def
      udp_checkDeadline_def receive_handler_def socket_cancel_def)
qed

text \<open>
  (C37) A pong in time can still count as a timeout. The timer's handler does not look at its error code: when the
  pong is handled before the deadline, the timer is cancelled, but if the event loop comes to the
  cancelled handler only after the deadline, it calls the timeout callback, \<^verbatim>\<open>suspectNode\<close>, for a node that has answered.
\<close>

theorem answered_probe_times_out:
  assumes "is_ip host" "length ping \<le> mtu" "timeout > 0" "length pong \<le> mtu"
  shows "\<exists>c0 c. probe_client is_ip now ping host port timeout = Inr c0 \<and>
    rfold (probe_step is_ip host port timeout) c0 (late_run timeout pong) = Inr c \<and>
    uc_log c = [Receive_timed_out, Received pong, Send_finished]"
  using assms by (rule late_run_log)

theorem answered_probe_times_out_witness:
  "\<exists>c0 c. probe_client (\<lambda>_. True) 0 [1, 2] ''10.0.0.1'' 7 500 = Inr c0 \<and>
    rfold (probe_step (\<lambda>_. True) ''10.0.0.1'' 7 500) c0 (late_run 500 [5]) = Inr c \<and>
    uc_log c = [Receive_timed_out, Received [5], Send_finished]"
  by (rule answered_probe_times_out) (simp_all add: mtu_def)

text \<open>
  A node whose address is not an IP literal ends the program. \<^verbatim>\<open>AsyncSendTo\<close> reports the address and returns, but
  its timer stays armed; when it expires, cancelling the socket that was never opened throws in
  the thread of the event loop.
\<close>

theorem bad_address_throws:
  assumes "\<not> is_ip host" "length ping \<le> mtu" "timeout > 0"
  shows "\<exists>c0. probe_client is_ip now ping host port timeout = Inr c0 \<and> uc_log c0 = [] \<and>
    rfold (probe_step is_ip host port timeout) c0 [C_elapse (unat timeout), C_fire, C_run] = Inl SystemError"
  using assms
  by (simp add: probe_client_def AsyncSendTo_def AsyncClient_new_def Waterfall_def timer_new_def Let_def set_deadline_def
      timer_simps probe_step_def udp_checkDeadline_def socket_cancel_def)

theorem bad_address_throws_witness:
  "\<exists>c0. probe_client (\<lambda>h. h \<noteq> ''localhost'') 0 [1] ''localhost'' 7 500 = Inr c0 \<and> uc_log c0 = [] \<and>
    rfold (probe_step (\<lambda>h. h \<noteq> ''localhost'') ''localhost'' 7 500) c0 [C_elapse (unat (500 :: u32)), C_fire, C_run] = Inl SystemError"
  by (rule bad_address_throws) (simp_all add: mtu_def)

end
