(* ===== verification/Hybrid.thy ===== *)
theory Hybrid
  imports Sync Ticker Udp_Client
begin

text \<open>
  A whole node: the member, and the \<^verbatim>\<open>HybridRunner\<close> of \<^verbatim>\<open>src/src/hybrid_runner.hpp\<close> that runs its TCP server, its UDP
  server, its tickers and the clients of its probes on one \<^verbatim>\<open>io_service\<close>. With one thread, as in
  \<^verbatim>\<open>examples/main.cpp\<close>, each handler runs to its end; the events of the parts may come in any order. Each
  part keeps its own clock and queue, so every order in which the one \<^verbatim>\<open>io_service\<close> runs handlers is among them.
\<close>

section \<open>The runner\<close>

text \<open>
  What the code leaves to the host: byte order, evaluation order, what dead, freed and uninitialised memory reads
  as (as in the theories \<open>Gossiper\<close>, \<open>Packets\<close> and \<open>Tcp_Runner\<close>), and which strings are IP addresses. The client
  of a probe sends from a buffer on the stack of \<^verbatim>\<open>probeNode\<close>, which has returned by then:
  \<open>ho_stack d i\<close> is what the \<open>i\<close>-th byte of the dead buffer that held \<open>d\<close> reads as.
\<close>

record host =
  ho_le :: bool
  ho_ltr :: bool
  ho_moved :: "node_state \<Rightarrow> node_state"
  ho_stack :: "bytes \<Rightarrow> nat \<Rightarrow> u8"
  ho_freed :: "bytes \<Rightarrow> nat \<Rightarrow> u8"
  ho_header :: Header
  ho_reread :: "Header \<Rightarrow> Header"
  ho_junk :: bytes
  ho_is_ip :: "string \<Rightarrow> bool"

text \<open>The callbacks \<^verbatim>\<open>gossiper::probe\<close> and \<^verbatim>\<open>gossiper::gossip\<close>; the latter only logs.\<close>

datatype ticker_callback = Probe | Gossip

text \<open>A probe in flight: the values its callbacks are bound to, and its client.\<close>

record probe_in_flight =
  pr_node :: node_state
  pr_port :: i16
  pr_seq :: u64
  pr_client :: AsyncClient

record 'p HybridRunner =
  hy_member :: gossiper
  hy_tcp :: "gossiper tcp_Server"
  hy_udp :: "(gossiper, 'p) udp_Server"
  hy_tickers :: "(AsioTicker \<times> ticker_callback) list"
  hy_probes :: "probe_in_flight list"

definition HybridRunner_new :: "host \<Rightarrow> 'p \<Rightarrow> gossiper \<Rightarrow> 'p HybridRunner" where
  "HybridRunner_new ho no_one g =
     \<lparr>hy_member = g, hy_tcp = tcp_Server_new (of_nat HEADER_SIZE) g,
      hy_udp = udp_Server_new (ho_junk ho) no_one g, hy_tickers = [], hy_probes = []\<rparr>"

definition AddTicker :: "nat \<Rightarrow> u32 \<Rightarrow> ticker_callback \<Rightarrow> 'p HybridRunner \<Rightarrow> 'p HybridRunner" where
  "AddTicker now interval cb h =
     h\<lparr>hy_tickers := hy_tickers h @ [(Tick interval True (AsioTicker_new now), cb)]\<rparr>"

definition Run_servers :: "'p HybridRunner \<Rightarrow> 'p HybridRunner" where
  "Run_servers h = h\<lparr>hy_tcp := tcp_Start (hy_tcp h), hy_udp := udp_Start (hy_udp h)\<rparr>"

text \<open>\<^verbatim>\<open>~HybridRunner\<close> deletes the tickers: the handlers that are left in the queue, bound to tickers that are gone.\<close>

definition HybridRunner_destroy :: "'p HybridRunner \<Rightarrow> unit list" where
  "HybridRunner_destroy h = concat (map (\<lambda>(t, cb). AsioTicker_destroy t) (hy_tickers h))"

text \<open>\<^verbatim>\<open>gossiper::alive\<close>\<close>

definition alive :: "nat \<Rightarrow> 'p HybridRunner \<Rightarrow> 'p HybridRunner" where
  "alive now h =
     Run_servers
       (AddTicker now (conf_Gossip_interval (g_conf (hy_member h))) Gossip
         (AddTicker now (conf_Probe_interval (g_conf (hy_member h))) Probe h))"

section \<open>Events\<close>

text \<open>A tick of the probe ticker: choose a node, and if it is to be pinged, send the ping with a new client.\<close>

definition sent_from_stack :: "host \<Rightarrow> bytes \<Rightarrow> bytes" where
  "sent_from_stack ho datagram = map (ho_stack ho datagram) [0..<length datagram]"

definition do_probe :: "host \<Rightarrow> nat \<Rightarrow> 'p HybridRunner \<Rightarrow> 'p HybridRunner result" where
  "do_probe ho now h =
     rbind (probe (hy_member h)) (\<lambda>(candidate, g).
       case candidate of
         None \<Rightarrow> Inr (h\<lparr>hy_member := g\<rparr>)
       | Some node \<Rightarrow>
           rbind (probeNode (ho_le ho) (ho_ltr ho) (ho_junk ho) g node) (\<lambda>((ip, port, seq, datagram), g').
           rbind (probe_client (ho_is_ip ho) now (sent_from_stack ho datagram) ip port (conf_Probe_timeout (g_conf g'))) (\<lambda>c.
             Inr (h\<lparr>hy_member := g',
                    hy_probes := hy_probes h @ [\<lparr>pr_node = node, pr_port = port, pr_seq = seq, pr_client = c\<rparr>]\<rparr>))))"

definition tick_callback :: "host \<Rightarrow> nat \<Rightarrow> ticker_callback \<Rightarrow> 'p HybridRunner \<Rightarrow> 'p HybridRunner result" where
  "tick_callback ho now cb h = (case cb of Probe \<Rightarrow> do_probe ho now h | Gossip \<Rightarrow> Inr h)"

text \<open>What the callbacks of a probe do to the member; the pong lies at the start of the client's buffer.\<close>

definition probe_callback :: "host \<Rightarrow> probe_in_flight \<Rightarrow> called \<Rightarrow> gossiper \<Rightarrow> gossiper result" where
  "probe_callback ho p l g =
     (case l of
        Received data \<Rightarrow>
          pong_received (ho_le ho) g (pr_seq p) (data @ drop (length data) (ho_junk ho)) (length data)
      | Receive_timed_out \<Rightarrow> suspectNode g (pr_node p)
      | _ \<Rightarrow> Inr g)"

datatype 'p hybrid_event =
    H_tcp tcp_event
  | H_udp "'p udp_event"
  | H_tick nat tick_event
  | H_probe nat client_event
  | H_suspicion nat

fun hybrid_step :: "host \<Rightarrow> 'p HybridRunner \<Rightarrow> 'p hybrid_event \<Rightarrow> 'p HybridRunner result" where
  "hybrid_step ho h (H_tcp e) =
     rbind (tcp_event_step (handleHeader (ho_le ho)) (handleBody (ho_moved ho) (ho_le ho) (ho_ltr ho) (ho_freed ho)) (ho_header ho)
              (ho_reread ho) ((hy_tcp h)\<lparr>sv_state := hy_member h\<rparr>) e) (\<lambda>sv.
       Inr (h\<lparr>hy_member := sv_state sv, hy_tcp := sv\<rparr>))"
| "hybrid_step ho h (H_udp e) =
     rbind (udp_server_step (handlePacket (ho_moved ho) (ho_le ho) (ho_ltr ho)) ((hy_udp h)\<lparr>us_state := hy_member h\<rparr>) e) (\<lambda>sv.
       Inr (h\<lparr>hy_member := us_state sv, hy_udp := sv\<rparr>))"
| "hybrid_step ho h (H_tick i e) =
     (if i < length (hy_tickers h) \<and> e \<noteq> Stop_called then
        let (t, cb) = hy_tickers h ! i
        in rbind (ticker_step t e) (\<lambda>t'.
             let h1 = h\<lparr>hy_tickers := (hy_tickers h)[i := (t', cb)]\<rparr>
             in if length (tk_calls t') > length (tk_calls t) then tick_callback ho (tk_now t) cb h1 else Inr h1)
      else Inr h)"
| "hybrid_step ho h (H_probe i e) =
     (if i < length (hy_probes h) then
        let p = hy_probes h ! i; c = pr_client p
        in rbind (probe_step (ho_is_ip ho) (ns_IP (pr_node p)) (pr_port p) (conf_Probe_timeout (g_conf (hy_member h))) c e)
             (\<lambda>c'.
               let h1 = h\<lparr>hy_probes := (hy_probes h)[i := p\<lparr>pr_client := c'\<rparr>]\<rparr>
               in if length (uc_log c') > length (uc_log c)
                  then rbind (probe_callback ho p (hd (uc_log c')) (hy_member h)) (\<lambda>g. Inr (h1\<lparr>hy_member := g\<rparr>))
                  else Inr h1)
      else Inr h)"
| "hybrid_step ho h (H_suspicion i) =
     (if i \<in> set (g_waits (hy_member h))
      then rbind (timer_handler (hy_member h) i) (\<lambda>g. Inr (h\<lparr>hy_member := g\<rparr>))
      else Inr h)"

section \<open>Sending keeps the member's invariant\<close>

lemma queue_change_ev_inv:
  assumes "ev_inv g" "bq_idle q" "bq_multi q = bq_multi (g_bc_queue g)"
  shows "ev_inv (g\<lparr>g_bc_queue := q, g_MAX_APPENDED_MSG := m\<rparr>)"
proof (rule ev_inv_frame[OF assms(1)])
  show "g_inv (g\<lparr>g_bc_queue := q, g_MAX_APPENDED_MSG := m\<rparr>)"
    by (rule g_inv_frame[OF ev_inv_g_inv[OF assms(1)]])
      (use assms ev_inv_g_inv[OF assms(1)] in \<open>simp_all add: g_inv_def\<close>)
qed simp_all

lemma ev_inv_idle: "ev_inv g \<Longrightarrow> bq_idle (g_bc_queue g)"
  by (simp add: ev_inv_def m_inv_def g_inv_def)

lemma appendGossipMsg_frame:
  assumes "ev_inv g" "appendGossipMsg ltr g buff off n = Inr (k, g', buff')"
  shows "ev_inv g' \<and> g_node_map g' = g_node_map g"
proof -
  let ?q = "g_bc_queue g" and ?n = "g_MAX_APPENDED_MSG g"
  have idle: "bq_idle ?q" using ev_inv_idle[OF assms(1)] .
  obtain msgs q1 q2 where q: "peek_msgs ?n ?q = Inr (msgs, q1)" "ApplyPeek q1 = Inr q2" "bq_idle q2"
    using peek_apply_round[OF idle, of ?n] by blast
  have reset: "ResetPeek q1 = ?q" using peek_reset_round[OF idle, of ?n] q(1) by auto
  have multi: "bq_multi q2 = bq_multi ?q" using peek_apply_multi[OF idle q(1,2)] .
  have none: "q1 = ?q" if "msgs = []" using peek_msgs_none[OF idle] q(1) that by simp
  consider "g' = g\<lparr>g_bc_queue := ?q\<rparr>" | "g' = shrinkMaxAppendedMsg (g\<lparr>g_bc_queue := ?q\<rparr>)" | "g' = g\<lparr>g_bc_queue := q2\<rparr>"
    using assms(2) q reset none by (auto simp: appendGossipMsg_def rbind_Inr_iff split: if_splits)
  then show ?thesis
  proof cases
    case 1
    then show ?thesis using assms(1) by simp
  next
    case 2
    have "ev_inv (g\<lparr>g_bc_queue := ?q, g_MAX_APPENDED_MSG := m\<rparr>)" for m
      by (rule queue_change_ev_inv[OF assms(1) idle refl])
    with 2 assms(1) show ?thesis by (simp add: shrinkMaxAppendedMsg_def)
  next
    case 3
    have "ev_inv (g\<lparr>g_bc_queue := q2, g_MAX_APPENDED_MSG := ?n\<rparr>)"
      by (rule queue_change_ev_inv[OF assms(1) q(3) multi])
    moreover have "g\<lparr>g_bc_queue := q2, g_MAX_APPENDED_MSG := ?n\<rparr> = g\<lparr>g_bc_queue := q2\<rparr>" by simp
    ultimately show ?thesis using 3 by simp
  qed
qed

lemma generatePing_frame:
  assumes "ev_inv g" "generatePing le ltr g seq buff n = Inr (k, g', buff')"
  shows "ev_inv g' \<and> g_node_map g' = g_node_map g"
proof -
  have "g' = g \<or> (\<exists>b off m k' b'. appendGossipMsg ltr g b off m = Inr (k', g', b'))"
    using assms(2) by (fastforce simp: generatePing_def rbind_Inr_iff Let_def split: if_splits)
  then show ?thesis using assms(1) appendGossipMsg_frame by metis
qed

lemma probeNode_frame:
  assumes "ev_inv g" "probeNode le ltr junk g node = Inr (r, g')"
  shows "ev_inv g' \<and> g_node_map g' = g_node_map g"
proof -
  obtain seq g1 where n: "nextSeqNum g = (seq, g1)" by (cases "nextSeqNum g")
  then have "ev_inv g1 \<and> g_node_map g1 = g_node_map g"
    using assms(1) by (auto simp: nextSeqNum_def ev_inv_def m_inv_def g_inv_def)
  moreover obtain k b where "generatePing le ltr g1 seq junk 1460 = Inr (k, g', b)"
    using assms(2) n by (auto simp: probeNode_def rbind_Inr_iff split: if_splits)
  ultimately show ?thesis using generatePing_frame by metis
qed

section \<open>The invariant of a node\<close>

definition hybrid_inv :: "nat \<Rightarrow> gossiper \<Rightarrow> 'p HybridRunner \<Rightarrow> bool" where
  "hybrid_inv start g0 h \<longleftrightarrow> since g0 (hy_member h) \<and>
     tcp_server_inv (since g0) ((hy_tcp h)\<lparr>sv_state := hy_member h\<rparr>) \<and>
     udp_server_inv (since g0) ((hy_udp h)\<lparr>us_state := hy_member h\<rparr>) \<and>
     (\<forall>(t, cb) \<in> set (hy_tickers h). ticker_inv start t) \<and>
     (\<forall>p \<in> set (hy_probes h). ns_State (pr_node p) = STATE_ALIVE \<and> probe_inv (pr_client p))"

text \<open>Every ticker that \<^verbatim>\<open>~HybridRunner\<close> deletes leaves one handler behind.\<close>

lemma destroyed_tickers_pending:
  assumes "hybrid_inv start g0 h"
  shows "length (HybridRunner_destroy h) = length (hy_tickers h)"
proof -
  have "\<forall>(t, cb) \<in> set (hy_tickers h). length (AsioTicker_destroy t) = 1"
    using assms destroyed_ticker_pending by (auto simp: hybrid_inv_def)
  then have "length (concat (map (\<lambda>(t, cb). AsioTicker_destroy t) ts)) = length ts" if "set ts \<subseteq> set (hy_tickers h)" for ts
    using that by (induction ts) auto
  then show ?thesis by (simp add: HybridRunner_destroy_def)
qed

lemma hybrid_inv_member: "hybrid_inv start g0 h \<Longrightarrow> since g0 g \<Longrightarrow> hybrid_inv start g0 (h\<lparr>hy_member := g\<rparr>)"
  by (simp add: hybrid_inv_def tcp_server_inv_def udp_server_inv_def)

lemma probe_frame:
  assumes "ev_inv g" "probe g = Inr (r, g')"
  shows "ev_inv g' \<and> g_node_map g' = g_node_map g \<and> (\<forall>node. r = Some node \<longrightarrow> ns_State node = STATE_ALIVE)"
proof -
  have "m_inv g" using assms(1) by (simp add: ev_inv_def)
  then obtain c where "g' = g\<lparr>g_cursor := c\<rparr>" using probe_result assms(2) by fastforce
  moreover obtain candi g1 where "roundrobinNode g 1 = (candi, g1)" by (cases "roundrobinNode g 1")
  then have "\<forall>node. r = Some node \<longrightarrow> ns_State node = STATE_ALIVE"
    using assms(2) by (auto simp: probe_def rbind_Inr_iff split: list.splits if_splits)
  ultimately show ?thesis using assms(1) by simp
qed

lemma do_probe_inv:
  assumes "hybrid_inv start g0 h" "do_probe ho now h = Inr h'"
  shows "hybrid_inv start g0 h'"
proof -
  have ev: "since g0 (hy_member h)" using assms(1) by (simp add: hybrid_inv_def)
  obtain r g where r: "probe (hy_member h) = Inr (r, g)" using assms(2) by (auto simp: do_probe_def rbind_Inr_iff)
  have "ev_inv (hy_member h)" using ev by (simp add: since_def)
  note probe_frame[OF this r]
  then have g: "ev_inv g" "since g0 g" "\<forall>node. r = Some node \<longrightarrow> ns_State node = STATE_ALIVE"
    using since_frame[OF ev] by auto
  show ?thesis
  proof (cases r)
    case None
    with assms r g show ?thesis by (auto simp: do_probe_def intro: hybrid_inv_member)
  next
    case (Some node)
    then obtain ip port seq datagram g' c where p: "probeNode (ho_le ho) (ho_ltr ho) (ho_junk ho) g node = Inr ((ip, port, seq, datagram), g')"
      "probe_client (ho_is_ip ho) now (sent_from_stack ho datagram) ip port (conf_Probe_timeout (g_conf g')) = Inr c"
      "h' = h\<lparr>hy_member := g', hy_probes := hy_probes h @ [\<lparr>pr_node = node, pr_port = port, pr_seq = seq, pr_client = c\<rparr>]\<rparr>"
      using assms(2) r by (auto simp: do_probe_def rbind_Inr_iff)
    have "since g0 g'" using probeNode_frame[OF g(1) p(1)] since_frame[OF g(2)] by auto
    then show ?thesis
      using hybrid_inv_member[OF assms(1), of g'] p(3) g Some probe_client_inv[OF p(2)] by (auto simp: hybrid_inv_def)
  qed
qed

lemma pong_received_since:
  assumes "since g0 g" "pong_received le g seq resp sz = Inr g'"
  shows "since g0 g'"
proof -
  have "g' = g \<or> (\<exists>d. g' = fuckyou g d)"
    using assms(2) by (auto simp: pong_received_def rbind_Inr_iff Let_def split: if_splits)
  then show ?thesis using assms(1) since_step[OF assms(1), of "In_dead_alert d" for d] by force
qed

lemma probe_callback_since:
  assumes "since g0 g" "ns_State (pr_node p) = STATE_ALIVE" "probe_callback ho p l g = Inr g'"
  shows "since g0 g'"
  using assms pong_received_since since_step[OF assms(1), of "In_ping_timeout (pr_node p)"]
  by (auto simp: probe_callback_def split: called.splits)

lemma hybrid_inv_tickers:
  assumes "hybrid_inv start g0 h" "i < length (hy_tickers h)" "ticker_inv start t"
  shows "hybrid_inv start g0 (h\<lparr>hy_tickers := (hy_tickers h)[i := (t, cb)]\<rparr>)"
  using assms set_update_subset_insert[of "hy_tickers h" i "(t, cb)"] by (auto simp: hybrid_inv_def)

lemma hybrid_inv_probes:
  assumes "hybrid_inv start g0 h" "i < length (hy_probes h)" "probe_inv c"
  shows "hybrid_inv start g0 (h\<lparr>hy_probes := (hy_probes h)[i := (hy_probes h ! i)\<lparr>pr_client := c\<rparr>]\<rparr>)"
  using assms set_update_subset_insert[of "hy_probes h" i] by (fastforce simp: hybrid_inv_def)

lemma hybrid_step_inv:
  assumes "hybrid_inv start g0 h" "hybrid_step ho h e = Inr h'"
  shows "hybrid_inv start g0 h'"
proof (cases e)
  case (H_tcp ev)
  then obtain sv where sv: "tcp_event_step (handleHeader (ho_le ho)) (handleBody (ho_moved ho) (ho_le ho) (ho_ltr ho) (ho_freed ho)) (ho_header ho)
      (ho_reread ho) ((hy_tcp h)\<lparr>sv_state := hy_member h\<rparr>) ev = Inr sv" "h' = h\<lparr>hy_member := sv_state sv, hy_tcp := sv\<rparr>"
    using assms(2) by (auto simp: rbind_Inr_iff)
  have "tcp_server_inv (since g0) sv" using tcp_member.server_event_inv[OF _ sv(1)] assms(1) by (simp add: hybrid_inv_def)
  then show ?thesis using assms(1) sv(2) by (simp add: hybrid_inv_def tcp_server_inv_def udp_server_inv_def)
next
  case (H_udp ev)
  then obtain sv where sv: "udp_server_step (handlePacket (ho_moved ho) (ho_le ho) (ho_ltr ho)) ((hy_udp h)\<lparr>us_state := hy_member h\<rparr>) ev = Inr sv"
    "h' = h\<lparr>hy_member := us_state sv, hy_udp := sv\<rparr>"
    using assms(2) by (auto simp: rbind_Inr_iff)
  have "udp_server_inv (since g0) sv" using udp_member.udp_step_inv[OF _ sv(1)] assms(1) by (simp add: hybrid_inv_def)
  then show ?thesis using assms(1) sv(2) by (simp add: hybrid_inv_def tcp_server_inv_def udp_server_inv_def)
next
  case (H_tick i ev)
  show ?thesis
  proof (cases "i < length (hy_tickers h) \<and> ev \<noteq> Stop_called")
    case True
    obtain t cb where t: "hy_tickers h ! i = (t, cb)" by fastforce
    then obtain t' where t': "ticker_step t ev = Inr t'" using True assms(2) H_tick by (auto simp: rbind_Inr_iff)
    let ?h1 = "h\<lparr>hy_tickers := (hy_tickers h)[i := (t', cb)]\<rparr>"
    have "(t, cb) \<in> set (hy_tickers h)" using t True by (metis nth_mem)
    then have "ticker_inv start t" using assms(1) by (auto simp: hybrid_inv_def)
    then have 1: "hybrid_inv start g0 ?h1" using hybrid_inv_tickers[OF assms(1)] ticker_step_inv t' True by blast
    have "h' = ?h1 \<or> do_probe ho (tk_now t) ?h1 = Inr h'"
      using True t t' assms(2) H_tick by (auto simp: tick_callback_def Let_def split: if_splits ticker_callback.splits)
    then show ?thesis using 1 do_probe_inv by blast
  qed (use H_tick assms in auto)
next
  case (H_probe i ev)
  show ?thesis
  proof (cases "i < length (hy_probes h)")
    case True
    let ?p = "hy_probes h ! i"
    obtain c where c: "probe_step (ho_is_ip ho) (ns_IP (pr_node ?p)) (pr_port ?p) (conf_Probe_timeout (g_conf (hy_member h)))
        (pr_client ?p) ev = Inr c"
      using True assms(2) H_probe by (auto simp: rbind_Inr_iff Let_def)
    let ?h1 = "h\<lparr>hy_probes := (hy_probes h)[i := ?p\<lparr>pr_client := c\<rparr>]\<rparr>"
    have p: "?p \<in> set (hy_probes h)" using True by simp
    then have 1: "hybrid_inv start g0 ?h1"
      using hybrid_inv_probes[OF assms(1) True] probe_step_inv[OF _ c] assms(1) by (auto simp: hybrid_inv_def)
    consider "h' = ?h1" | l g where "probe_callback ho ?p l (hy_member h) = Inr g" "h' = ?h1\<lparr>hy_member := g\<rparr>"
      using True c assms(2) H_probe by (auto simp: rbind_Inr_iff Let_def split: if_splits)
    then show ?thesis
    proof cases
      case 2
      then have "since g0 g" using probe_callback_since p assms(1) by (auto simp: hybrid_inv_def)
      with 1 2 show ?thesis using hybrid_inv_member by blast
    qed (use 1 in simp)
  qed (use H_probe assms in auto)
next
  case (H_suspicion i)
  show ?thesis
  proof (cases "i \<in> set (g_waits (hy_member h))")
    case True
    then obtain g where g: "timer_handler (hy_member h) i = Inr g" "h' = h\<lparr>hy_member := g\<rparr>"
      using assms(2) H_suspicion by (auto simp: rbind_Inr_iff)
    have "since g0 g" using since_step[of g0 "hy_member h" "In_timer i"] g(1) assms(1) by (simp add: hybrid_inv_def)
    then show ?thesis using hybrid_inv_member assms(1) g(2) by blast
  qed (use H_suspicion assms in auto)
qed

interpretation node: fallible_machine "hybrid_step ho" "hybrid_inv start g0" "\<lambda>_. True" for ho start g0
  by standard (rule hybrid_step_inv)

lemma alive_inv:
  assumes "ev_inv g" "length (ho_junk ho) = mtu"
  shows "hybrid_inv now g (alive now (HybridRunner_new ho no_one g))"
proof -
  have "ticker_inv now (Tick n True (AsioTicker_new now))" for n
    using ticker_inv_Tick[of "AsioTicker_new now" n] by (simp add: AsioTicker_new_def timer_new_def)
  then show ?thesis using assms since_refl[OF assms(1)]
    by (simp add: hybrid_inv_def alive_def Run_servers_def AddTicker_def HybridRunner_new_def tcp_server_inv_def
        tcp_Start_def doAccept_def tcp_Server_new_def udp_server_inv_def udp_Start_def doReceive_def udp_Server_new_def)
qed

lemma hybrid_inv_since: "hybrid_inv start g0 h \<Longrightarrow> hybrid_inv start (hy_member h) h"
  by (simp add: hybrid_inv_def tcp_server_inv_def udp_server_inv_def since_def g_le_refl)

lemma Join_ev_inv:
  assumes "order_ok ord" "Split peer '':'' = Some [host, port]"
    "Join moved le ltr net (RegisterNotifier (gossiper_new conf ord indet reread) True True) peer = Some (Inr g)"
  shows "ev_inv g"
proof -
  obtain g1 where g1: "start_member conf ord indet reread = Inr g1"
    "g = g1 \<or> syncState moved le ltr (net host port) g1 = Inr g"
    using assms(2,3)
    by (auto simp: Join_def start_member_def rbind_Inr_iff split: if_splits sum.splits)
  have ev: "ev_inv g1" using start_member_D[OF assms(1) g1(1)] .
  from g1(2) show ?thesis
  proof
    assume "syncState moved le ltr (net host port) g1 = Inr g"
    then obtain m where "mergeStates moved g1 m False = Inr g"
      by (auto simp: syncState_def sync_response_def rbind_Inr_iff Let_def split: if_splits)
    then show ?thesis using mergeStates_since[OF since_refl[OF ev]] by (simp add: since_def)
  qed (use ev in simp)
qed

lemma node_run:
  assumes "order_ok ord" "Split peer '':'' = Some [host, port]"
    "Join moved le ltr net (RegisterNotifier (gossiper_new conf ord indet reread) True True) peer = Some (Inr g)"
    "length (ho_junk ho) = mtu" "rfold (hybrid_step ho) (alive now (HybridRunner_new ho no_one g)) es = Inr h"
  shows "hybrid_inv now g h"
  using node.run_inv[OF alive_inv[OF Join_ev_inv[OF assms(1-3)] assms(4)] _ assms(5)] by (simp add: list_all_iff)

end
