(* ===== verification/Held.thy ===== *)
theory Held
  imports Hybrid
begin

text \<open>
  The node states a member holds, in its table, in its broadcast queue and in its suspicions: each of them was received, or
  is the member's own. What holds of every received node state and of every own one thus holds of every node state of a
  member, for properties that the handlers respect.
\<close>

section \<open>Where node states are\<close>

definition queued :: "gossiper \<Rightarrow> node_state set" where
  "queued g = (\<lambda>e. fst (snd e)) ` set (entries (bq_m (g_bc_queue g)))"

definition accused :: "gossiper \<Rightarrow> node_state set" where
  "accused g = (\<lambda>e. sus_convict (snd e)) ` set (entries (g_suspicions g))"

definition held :: "(node_state \<Rightarrow> bool) \<Rightarrow> gossiper \<Rightarrow> bool" where
  "held P g \<longleftrightarrow> (\<forall>st \<in> set (node_table g) \<union> queued g \<union> accused g. P st)"

lemma held_mono: "held P g \<Longrightarrow> (\<And>st. P st \<Longrightarrow> Q st) \<Longrightarrow> held Q g"
  by (auto simp: held_def)

text \<open>A step adds at most one node state in each place.\<close>

lemma heldI:
  assumes "held P g" "set (node_table g') \<subseteq> insert x (set (node_table g))" "queued g' \<subseteq> insert y (queued g)"
    "accused g' \<subseteq> insert z (accused g)" "P x" "P y" "P z"
  shows "held P g'"
  unfolding held_def
proof
  fix st assume "st \<in> set (node_table g') \<union> queued g' \<union> accused g'"
  then have "st \<in> {x, y, z} \<union> (set (node_table g) \<union> queued g \<union> accused g)" using assms(2-4) by blast
  then show "P st" using assms(1,5-7) unfolding held_def by blast
qed

lemma entries_set: "um_wf m \<Longrightarrow> set (entries (um_set m k v)) \<subseteq> insert (k, v) (set (entries m))"
  using um.find_put[of m k v] um.wf_put[of m k v] by (auto simp: um_find_entry[symmetric] split: if_splits)

lemma entries_erase: "um_wf m \<Longrightarrow> set (entries (um_erase m k)) \<subseteq> set (entries m)"
  using um.find_erase[of m k] um.wf_erase[of m k] by (auto simp: um_find_entry[symmetric] split: if_splits)

lemma Push_queued: "um_wf (bq_m q) \<Longrightarrow> set (entries (bq_m (Push q m n))) \<subseteq>
    set (entries (bq_m q)) \<union> {(ns_Name m, m, bcast_times (bq_multi q) n)}"
  using entries_set[of "bq_m q" "ns_Name m" "(m, bcast_times (bq_multi q) n)"]
  by (auto simp: Push_bq split: option.splits)

lemma queued_Push: "um_wf (bq_m (g_bc_queue g)) \<Longrightarrow> g_bc_queue g' = Push (g_bc_queue g) m n \<Longrightarrow> queued g' \<subseteq> insert m (queued g)"
  using Push_queued[of "g_bc_queue g" m n] by (force simp: queued_def)

lemma queued_push: "g_inv g \<Longrightarrow> queued (push_bc g m) \<subseteq> insert m (queued g)"
  by (rule queued_Push[of _ _ _ "g_node_num g"]) (simp_all add: push_bc_def g_inv_def bq_idle_def bq_inv_def)

lemma table_set: "um_wf (g_node_map g) \<Longrightarrow> g_node_map g' = um_set (g_node_map g) n st \<Longrightarrow>
    set (node_table g') \<subseteq> insert st (set (node_table g))"
  using entries_set[of "g_node_map g" n st] by (auto simp: node_table_def)

lemma node_table_find: "um_wf (g_node_map g) \<Longrightarrow> st \<in> set (node_table g) \<longleftrightarrow> (\<exists>n. g_find g n = Some st)"
  using um_find_entry[of "g_node_map g" _ st] by (force simp: node_table_def)

lemma accused_erase: "um_wf (g_suspicions g) \<Longrightarrow> g_suspicions g' = um_erase (g_suspicions g) n \<Longrightarrow> accused g' \<subseteq> accused g"
  using entries_erase[of "g_suspicions g" n] by (auto simp: accused_def)

lemma accused_set: "um_wf (g_suspicions g) \<Longrightarrow> g_suspicions g' = um_set (g_suspicions g) n sus \<Longrightarrow>
    accused g' \<subseteq> insert (sus_convict sus) (accused g)"
  using entries_set[of "g_suspicions g" n sus] by (auto simp: accused_def)

lemma accused_find: "um_wf (g_suspicions g) \<Longrightarrow> um_find (g_suspicions g) n = Some sus \<Longrightarrow> sus_convict sus \<in> accused g"
  by (force simp: um_find_entry accused_def)

lemma queued_alive_result:
  assumes "g_inv g"
  shows "queued (alive_result g a bc) \<subseteq> insert a (queued g)"
proof -
  have "g_bc_queue (alive_result g a bc) = g_bc_queue g \<or> (\<exists>k. g_bc_queue (alive_result g a bc) = Push (g_bc_queue g) a k)"
    by (simp add: alive_result_def Let_def addNodeState_def push_bc_def) (metis)
  moreover have "um_wf (bq_m (g_bc_queue g))" using assms by (simp add: g_inv_def bq_idle_def bq_inv_def)
  ultimately show ?thesis
  proof (elim disjE exE)
    assume "g_bc_queue (alive_result g a bc) = g_bc_queue g"
    then show ?thesis by (auto simp: queued_def)
  qed (rule queued_Push)
qed

text \<open>What a member holds depends on three fields only.\<close>

lemma held_frame:
  assumes "held P g" "g_node_map g' = g_node_map g" "g_bc_queue g' = g_bc_queue g" "g_suspicions g' = g_suspicions g"
  shows "held P g'"
  using assms by (simp add: held_def node_table_def queued_def accused_def)

lemma held_base:
  assumes "g_inv g" "held P g"
  shows "held P (dead_base g n)"
proof -
  have "node_table (dead_base g n) = node_table g" "queued (dead_base g n) = queued g"
    by (simp_all add: node_table_def queued_def dead_base_def)
  moreover have "accused (dead_base g n) \<subseteq> accused g"
    using assms(1) by (intro accused_erase) (simp_all add: g_inv_def dead_base_def)
  ultimately show ?thesis using assms(2) unfolding held_def by auto
qed

section \<open>What a member keeps\<close>

lemma setup_frame [member_frame]:
  "g_reread (alive_result g a bc) = g_reread g" "g_reread (dead_base g n) = g_reread g" "g_reread (dead_result g d) = g_reread g"
  "g_reread (suspect_result g s sus) = g_reread g" "g_MAX_APPENDED_MSG (fuckyou g v) = g_MAX_APPENDED_MSG g"
  "g_MAX_APPENDED_MSG (push_bc g a) = g_MAX_APPENDED_MSG g" "g_MAX_APPENDED_MSG (alive_result g a bc) = g_MAX_APPENDED_MSG g"
  "g_MAX_APPENDED_MSG (dead_base g n) = g_MAX_APPENDED_MSG g" "g_MAX_APPENDED_MSG (dead_result g d) = g_MAX_APPENDED_MSG g"
  "g_MAX_APPENDED_MSG (suspect_result g s sus) = g_MAX_APPENDED_MSG g"
  by (simp_all add: alive_result_def Let_def addNodeState_def dead_base_def dead_result_def suspect_result_def push_bc_def
      fuckyou_eq removeNodeState_def split: option.splits)

text \<open>The configuration, the compiler's way to read a freed state, and the limit on appended messages.\<close>

definition same_setup :: "gossiper \<Rightarrow> gossiper \<Rightarrow> bool" where
  "same_setup g g' \<longleftrightarrow> g_conf g' = g_conf g \<and> g_reread g' = g_reread g \<and> g_MAX_APPENDED_MSG g' = g_MAX_APPENDED_MSG g"

lemma dead_step_setup: "same_setup g (dead_step g d)"
  by (auto simp: same_setup_def dead_step_def member_frame split: option.splits)

lemma confirm_setup: "same_setup g (confirm_result g s sus)"
  using dead_step_setup[unfolded same_setup_def] by (simp add: same_setup_def confirm_result_def Let_def member_frame split: prod.splits)

lemma suspectNode_setup: "suspectNode g s = Inr g' \<Longrightarrow> same_setup g g'"
  using confirm_setup[unfolded same_setup_def]
  by (auto simp: same_setup_def suspectNode_cases rbind_Inr_iff member_frame split: option.splits if_splits)

lemma aliveNode_setup: "aliveNode g a bc = Inr g' \<Longrightarrow> same_setup g g'"
  by (auto simp: same_setup_def aliveNode_def updateNodeState_def addNodeState_def rbind_Inr_iff Let_def member_frame
      split: if_splits option.splits)

lemma merge_state_setup: "merge_state g bc st = Inr g' \<Longrightarrow> same_setup g g'"
  using aliveNode_setup suspectNode_setup dead_step_setup
  by (auto simp: merge_state_def deadNode_cases same_setup_def split: STATE.splits)

lemma probe_setup: "probe g = Inr (candidate, g') \<Longrightarrow> same_setup g g'"
  by (auto simp: probe_def rbind_Inr_iff roundrobinNode_def same_setup_def Let_def split: if_splits list.splits)

lemma member_step_setup: "member_step g e = Inr g' \<Longrightarrow> same_setup g g'"
  using merge_state_setup suspectNode_setup probe_setup dead_step_setup
  by (cases e) (auto simp: timer_handler_cases same_setup_def rbind_Inr_iff member_frame split: option.splits)

text \<open>A started member has accepted its own ALIVE message, as the first one.\<close>

lemma start_member_first:
  assumes "order_ok ord" "start_member conf ord indet reread = Inr g"
  obtains g1 where "g_inv g1" "g_node_map g1 = um_empty ord" "g_suspicions g1 = um_empty ord" "bq_m (g_bc_queue g1) = um_empty ord"
    "g_dominant g1 = 1" "g = alive_result g1 (self_state g1 1) False"
    "g_conf g1 = conf" "g_reread g1 = reread" "g_MAX_APPENDED_MSG g1 = 10"
proof -
  define g1 where "g1 = snd (nextDominant (RegisterNotifier (gossiper_new conf ord indet reread) True True) 1)"
  have g1: "um_wf (g_node_map g1)" "g_inv g1" "g_node_map g1 = um_empty ord" "g_suspicions g1 = um_empty ord"
    "bq_m (g_bc_queue g1) = um_empty ord" "g_dominant g1 = 1" "\<not> g_is_leaving g1"
    "g_conf g1 = conf" "g_reread g1 = reread" "g_MAX_APPENDED_MSG g1 = 10"
    using assms(1) by (auto simp: g1_def nextDominant_def RegisterNotifier_def gossiper_new_def um_wf_empty
        g_inv_def bq_inv_init alive_names_def) (simp_all add: BroadcastQueue_init_def)
  have acc: "alive_accepts g1 (self_state g1 1)"
    using g1(3,7) by (simp add: alive_accepts_def known_dominant_def self_state_def)
  have "g = alive_result g1 (self_state g1 1) False"
    using acc assms(2) aliveNode_cases[OF g1(1), of "self_state g1 1" False]
    by (simp add: start_member_def join_self_def g1_def nextDominant_def RegisterNotifier_def gossiper_new_def)
  then show thesis using that g1(2-6,8-10) by blast
qed

lemma start_member_setup:
  assumes "order_ok ord" "start_member conf ord indet reread = Inr g"
  shows "g_conf g = conf \<and> g_reread g = reread \<and> g_MAX_APPENDED_MSG g = 10"
  by (rule start_member_first[OF assms]) (simp add: member_frame)

section \<open>Properties of every node state a member holds\<close>

text \<open>
  A property of node states that the handlers respect: they reset the time stamp, and declare dead. A member then holds only
  node states with the property, if it hears only such and its own node state, at its present dominant, is one.
\<close>

fun input_told :: "(node_state \<Rightarrow> bool) \<Rightarrow> input \<Rightarrow> bool" where
  "input_told P (In_state _ st) \<longleftrightarrow> P st"
| "input_told P (In_ping_timeout st) \<longleftrightarrow> P st"
| "input_told P _ \<longleftrightarrow> True"

locale told =
  fixes P :: "node_state \<Rightarrow> bool"
  assumes stamped: "P st \<Longrightarrow> P (st\<lparr>ns_Timestamp := t\<rparr>)"
    and deadened: "P st \<Longrightarrow> P (st\<lparr>ns_State := STATE_DEAD\<rparr>)"
begin

abbreviation says :: "gossiper \<Rightarrow> gossiper \<Rightarrow> bool" where
  "says g g' \<equiv> P (self_state g (g_dominant g'))"

lemma held_push:
  assumes "g_inv g" "held P g" "P m"
  shows "held P (push_bc g m)"
proof -
  have "node_table (push_bc g m) = node_table g" "accused (push_bc g m) = accused g"
    by (simp_all add: node_table_def accused_def)
  then show ?thesis using queued_push[OF assms(1), of m] assms(3) by (intro heldI[OF assms(2), where x = m and y = m and z = m]) auto
qed

lemma held_object:
  assumes "g_inv g" "held P g" "P (self_state g (objection g d))"
  shows "held P (fuckyou g d)"
proof -
  let ?g = "g\<lparr>g_dominant := objection g d\<rparr>"
  have "g_inv ?g" using assms(1) by (rule g_inv_frame) (use assms(1) in \<open>simp_all add: g_inv_def\<close>)
  moreover have "held P ?g" by (rule held_frame[OF assms(2)]) simp_all
  ultimately show ?thesis unfolding fuckyou_eq using assms(3) by (rule held_push)
qed

lemma held_dead_result:
  assumes "g_inv g" "held P g" "P d"
  shows "held P (dead_result g d)"
proof -
  let ?b = "dead_base g (ns_Name d)"
  let ?u = "?b\<lparr>g_node_map := um_set (g_node_map g) (ns_Name d) (d\<lparr>ns_Timestamp := 0\<rparr>)\<rparr>"
  let ?r = "removeNodeState ?u (ns_Name d)"
  have wf: "um_wf (g_node_map g)" "um_wf (bq_m (g_bc_queue g))" using assms(1) by (simp_all add: g_inv_def bq_idle_def bq_inv_def)
  have t: "set (node_table ?r) \<subseteq> insert (d\<lparr>ns_Timestamp := 0\<rparr>) (set (node_table g))"
    by (rule table_set[OF wf(1)]) simp
  have q: "queued (push_bc ?r d) \<subseteq> insert d (queued g)"
    using Push_queued[OF wf(2), of d] by (force simp: queued_def push_bc_def dead_base_def)
  have n: "node_table (push_bc ?r d) = node_table ?r" by (simp add: node_table_def)
  have "accused (push_bc ?r d) \<subseteq> accused g"
    using assms(1) by (intro accused_erase) (simp_all add: g_inv_def dead_base_def)
  then have v: "held P (push_bc ?r d)"
    using t q n assms(3) stamped by (intro heldI[OF assms(2), where x = "d\<lparr>ns_Timestamp := 0\<rparr>" and y = d and z = d]) auto
  then have "held P (g'\<lparr>g_events := es\<rparr>)" if "g' = push_bc ?r d" for g' es
    by (rule held_frame) (simp_all add: that)
  then show ?thesis using v by (simp add: dead_result_def Let_def)
qed

lemma held_dead_step:
  assumes "g_inv g" "held P g" "P d" "says g (dead_step g d)"
  shows "held P (dead_step g d)"
proof -
  have b: "g_inv (dead_base g (ns_Name d))" "held P (dead_base g (ns_Name d))"
    using assms(1,2) dead_base_inv held_base by blast+
  have s: "self_state (dead_base g n) v = self_state g v" for n v by (simp add: self_state_def member_frame dead_base_def)
  have "says g (dead_step g d) \<longrightarrow> held P (dead_step g d)"
    by (rule dead_step_induct[where P = "\<lambda>g'. says g g' \<longrightarrow> held P g'"])
      (use assms(1-3) b held_object[OF b] held_dead_result s in auto)
  then show ?thesis using assms(4) by blast
qed

lemma held_alive_result:
  assumes "g_inv g" "held P g" "P a"
  shows "held P (alive_result g a bc)"
proof -
  have wf: "um_wf (g_node_map g)" "um_wf (g_suspicions g)" using assms(1) by (simp_all add: g_inv_def)
  have find: "g_find (alive_result g a bc) = (g_find g)(ns_Name a \<mapsto> a\<lparr>ns_Timestamp := 0\<rparr>)"
    using alive_result_fields(1)[OF wf(1)] .
  have wf': "um_wf (g_node_map (alive_result g a bc))" using alive_result_fields(4)[OF wf(1)] .
  have "set (node_table (alive_result g a bc)) \<subseteq> insert (a\<lparr>ns_Timestamp := 0\<rparr>) (set (node_table g))"
  proof
    fix st assume "st \<in> set (node_table (alive_result g a bc))"
    then obtain n where "g_find (alive_result g a bc) n = Some st" using node_table_find[OF wf', of st] by blast
    then have "a\<lparr>ns_Timestamp := 0\<rparr> = st \<or> g_find g n = Some st" unfolding find by (simp split: if_splits)
    then show "st \<in> insert (a\<lparr>ns_Timestamp := 0\<rparr>) (set (node_table g))" using node_table_find[OF wf(1), of st] by blast
  qed
  moreover have "queued (alive_result g a bc) \<subseteq> insert a (queued g)" using assms(1) by (rule queued_alive_result)
  moreover have "accused (alive_result g a bc) \<subseteq> accused g"
    by (rule accused_erase[OF wf(2) alive_result_fields(3)[OF wf(1)]])
  ultimately show ?thesis using assms(3) stamped
    by (intro heldI[OF assms(2), where x = "a\<lparr>ns_Timestamp := 0\<rparr>" and y = a and z = a]) (simp_all add: subset_insertI2)
qed

lemma held_confirm:
  assumes "g_inv g" "held P g" "P s" "g_reread g = id" "um_find (g_suspicions g) (ns_Name s) = Some sus"
    "says g (confirm_result g s sus)"
  shows "held P (confirm_result g s sus)"
proof -
  have wf: "um_wf (g_suspicions g)" using assms(1) by (simp add: g_inv_def)
  obtain convicted sus' where c: "Confirm sus (ns_From s) = (convicted, sus')" by (cases "Confirm sus (ns_From s)")
  let ?g = "g\<lparr>g_suspicions := um_set (g_suspicions g) (ns_Name s) sus'\<rparr>"
  have same: "sus_convict sus' = sus_convict sus" using Confirm_frame(2)[of sus "ns_From s"] c by simp
  have p: "P (sus_convict sus)" using accused_find[OF wf assms(5)] assms(2) by (simp add: held_def)
  have "accused ?g \<subseteq> insert (sus_convict sus) (accused g)" using accused_set[OF wf, of ?g "ns_Name s" sus'] same by simp
  then have v: "held P ?g"
    using p by (intro heldI[OF assms(2), where x = "sus_convict sus" and y = "sus_convict sus" and z = "sus_convict sus"])
      (auto simp: node_table_def queued_def)
  have inv: "g_inv ?g" using assms(1) by (rule g_inv_frame) (use assms(1) in \<open>simp_all add: g_inv_def um.wf_put\<close>)
  show ?thesis
  proof (cases convicted)
    case True
    then have r: "confirm_result g s sus = dead_step ?g ((sus_convict sus)\<lparr>ns_State := STATE_DEAD\<rparr>)"
      using c assms(4) same by (simp add: confirm_result_def)
    have "says ?g (confirm_result g s sus)" using assms(6) by (simp add: self_state_def)
    then show ?thesis using held_dead_step[OF inv v deadened[OF p]] unfolding r by blast
  next
    case False
    then have "confirm_result g s sus = push_bc ?g s" using c by (simp add: confirm_result_def)
    then show ?thesis using held_push[OF inv v assms(3)] by simp
  qed
qed

lemma held_suspect_result:
  assumes "g_inv g" "held P g" "P s" "sus_convict sus = s" "says g (suspect_result g s sus)"
  shows "held P (suspect_result g s sus)"
proof -
  let ?g = "if g_name g = ns_Name s then fuckyou g (ns_Dominant s) else push_bc g s" and ?r = "suspect_result g s sus"
  have o: "g_dominant ?r = g_dominant ?g" by (simp add: suspect_result_def Let_def)
  have v: "held P ?g"
    using held_object[OF assms(1,2)] held_push[OF assms(1,2,3)] assms(5) unfolding o by auto
  have wf: "um_wf (g_node_map ?g)" "um_wf (g_suspicions ?g)" using assms(1) by (simp_all add: g_inv_def)
  have "set (node_table ?r) \<subseteq> insert (s\<lparr>ns_Timestamp := 0\<rparr>) (set (node_table ?g))"
    by (rule table_set[OF wf(1), of _ "ns_Name s"]) (simp add: suspect_result_def Let_def)
  moreover have "queued ?r = queued ?g" by (simp add: suspect_result_def Let_def queued_def)
  moreover have "accused ?r \<subseteq> insert (sus_convict sus) (accused ?g)"
    by (rule accused_set[OF wf(2), of _ "ns_Name s"]) (simp add: suspect_result_def Let_def)
  ultimately show ?thesis
    using assms(3,4) stamped
    by (intro heldI[OF v, where x = "s\<lparr>ns_Timestamp := 0\<rparr>" and y = s and z = s]) auto
qed

lemma held_suspectNode:
  assumes "g_inv g" "held P g" "P s" "g_reread g = id" "suspectNode g s = Inr g'" "says g g'"
  shows "held P g'"
proof -
  consider "g' = g" | sus where "um_find (g_suspicions g) (ns_Name s) = Some sus" "g' = confirm_result g s sus"
    | sus where "suspicion_new (g_next_id g) (g_node_num g) s = Inr sus" "g' = suspect_result g s sus"
  proof (cases "g_find g (ns_Name s)")
    case (Some st)
    show thesis
    proof (cases "um_find (g_suspicions g) (ns_Name s)")
      case None
      show thesis
      proof (cases "ns_Dominant s < ns_Dominant st \<or> ns_State st \<noteq> STATE_ALIVE")
        case True
        then have "g' = g" using assms(5) Some None by (simp add: suspectNode_cases split: if_splits)
        then show thesis by (rule that(1))
      next
        case False
        then have "rbind (suspicion_new (g_next_id g) (g_node_num g) s) (\<lambda>sus. Inr (suspect_result g s sus)) = Inr g'"
          using assms(5) Some None by (simp add: suspectNode_cases)
        then obtain sus where "suspicion_new (g_next_id g) (g_node_num g) s = Inr sus" "g' = suspect_result g s sus"
          unfolding rbind_Inr_iff by blast
        then show thesis by (rule that(3))
      qed
    next
      case sus: (Some sus)
      then have "g' = g \<or> g' = confirm_result g s sus" using assms(5) Some by (simp add: suspectNode_cases split: if_splits)
      then show thesis using that(1) that(2)[OF sus] by blast
    qed
  next
    case None
    then have "g' = g" using assms(5) by (simp add: suspectNode_cases)
    then show thesis by (rule that(1))
  qed
  then show ?thesis
  proof cases
    case 1
    then show ?thesis using assms(2) by simp
  next
    case (2 sus)
    show ?thesis using assms(6) unfolding 2(2) by (rule held_confirm[OF assms(1-4) 2(1)])
  next
    case (3 sus)
    then have "sus_convict sus = s" by (auto simp: suspicion_new_def rbind_Inr_iff)
    then show ?thesis using assms(6) unfolding 3(2) by (rule held_suspect_result[OF assms(1-3)])
  qed
qed

lemma member_step_held:
  assumes "ev_inv g" "held P g" "g_reread g = id" "input_told P e" "member_step g e = Inr g'" "says g g'"
  shows "held P g'"
proof -
  have inv: "g_inv g" using ev_inv_g_inv[OF assms(1)] .
  then have wf: "um_wf (g_node_map g)" "um_wf (g_suspicions g)" by (simp_all add: g_inv_def)
  show ?thesis
  proof (cases e)
    case (In_state bc st)
    then have p: "P st" using assms(4) by simp
    show ?thesis
      using In_state assms(2,5,6) held_alive_result[OF inv assms(2) p] held_dead_step[OF inv assms(2) p]
        held_suspectNode[OF inv assms(2) p assms(3)]
      by (auto simp: merge_state_def aliveNode_cases[OF wf(1)] deadNode_cases split: STATE.splits if_splits)
  next
    case (In_timer i)
    then obtain n sus where s: "find (\<lambda>e. sus_id (snd e) = i) (entries (g_suspicions g)) = Some (n, sus)"
      "g' = dead_step (g\<lparr>g_waits := remove1 i (g_waits g)\<rparr>) ((sus_convict sus)\<lparr>ns_State := STATE_DEAD\<rparr>)"
      using assms(3,5) by (auto simp: timer_handler_cases split: option.splits)
    then have "(n, sus) \<in> set (entries (g_suspicions g))" by (metis find_Some_iff nth_mem)
    then have "P (sus_convict sus)" using assms(2) by (force simp: held_def accused_def)
    moreover have "g_inv (g\<lparr>g_waits := x\<rparr>)" for x using inv by (rule g_inv_frame) (use inv in \<open>simp_all add: g_inv_def\<close>)
    moreover have "held P (g\<lparr>g_waits := x\<rparr>)" for x using assms(2) by (rule held_frame) simp_all
    moreover have "says (g\<lparr>g_waits := x\<rparr>) g'" for x using assms(6) by (simp add: self_state_def)
    ultimately show ?thesis unfolding s(2) by (intro held_dead_step deadened)
  next
    case (In_ping_timeout st)
    then show ?thesis using held_suspectNode[OF inv assms(2) _ assms(3)] assms(4-6) by simp
  next
    case (In_dead_alert d)
    then show ?thesis using held_object[OF inv assms(2)] assms(5,6) by auto
  next
    case In_tick
    have "m_inv g" using assms(1) by (simp add: ev_inv_def)
    then obtain r c where "probe g = Inr (r, g\<lparr>g_cursor := c\<rparr>)" using probe_result by blast
    then have g': "g' = g\<lparr>g_cursor := c\<rparr>" using In_tick assms(5) by simp
    show ?thesis using assms(2) by (rule held_frame) (simp_all add: g')
  qed
qed

lemma start_member_held:
  assumes "order_ok ord" "start_member conf ord indet reread = Inr g" "says g g"
  shows "held P g"
proof (rule start_member_first[OF assms(1,2)])
  fix g1 assume g1: "g_inv g1" "g_node_map g1 = um_empty ord" "g_suspicions g1 = um_empty ord"
    "bq_m (g_bc_queue g1) = um_empty ord" "g_dominant g1 = 1" "g = alive_result g1 (self_state g1 1) False"
  have "self_state g (g_dominant g) = self_state g1 1"
    using g1(5,6) by (simp add: self_state_def member_frame alive_result_def Let_def addNodeState_def)
  then have "P (self_state g1 1)" using assms(3) by simp
  moreover have "held P g1" using g1(2-4) by (simp add: held_def node_table_def queued_def accused_def um_empty_def)
  ultimately show ?thesis unfolding g1(6) using held_alive_result[OF g1(1)] by blast
qed

end

lemma mergeStates_setup:
  assumes "mergeStates moved g m bc = Inr g'"
  shows "same_setup g g'"
proof -
  have "same_setup g g'" if "rfold (\<lambda>g ns. rbind (convert ns) (\<lambda>st. merge_state g bc (moved st))) g nss = Inr g'" for nss g
    using that
  proof (induction nss arbitrary: g)
    case (Cons ns nss)
    then show ?case using merge_state_setup by (force simp: rbind_Inr_iff same_setup_def)
  qed (simp add: same_setup_def)
  then show ?thesis using assms by (auto simp: mergeStates_def rbind_Inr_iff)
qed

end
