(* ===== verification/Cluster.thy ===== *)
theory Cluster
  imports Held
begin

text \<open>
  A cluster: members of \<^verbatim>\<open>class gossiper\<close> that exchange node states, one handler of one member at a time. The
  network loses, repeats and reorders what is sent. The theory \<open>Network\<close> shows that
  members that exchange packets behave like this.
\<close>

section \<open>Claims\<close>

text \<open>What a node state claims of a member: its name, address and port, and a dominant.\<close>

type_synonym claim = "string \<times> string \<times> string \<times> u64"

definition claim_of :: "node_state \<Rightarrow> claim" where
  "claim_of st = (ns_Name st, ns_IP st, ns_Port st, ns_Dominant st)"

lemma claim_of_fields [simp]:
  "claim_of (st\<lparr>ns_State := s\<rparr>) = claim_of st" "claim_of (st\<lparr>ns_Timestamp := t\<rparr>) = claim_of st"
  by (simp_all add: claim_of_def)

text \<open>What a member says of itself, at its present dominant.\<close>

definition own_claim :: "gossiper \<Rightarrow> claim" where
  "own_claim g = (g_name g, conf_Addr (g_conf g), port_string (conf_Port (g_conf g)), g_dominant g)"

lemma own_claim_self: "claim_of (self_state g d) = own_claim (g\<lparr>g_dominant := d\<rparr>)"
  by (simp add: claim_of_def self_state_def own_claim_def)

text \<open>The node states a member holds: in its table, in its broadcast queue and in its suspicions.\<close>

text \<open>Claims for which a member vouches: it holds node states that make these only.\<close>

interpretation claims: told "\<lambda>st. claim_of st \<in> H" for H
  by standard simp_all

lemma self_claim: "g_conf g' = g_conf g \<Longrightarrow> claim_of (self_state g (g_dominant g')) = own_claim g'"
  by (simp add: own_claim_self own_claim_def)

section \<open>The cluster\<close>

text \<open>
  The members, the node states on their way, which stay there to be lost, repeated and overtaken, and for each
  ping that has not been answered the member and the entry its callback is bound to.
\<close>

record cluster =
  cl_members :: "gossiper list"
  cl_wire :: "node_state list"
  cl_pings :: "(nat \<times> node_state) list"

definition no_members :: cluster where
  "no_members = \<lparr>cl_members = [], cl_wire = [], cl_pings = []\<rparr>"

definition act :: "cluster \<Rightarrow> nat \<Rightarrow> gossiper \<Rightarrow> cluster" where
  "act c i g = c\<lparr>cl_members := (cl_members c)[i := g]\<rparr>"

lemma act_simps [simp]: "cl_wire (act c i g) = cl_wire c" "cl_pings (act c i g) = cl_pings c"
  by (simp_all add: act_def)

text \<open>
  A member is started; it appends messages to a ping, as many as fit; it numbers a ping, and lowers its limit on messages; it shows an entry of its table, in a
  synchronisation or as a dead alert; it merges a node state; it objects to a dead alert; it chooses a node to ping; a ping
  times out; a suspicion's timer expires. A member may show an entry at any time, whereas the code does so only in \<^verbatim>\<open>Join\<close>, to a
  member that joins, and in a pong: the relation has more runs than the program, so what holds of all its runs holds of
  the program's, but that it can do something does not mean that the program can. The dead reference of a
  conviction reads as it was left (\<open>start_member\<close> with \<open>id\<close>).
\<close>

inductive cluster_step :: "cluster \<Rightarrow> cluster \<Rightarrow> bool" where
  Starts: "order_ok ord \<Longrightarrow> start_member conf ord indet id = Inr g \<Longrightarrow>
    cluster_step c (c\<lparr>cl_members := cl_members c @ [g]\<rparr>)"
| Gossips: "i < length (cl_members c) \<Longrightarrow> g = cl_members c ! i \<Longrightarrow> peek_msgs n (g_bc_queue g) = Inr (msgs, q) \<Longrightarrow>
    ApplyPeek q = Inr q' \<Longrightarrow> cluster_step c ((act c i (g\<lparr>g_bc_queue := q'\<rparr>))\<lparr>cl_wire := cl_wire c @ msgs\<rparr>)"
| Counts: "i < length (cl_members c) \<Longrightarrow> g = cl_members c ! i \<Longrightarrow> m \<le> g_MAX_APPENDED_MSG g \<Longrightarrow>
    cluster_step c (act c i (g\<lparr>g_seq_num := s, g_MAX_APPENDED_MSG := m\<rparr>))"
| Shows: "i < length (cl_members c) \<Longrightarrow> st \<in> set (node_table (cl_members c ! i)) \<Longrightarrow>
    cluster_step c (c\<lparr>cl_wire := cl_wire c @ [st]\<rparr>)"
| Hears: "i < length (cl_members c) \<Longrightarrow> m \<in> set (cl_wire c) \<Longrightarrow> merge_state (cl_members c ! i) bc m = Inr g' \<Longrightarrow>
    cluster_step c (act c i g')"
| Objects: "i < length (cl_members c) \<Longrightarrow> m \<in> set (cl_wire c) \<Longrightarrow> ns_Name m = g_name (cl_members c ! i) \<Longrightarrow>
    ns_State m = STATE_DEAD \<Longrightarrow> cluster_step c (act c i (fuckyou (cl_members c ! i) (ns_Dominant m)))"
| Ticks: "i < length (cl_members c) \<Longrightarrow> probe (cl_members c ! i) = Inr (candidate, g') \<Longrightarrow>
    cluster_step c ((act c i g')\<lparr>cl_pings := cl_pings c @ (case candidate of None \<Rightarrow> [] | Some node \<Rightarrow> [(i, node)])\<rparr>)"
| Times_out: "i < length (cl_members c) \<Longrightarrow> (i, node) \<in> set (cl_pings c) \<Longrightarrow> suspectNode (cl_members c ! i) node = Inr g' \<Longrightarrow>
    cluster_step c (act c i g')"
| Expires: "i < length (cl_members c) \<Longrightarrow> k \<in> set (g_waits (cl_members c ! i)) \<Longrightarrow> timer_handler (cl_members c ! i) k = Inr g' \<Longrightarrow>
    cluster_step c (act c i g')"

section \<open>The invariant\<close>

text \<open>
  A property of all node states of a cluster, in members, on their way, and in the pings not answered: what the handlers
  respect holds, if the members' own node states have it.
\<close>

definition cluster_held :: "(node_state \<Rightarrow> bool) \<Rightarrow> cluster \<Rightarrow> bool" where
  "cluster_held P c \<longleftrightarrow> (\<forall>g \<in> set (cl_members c). ev_inv g \<and> g_reread g = id \<and> held P g) \<and> (\<forall>m \<in> set (cl_wire c). P m) \<and>
     (\<forall>(i, node) \<in> set (cl_pings c). ns_State node = STATE_ALIVE \<and> P node)"

lemma cluster_held_mono:
  assumes "cluster_held P c" "\<And>st. P st \<Longrightarrow> Q st"
  shows "cluster_held Q c"
  using assms held_mono[of P _ Q] unfolding cluster_held_def by blast

lemma act_held:
  assumes "cluster_held P c" "ev_inv g'" "g_reread g' = id" "held P g'"
  shows "cluster_held P (act c i g')"
  using assms set_update_subset_insert[of "cl_members c" i g'] by (auto simp: cluster_held_def act_def)

lemma rot_set: "set (bq_rot q) = set (entries (bq_m q))"
proof (cases "bq_cur q")
  case (Some k)
  have "set (entries (bq_m q)) = set (takeWhile (\<lambda>e. fst e \<noteq> k) (entries (bq_m q))) \<union> set (dropWhile (\<lambda>e. fst e \<noteq> k) (entries (bq_m q)))"
    by (metis set_append takeWhile_dropWhile_id)
  then show ?thesis by (auto simp: bq_rot_def um_rot_def Some)
qed (simp add: bq_rot_def um_rot_def)

lemma countdown_msg: "e \<in> set (countdown e0) \<Longrightarrow> fst (snd e) = fst (snd e0)"
  by (cases e0) (auto split: if_splits)

text \<open>Committing a traversal adds nothing to the queue, and hands out what was in it.\<close>

lemma gossip_queue:
  assumes "ev_inv g" "peek_msgs n (g_bc_queue g) = Inr (msgs, q)" "ApplyPeek q = Inr q'"
  shows "ev_inv (g\<lparr>g_bc_queue := q'\<rparr>)" "queued (g\<lparr>g_bc_queue := q'\<rparr>) \<subseteq> queued g" "set msgs \<subseteq> queued g"
    "um_size (bq_m (g_bc_queue g)) \<le> n \<Longrightarrow> set msgs = queued g"
proof -
  let ?q = "g_bc_queue g" and ?g = "g\<lparr>g_bc_queue := q'\<rparr>"
  have idle: "bq_idle ?q" using ev_inv_idle[OF assms(1)] .
  have q': "msgs = map (\<lambda>e. fst (snd e)) (take n (bq_rot ?q))" "bq_idle q'"
    "bq_rot q' = drop n (bq_rot ?q) @ concat (map countdown (take n (bq_rot ?q)))" "bq_multi q' = bq_multi ?q"
    using peek_apply_round[OF idle, of n] peek_apply_multi[OF idle assms(2,3)] assms(2,3) by auto
  show "queued ?g \<subseteq> queued g"
  proof
    fix m assume "m \<in> queued ?g"
    then obtain e where e: "e \<in> set (bq_rot q')" "m = fst (snd e)" by (auto simp: queued_def rot_set)
    then consider "e \<in> set (bq_rot ?q)" | e0 where "e0 \<in> set (bq_rot ?q)" "e \<in> set (countdown e0)"
      unfolding q'(3) by (auto dest: in_set_dropD in_set_takeD)
    then show "m \<in> queued g"
    proof cases
      case (2 e0)
      from countdown_msg[OF 2(2)] show ?thesis using 2(1) e(2) by (auto simp: queued_def rot_set)
    qed (use e(2) in \<open>auto simp: queued_def rot_set\<close>)
  qed
  have "ev_inv (g\<lparr>g_bc_queue := q', g_MAX_APPENDED_MSG := g_MAX_APPENDED_MSG g\<rparr>)"
    by (rule queue_change_ev_inv[OF assms(1) q'(2,4)])
  then show "ev_inv ?g" by simp
  show "set msgs \<subseteq> queued g" unfolding q'(1) queued_def rot_set[symmetric] by (auto dest: in_set_takeD)
  assume "um_size (bq_m ?q) \<le> n"
  then have "take n (bq_rot ?q) = bq_rot ?q" using idle length_bq_rot[of ?q] by (simp add: bq_idle_def)
  then show "set msgs = queued g" unfolding q'(1) queued_def rot_set[symmetric] by simp
qed

lemma probe_candidate:
  assumes "ev_inv g" "probe g = Inr (Some node, g')"
  shows "node \<in> set (node_table g) \<and> ns_State node = STATE_ALIVE"
proof -
  have wf: "um_wf (g_node_map g)" using ev_inv_g_inv[OF assms(1)] by (simp add: g_inv_def)
  obtain candi g1 where r: "roundrobinNode g 1 = (candi, g1)" by (cases "roundrobinNode g 1")
  then have "g_node_map g1 = g_node_map g" by (auto simp: roundrobinNode_def Let_def split: if_splits)
  moreover have "\<exists>n. g_find g1 n = Some node"
    using assms(2) r
    by (auto simp: probe_def rbind_Inr_iff getNodeState_def of_option_def split: list.splits if_splits option.splits)
  ultimately have "node \<in> set (node_table g)" using node_table_find[OF wf, of node] by auto
  then show ?thesis using probe_frame[OF assms] by simp
qed

lemma gossip_held:
  assumes "ev_inv g" "held P g" "peek_msgs n (g_bc_queue g) = Inr (msgs, q)" "ApplyPeek q = Inr q'"
  shows "held P (g\<lparr>g_bc_queue := q'\<rparr>) \<and> (\<forall>m \<in> set msgs. P m)"
proof -
  have "node_table (g\<lparr>g_bc_queue := q'\<rparr>) = node_table g" "accused (g\<lparr>g_bc_queue := q'\<rparr>) = accused g"
    by (simp_all add: node_table_def accused_def)
  then show ?thesis using assms(2) gossip_queue(2,3)[OF assms(1,3,4)] by (auto simp: held_def)
qed

lemma count_frame:
  assumes "ev_inv g"
  shows "ev_inv (g\<lparr>g_seq_num := s, g_MAX_APPENDED_MSG := m\<rparr>)"
proof -
  have g: "g_inv g" using ev_inv_g_inv[OF assms] .
  then have "g_inv (g\<lparr>g_seq_num := s, g_MAX_APPENDED_MSG := m\<rparr>)"
    by (rule g_inv_frame) (use g in \<open>simp_all add: g_inv_def\<close>)
  then show ?thesis by (rule ev_inv_frame[OF assms]) simp_all
qed

context told
begin

lemma says_setup: "P (self_state g' d) \<Longrightarrow> g_conf g' = g_conf g \<Longrightarrow> P (self_state g d)"
  using stamped[of "self_state g' d" "g_indet g"] by (simp add: self_state_def)

lemma acting_held:
  assumes "cluster_held P c" "i < length (cl_members c)" "input_ok e" "input_told P e"
    "member_step (cl_members c ! i) e = Inr g'" "\<forall>g \<in> set (cl_members (act c i g')). P (self_state g (g_dominant g))"
  shows "cluster_held P (act c i g')"
proof -
  let ?g = "cl_members c ! i"
  have g: "ev_inv ?g" "g_reread ?g = id" "held P ?g" using assms(1,2) by (simp_all add: cluster_held_def)
  have s: "same_setup ?g g'" using member_step_setup[OF assms(5)] .
  have "g' \<in> set (cl_members (act c i g'))" using set_update_memI[OF assms(2)] by (simp add: act_def)
  then have "P (self_state g' (g_dominant g'))" using assms(6) by blast
  moreover have "g_conf g' = g_conf ?g" "g_reread g' = id" using s g(2) by (simp_all add: same_setup_def)
  ultimately have "says ?g g'" using says_setup by blast
  then have "held P g'" using member_step_held[OF g(1,3,2) assms(4,5)] by blast
  then show ?thesis
    using act_held[OF assms(1) member_step_ev_inv[OF g(1) assms(3,5)]] \<open>g_reread g' = id\<close> by blast
qed

lemma cluster_step_held:
  assumes "cluster_step c c'" "cluster_held P c" "\<forall>g \<in> set (cl_members c'). P (self_state g (g_dominant g))"
  shows "cluster_held P c'"
  using assms(1)
proof cases
  case (Starts ord conf indet g)
  have "ev_inv g" using start_member_D[OF Starts(2,3)] .
  moreover have "g_reread g = id" using start_member_setup[OF Starts(2,3)] by simp
  moreover have "held P g" using start_member_held[OF Starts(2,3)] assms(3) Starts(1) by simp
  ultimately show ?thesis using assms(2) Starts(1) by (simp add: cluster_held_def)
next
  case (Gossips i g n msgs q q')
  have g: "ev_inv g" "g_reread g = id" "held P g" using assms(2) Gossips(2,3) by (simp_all add: cluster_held_def)
  note h = gossip_held[OF g(1,3) Gossips(4,5)]
  have "cluster_held P (act c i (g\<lparr>g_bc_queue := q'\<rparr>))"
    using act_held[OF assms(2) gossip_queue(1)[OF g(1) Gossips(4,5)]] h g(2) by simp
  then show ?thesis using h Gossips(1) by (auto simp: cluster_held_def)
next
  case (Counts i g m s)
  have g: "ev_inv g" "g_reread g = id" "held P g" using assms(2) Counts(2,3) by (simp_all add: cluster_held_def)
  have "held P (g\<lparr>g_seq_num := s, g_MAX_APPENDED_MSG := m\<rparr>)" using g(3) by (rule held_frame) simp_all
  then show ?thesis unfolding Counts(1) using act_held[OF assms(2) count_frame[OF g(1)]] g(2) by simp
next
  case (Shows i st)
  have "held P (cl_members c ! i)" using assms(2) Shows(2) by (simp add: cluster_held_def)
  then have "P st" using Shows(3) by (simp add: held_def)
  then show ?thesis using assms(2) Shows(1) by (auto simp: cluster_held_def)
next
  case (Hears i m bc g')
  have "P m" using assms(2) Hears(3) by (simp add: cluster_held_def)
  then show ?thesis using acting_held[OF assms(2) Hears(2), of "In_state bc m" g'] Hears(1,4) assms(3) by simp
next
  case (Objects i m)
  then show ?thesis using acting_held[OF assms(2) Objects(2), of "In_dead_alert (ns_Dominant m)"] assms(3) by simp
next
  case (Ticks i candidate g')
  have g: "ev_inv (cl_members c ! i)" "held P (cl_members c ! i)" using assms(2) Ticks(2) by (simp_all add: cluster_held_def)
  have a: "cluster_held P (act c i g')"
    using acting_held[OF assms(2) Ticks(2), of In_tick g'] Ticks(1,3) assms(3) by (simp add: act_def)
  have "P node \<and> ns_State node = STATE_ALIVE" if "candidate = Some node" for node
    using probe_candidate[OF g(1), of node g'] Ticks(3) that g(2) by (auto simp: held_def)
  then show ?thesis using a Ticks(1) by (auto simp: cluster_held_def split: option.splits)
next
  case (Times_out i node g')
  have "P node" "ns_State node = STATE_ALIVE" using assms(2) Times_out(3) by (auto simp: cluster_held_def)
  then show ?thesis
    using acting_held[OF assms(2) Times_out(2), of "In_ping_timeout node" g'] Times_out(1,4) assms(3) by simp
next
  case (Expires i k g')
  then show ?thesis using acting_held[OF assms(2) Expires(2), of "In_timer k" g'] assms(3) by simp
qed

end

text \<open>The claims that members have made of themselves in a run up to \<open>c\<close>.\<close>

definition had :: "cluster \<Rightarrow> claim set" where
  "had c = {x. \<exists>c0 m. cluster_step\<^sup>*\<^sup>* no_members c0 \<and> cluster_step\<^sup>*\<^sup>* c0 c \<and> m \<in> set (cl_members c0) \<and> x = own_claim m}"

lemma had_step: "cluster_step c c' \<Longrightarrow> had c \<subseteq> had c'"
  unfolding had_def by (blast intro: rtranclp.rtrancl_into_rtrancl)

lemma had_now: "cluster_step\<^sup>*\<^sup>* no_members c \<Longrightarrow> own_claim ` set (cl_members c) \<subseteq> had c"
  unfolding had_def by blast

lemma cluster_inv:
  assumes "cluster_step\<^sup>*\<^sup>* no_members c"
  shows "cluster_held (\<lambda>st. claim_of st \<in> had c) c"
  using assms
proof (induction rule: rtranclp_induct)
  case base
  show ?case by (simp add: cluster_held_def no_members_def)
next
  case (step c c')
  have "cluster_step\<^sup>*\<^sup>* no_members c'" using step.hyps by (rule rtranclp.rtrancl_into_rtrancl)
  then have "\<forall>g \<in> set (cl_members c'). claim_of (self_state g (g_dominant g)) \<in> had c'"
    using had_now by (auto simp: self_claim)
  moreover have "cluster_held (\<lambda>st. claim_of st \<in> had c') c"
    by (rule cluster_held_mono[OF step.IH]) (use had_step[OF step.hyps(2)] in blast)
  ultimately show ?case by (intro claims.cluster_step_held[OF step.hyps(2)])
qed

lemma cluster_ev_inv: "cluster_step\<^sup>*\<^sup>* no_members c \<Longrightarrow> g \<in> set (cl_members c) \<Longrightarrow> ev_inv g"
  using cluster_inv by (simp add: cluster_held_def)

text \<open>Members stay, with their configuration.\<close>

lemma cluster_step_confs:
  assumes "cluster_step c c'"
  shows "\<exists>confs. map g_conf (cl_members c') = map g_conf (cl_members c) @ confs"
proof -
  have act: "map g_conf (cl_members (act c i g')) = map g_conf (cl_members c)"
    if "i < length (cl_members c)" "g_conf g' = g_conf (cl_members c ! i)" for i g'
    using that by (simp add: act_def map_update list_update_same_conv)
  have step: "g_conf g' = g_conf (cl_members c ! i)" if "i < length (cl_members c)" "member_step (cl_members c ! i) e = Inr g'" for i e g'
    using member_step_setup[OF that(2)] by (simp add: same_setup_def)
  from assms(1) show ?thesis
  proof cases
    case (Hears i m bc g')
    then show ?thesis using act[OF Hears(2)] step[OF Hears(2), of "In_state bc m" g'] by simp
  next
    case (Objects i m)
    then show ?thesis using act[OF Objects(2)] by simp
  next
    case (Ticks i candidate g')
    then show ?thesis using act[OF Ticks(2)] step[OF Ticks(2), of In_tick g'] by simp
  next
    case (Times_out i node g')
    then show ?thesis using act[OF Times_out(2)] step[OF Times_out(2), of "In_ping_timeout node" g'] by simp
  next
    case (Expires i k g')
    then show ?thesis using act[OF Expires(2)] step[OF Expires(2), of "In_timer k" g'] by simp
  qed (simp_all add: act)
qed

lemma cluster_confs:
  assumes "cluster_step\<^sup>*\<^sup>* c0 c"
  shows "g_conf ` set (cl_members c0) \<subseteq> g_conf ` set (cl_members c)"
  using assms
proof (induction rule: rtranclp_induct)
  case (step c c')
  obtain confs where "map g_conf (cl_members c') = map g_conf (cl_members c) @ confs"
    using cluster_step_confs[OF step.hyps(2)] by blast
  then have "g_conf ` set (cl_members c) \<subseteq> g_conf ` set (cl_members c')" by (metis set_append set_map sup_ge1)
  then show ?case using step by blast
qed simp

text \<open>Every entry of a table repeats what the member it is about has said of itself.\<close>

lemma table_claims:
  assumes "cluster_step\<^sup>*\<^sup>* no_members c" "g \<in> set (cl_members c)" "getNodeState g n = Some st"
  shows "\<exists>c0 m. cluster_step\<^sup>*\<^sup>* no_members c0 \<and> cluster_step\<^sup>*\<^sup>* c0 c \<and> m \<in> set (cl_members c0) \<and> g_name m = n \<and>
      ns_IP st = conf_Addr (g_conf m) \<and> ns_Port st = port_string (conf_Port (g_conf m)) \<and> ns_Dominant st = g_dominant m"
proof -
  have g: "g_inv g" "held (\<lambda>st. claim_of st \<in> had c) g"
    using cluster_inv[OF assms(1)] assms(2) ev_inv_g_inv by (simp_all add: cluster_held_def)
  have find: "g_find g n = Some st" using assms(3) by (simp add: getNodeState_def)
  have wf: "um_wf (g_node_map g)" using g(1) by (simp add: g_inv_def)
  have name: "ns_Name st = n" using g(1) find by (simp add: g_inv_def)
  have "st \<in> set (node_table g)" using node_table_find[OF wf, of st] find by blast
  then have "claim_of st \<in> had c" using g(2) by (simp add: held_def)
  then obtain c0 m where m: "cluster_step\<^sup>*\<^sup>* no_members c0" "cluster_step\<^sup>*\<^sup>* c0 c" "m \<in> set (cl_members c0)" "claim_of st = own_claim m"
    unfolding had_def by blast
  moreover have "g_name m = n" "ns_IP st = conf_Addr (g_conf m)" "ns_Port st = port_string (conf_Port (g_conf m))"
    "ns_Dominant st = g_dominant m" using m(4) name by (simp_all add: claim_of_def own_claim_def)
  ultimately show ?thesis by blast
qed

lemma table_names:
  assumes "cluster_step\<^sup>*\<^sup>* no_members c" "g \<in> set (cl_members c)" "getNodeState g n = Some st"
  shows "n \<in> g_name ` set (cl_members c)"
proof -
  from table_claims[OF assms] obtain c0 m where m: "cluster_step\<^sup>*\<^sup>* c0 c" "m \<in> set (cl_members c0)" "g_name m = n" by blast
  have "g_conf m \<in> g_conf ` set (cl_members c)" using cluster_confs[OF m(1)] m(2) by (meson imageI subsetD)
  then obtain g' where "g' \<in> set (cl_members c)" "g_conf m = g_conf g'" by (rule imageE)
  then show ?thesis using m(3) by auto
qed

lemma listed_members:
  assumes "cluster_step\<^sup>*\<^sup>* no_members c" "g \<in> set (cl_members c)"
  shows "set (GetAliveNodes g) \<subseteq> g_name ` set (cl_members c)"
  using ev_inv_alive_exact(3)[OF cluster_ev_inv[OF assms]] table_names[OF assms] by blast

section \<open>Properties\<close>

text \<open>
  (C3) Nothing is invented. In every run of a cluster, whatever is lost, repeated, delayed or overtaken, each entry of each
  table is about a member that was started, with its address and port, and carries a dominant that
  this member had itself, then or before; no member lists a node that is none.
\<close>

theorem nothing_invented:
  assumes "cluster_step\<^sup>*\<^sup>* no_members c" "g \<in> set (cl_members c)"
  shows "(\<forall>n st. getNodeState g n = Some st \<longrightarrow>
      (\<exists>c0 m. cluster_step\<^sup>*\<^sup>* no_members c0 \<and> cluster_step\<^sup>*\<^sup>* c0 c \<and> m \<in> set (cl_members c0) \<and> g_name m = n \<and>
         ns_IP st = conf_Addr (g_conf m) \<and> ns_Port st = port_string (conf_Port (g_conf m)) \<and> ns_Dominant st = g_dominant m)) \<and>
    set (GetAliveNodes g) \<subseteq> g_name ` set (cl_members c)"
  using table_claims[OF assms] listed_members[OF assms] by blast

text \<open>Two members, of which one merges what the other shows of itself.\<close>

definition ex_conf_b :: config where
  "ex_conf_b = ex_conf\<lparr>conf_Name := ''b'', conf_Addr := ''10.0.0.2''\<rparr>"

lemma ex_cluster_run:
  "case start_member ex_conf (#) 0 id of Inl _ \<Rightarrow> False | Inr a \<Rightarrow>
   case start_member ex_conf_b (#) 0 id of Inl _ \<Rightarrow> False | Inr b \<Rightarrow>
   case getNodeState b ''b'' of None \<Rightarrow> False | Some st \<Rightarrow>
   case merge_state a True st of Inl _ \<Rightarrow> False | Inr a' \<Rightarrow>
     map_option ns_IP (getNodeState a' ''b'') = Some ''10.0.0.2'' \<and> ''b'' \<in> set (GetAliveNodes a') \<and> g_name a' = ''a''"
  by code_simp

lemma ex_cluster:
  obtains c a b where "cluster_step\<^sup>*\<^sup>* no_members c" "cl_members c = [a, b]"
    "map_option ns_IP (getNodeState a ''b'') = Some ''10.0.0.2''" "''b'' \<in> set (GetAliveNodes a)" "g_name a = ''a''"
proof -
  obtain a b st a' where m: "start_member ex_conf (#) 0 id = Inr a" "start_member ex_conf_b (#) 0 id = Inr b"
    "getNodeState b ''b'' = Some st" "merge_state a True st = Inr a'"
    "map_option ns_IP (getNodeState a' ''b'') = Some ''10.0.0.2''" "''b'' \<in> set (GetAliveNodes a')" "g_name a' = ''a''"
    using ex_cluster_run by (auto simp: case_ok_iff split: option.splits)
  let ?c1 = "no_members\<lparr>cl_members := [a]\<rparr>" and ?c2 = "no_members\<lparr>cl_members := [a, b]\<rparr>"
  let ?c3 = "?c2\<lparr>cl_wire := [st]\<rparr>"
  have 1: "cluster_step no_members ?c1"
    using Starts[OF order_ok_Cons m(1), of no_members] by (simp add: no_members_def)
  have 2: "cluster_step ?c1 ?c2"
    using Starts[OF order_ok_Cons m(2), of ?c1] by (simp add: no_members_def)
  have "um_wf (g_node_map b)" using start_member_D[OF order_ok_Cons m(2)] ev_inv_g_inv by (simp add: g_inv_def)
  then have st: "st \<in> set (node_table b)" using node_table_find[of b st] m(3) unfolding getNodeState_def by blast
  have 3: "cluster_step ?c2 ?c3"
    using Shows[of 1 ?c2 st] st by (simp add: no_members_def)
  have 4: "cluster_step ?c3 (act ?c3 0 a')"
    using Hears[of 0 ?c3 st True a'] m(4) by (simp add: no_members_def)
  from 1 2 3 4 have "cluster_step\<^sup>*\<^sup>* no_members (act ?c3 0 a')" by (meson converse_rtranclp_into_rtranclp rtranclp.rtrancl_refl)
  moreover have "cl_members (act ?c3 0 a') = [a', b]" by (simp add: act_def)
  ultimately show thesis using m(5-7) by (rule that)
qed

theorem nothing_invented_witness:
  "\<exists>c g st. cluster_step\<^sup>*\<^sup>* no_members c \<and> g \<in> set (cl_members c) \<and> g_name g = ''a'' \<and> getNodeState g ''b'' = Some st \<and>
    (\<exists>c0 m. cluster_step\<^sup>*\<^sup>* c0 c \<and> m \<in> set (cl_members c0) \<and> g_name m = ''b'' \<and> ns_IP st = conf_Addr (g_conf m)) \<and>
    ''b'' \<in> g_name ` set (cl_members c)"
proof -
  obtain c a b where c: "cluster_step\<^sup>*\<^sup>* no_members c" "cl_members c = [a, b]"
    "map_option ns_IP (getNodeState a ''b'') = Some ''10.0.0.2''" "''b'' \<in> set (GetAliveNodes a)" "g_name a = ''a''"
    by (rule ex_cluster)
  then obtain st where st: "getNodeState a ''b'' = Some st" by auto
  have a: "a \<in> set (cl_members c)" using c(2) by simp
  note n = nothing_invented[OF c(1) a]
  from n st have "\<exists>c0 m. cluster_step\<^sup>*\<^sup>* c0 c \<and> m \<in> set (cl_members c0) \<and> g_name m = ''b'' \<and> ns_IP st = conf_Addr (g_conf m)"
    by blast
  moreover have "''b'' \<in> g_name ` set (cl_members c)" using n c(4) by blast
  ultimately show ?thesis using c(1,5) a st by blast
qed

end
