(* ===== verification/Calm.thy ===== *)
theory Calm
  imports Cluster Detection
begin

text \<open>
  In every reachable cluster no SUSPECT message, entry or suspicion exists, and every entry of a member's table has a
  positive dominant.
\<close>

section \<open>Positive dominants\<close>

text \<open>An entry that is new comes from an ALIVE message whose dominant is above 0.\<close>

definition positive :: "gossiper \<Rightarrow> bool" where
  "positive g \<longleftrightarrow> (\<forall>n st. g_find g n = Some st \<longrightarrow> 0 < ns_Dominant st)"

lemma positive_le:
  assumes "positive g" "g_le g g'" "dom (g_find g') \<subseteq> dom (g_find g)"
  shows "positive g'"
  unfolding positive_def
proof (intro allI impI)
  fix n st assume st: "g_find g' n = Some st"
  then obtain st0 where st0: "g_find g n = Some st0" using assms(3) by blast
  then have "state_le st0 st" using assms(2) st unfolding g_le_def by fastforce
  moreover have "0 < ns_Dominant st0" using assms(1) st0 by (simp add: positive_def)
  ultimately show "0 < ns_Dominant st" by (auto simp: state_le_def)
qed

lemma dead_step_dom:
  assumes "g_inv g"
  shows "dom (g_find (dead_step g d)) \<subseteq> dom (g_find g)"
proof (rule dead_step_induct[where P = "\<lambda>g'. dom (g_find g') \<subseteq> dom (g_find g)"])
  have wf: "um_wf (g_node_map g)" "distinct (g_nodes g)" using assms by (simp_all add: g_inv_def)
  assume "nodes_known g d"
  then show "dom (g_find (dead_result g d)) \<subseteq> dom (g_find g)"
    by (auto simp: dead_result_fields(1)[OF wf] nodes_known_def split: if_splits)
qed (simp_all add: dead_base_def)

lemma suspectNode_dom:
  assumes "g_inv g" "suspectNode g s = Inr g'"
  shows "dom (g_find g') \<subseteq> dom (g_find g)"
proof -
  have wf: "um_wf (g_node_map g)" using assms(1) by (simp add: g_inv_def)
  have c: "dom (g_find (confirm_result g s sus)) \<subseteq> dom (g_find g)" for sus
  proof -
    have "g_inv (g\<lparr>g_suspicions := um_set (g_suspicions g) k x\<rparr>)" for k x
      using assms(1) by (rule g_inv_frame) (use assms(1) in \<open>simp_all add: g_inv_def um.wf_put\<close>)
    from dead_step_dom[OF this] show ?thesis by (simp add: confirm_result_def Let_def split: prod.splits)
  qed
  have s: "g_find (suspect_result g s sus) = (g_find g)(ns_Name s \<mapsto> s\<lparr>ns_Timestamp := 0\<rparr>)" for sus
    by (simp add: suspect_result_def Let_def um.find_put[OF wf])
  show ?thesis
  proof (cases "g_find g (ns_Name s)")
    case (Some st)
    then have "dom (g_find (suspect_result g s sus)) \<subseteq> dom (g_find g)" for sus unfolding s by auto
    moreover have "g' = g \<or> (\<exists>sus. g' = confirm_result g s sus) \<or> (\<exists>sus. g' = suspect_result g s sus)"
      using assms(2) Some by (auto simp: suspectNode_cases rbind_Inr_iff split: option.splits if_splits)
    ultimately show ?thesis using c by (elim disjE exE) simp_all
  qed (use assms(2) in \<open>simp add: suspectNode_cases\<close>)
qed

lemma positive_step:
  assumes "positive g" "ev_inv g" "input_ok e" "member_step g e = Inr g'"
  shows "positive g'"
proof -
  have inv: "g_inv g" and m: "m_inv g" using assms(2) by (simp_all add: ev_inv_def m_inv_def)
  then have wf: "um_wf (g_node_map g)" by (simp add: g_inv_def)
  have le: "g_le g g'" using assms(2-4) by (rule member_step_le)
  consider (alive) bc st where "e = In_state bc st" "alive_accepts g st" "g' = alive_result g st bc"
    | (known) "dom (g_find g') \<subseteq> dom (g_find g)"
  proof (cases e)
    case (In_state bc st)
    show thesis
    proof (cases "ns_State st = STATE_ALIVE \<and> alive_accepts g st")
      case True
      then have "g' = alive_result g st bc" using In_state assms(4) by (simp add: merge_state_def aliveNode_cases[OF wf])
      then show thesis using In_state True by (intro alive) simp_all
    next
      case False
      then have "g' = g \<or> g' = dead_step g st \<or> suspectNode g st = Inr g'"
        using In_state assms(4) by (auto simp: merge_state_def aliveNode_cases[OF wf] deadNode_cases split: STATE.splits if_splits)
      then show thesis using dead_step_dom[OF inv] suspectNode_dom[OF inv] by (intro known) blast
    qed
  next
    case (In_timer i)
    have "g_inv (g\<lparr>g_waits := x\<rparr>)" for x using inv by (rule g_inv_frame) (use inv in \<open>simp_all add: g_inv_def\<close>)
    from dead_step_dom[OF this] have "dom (g_find (dead_step (g\<lparr>g_waits := x\<rparr>) d)) \<subseteq> dom (g_find g)" for x d by simp
    moreover have "\<exists>x d. g' = dead_step (g\<lparr>g_waits := x\<rparr>) d"
      using In_timer assms(4) by (auto simp: timer_handler_cases split: option.splits)
    ultimately show thesis by (intro known) (elim exE, simp)
  next
    case (In_ping_timeout st)
    then show thesis using suspectNode_dom[OF inv] assms(4) by (intro known) simp
  next
    case (In_dead_alert d)
    then show thesis using assms(4) by (intro known) auto
  next
    case In_tick
    obtain r c where "probe g = Inr (r, g\<lparr>g_cursor := c\<rparr>)" using probe_result[OF m] by blast
    then show thesis using In_tick assms(4) by (intro known) auto
  qed
  then show ?thesis
  proof cases
    case (alive bc st)
    then have "0 < ns_Dominant st" by (auto simp: alive_accepts_def intro: le_less_trans[OF word_zero_le])
    then show ?thesis using assms(1) by (simp add: positive_def alive(3) alive_result_fields(1)[OF wf])
  next
    case known
    then show ?thesis by (rule positive_le[OF assms(1) le])
  qed
qed

text \<open>
  No SUSPECT message exists and no entry has the dominant 0.
\<close>

definition calm :: "gossiper \<Rightarrow> bool" where
  "calm g \<longleftrightarrow> unsuspecting g \<and> positive g"

lemma calm_step:
  assumes "calm g" "input_ok e" "\<not> carries_suspect e" "member_step g e = Inr g'"
  shows "calm g'"
  using assms member_step_unsuspecting[of g e g'] positive_step[of g e g']
  by (simp add: calm_def unsuspecting_def)

lemma quiet_queue_queued: "um_wf (bq_m (g_bc_queue g)) \<Longrightarrow> quiet_queue g \<longleftrightarrow> (\<forall>m \<in> queued g. ns_State m \<noteq> STATE_SUSPECT)"
  by (fastforce simp: quiet_queue_def queued_def um_find_entry)

lemma start_member_calm:
  assumes "order_ok ord" "start_member conf ord indet id = Inr g"
  shows "calm g"
proof -
  define g1 where "g1 = snd (nextDominant (RegisterNotifier (gossiper_new conf ord indet id) True True) 1)"
  have g1: "um_wf (g_node_map g1)" "g_node_map g1 = um_empty ord" "bq_m (g_bc_queue g1) = um_empty ord" "g_dominant g1 = 1"
    using assms(1) by (simp_all add: g1_def nextDominant_def RegisterNotifier_def gossiper_new_def um_wf_empty BroadcastQueue_init_def)
  have "aliveNode g1 (self_state g1 1) False = Inr g"
    using assms(2) by (simp add: start_member_def join_self_def g1_def nextDominant_def RegisterNotifier_def gossiper_new_def)
  then have g: "g = g1 \<or> g = alive_result g1 (self_state g1 1) False" unfolding aliveNode_cases[OF g1(1)] by (auto split: if_splits)
  moreover have "um_find (um_empty ord) n = None" for n :: string and v :: node_state by (simp add: um_find_def um_empty_def)
  ultimately show ?thesis
    using start_member_unsuspecting[OF assms] g1 by (auto simp: calm_def positive_def alive_result_fields(1) self_state_def split: if_splits)
qed

lemma gossip_calm:
  assumes "calm g" "peek_msgs n (g_bc_queue g) = Inr (msgs, q)" "ApplyPeek q = Inr q'"
  shows "calm (g\<lparr>g_bc_queue := q'\<rparr>) \<and> (\<forall>m \<in> set msgs. ns_State m \<noteq> STATE_SUSPECT)"
proof -
  let ?g = "g\<lparr>g_bc_queue := q'\<rparr>"
  have g: "ev_inv g" "quiet_table g" "quiet_queue g" "positive g"
    using assms(1) by (simp_all add: calm_def unsuspecting_def)
  note q = gossip_queue[OF g(1) assms(2,3)]
  have wf: "um_wf (bq_m (g_bc_queue x))" if "ev_inv x" for x
    using ev_inv_idle[OF that] by (simp add: bq_idle_def bq_inv_def)
  have "quiet_queue ?g" "\<forall>m \<in> set msgs. ns_State m \<noteq> STATE_SUSPECT"
    using g(3) q(2,3) unfolding quiet_queue_queued[OF wf[OF q(1)]] quiet_queue_queued[OF wf[OF g(1)]] by blast+
  moreover have "quiet_table ?g" "positive ?g" using g(2,4) by (simp_all add: quiet_table_def positive_def)
  ultimately show ?thesis using q(1) by (simp add: calm_def unsuspecting_def)
qed

lemma count_calm:
  assumes "calm g"
  shows "calm (g\<lparr>g_seq_num := s, g_MAX_APPENDED_MSG := m\<rparr>)"
proof -
  have g: "ev_inv g" "quiet_table g" "quiet_queue g" "positive g"
    using assms by (simp_all add: calm_def unsuspecting_def)
  show ?thesis
    using g(2-4) count_frame[OF g(1)] by (simp add: calm_def unsuspecting_def quiet_table_def quiet_queue_def positive_def)
qed

definition cluster_calm :: "cluster \<Rightarrow> bool" where
  "cluster_calm c \<longleftrightarrow> (\<forall>g \<in> set (cl_members c). calm g) \<and> (\<forall>m \<in> set (cl_wire c). ns_State m \<noteq> STATE_SUSPECT) \<and>
     (\<forall>(i, node) \<in> set (cl_pings c). ns_State node = STATE_ALIVE)"

lemma act_calm: "cluster_calm c \<Longrightarrow> calm g \<Longrightarrow> cluster_calm (act c i g)"
  using set_update_subset_insert[of "cl_members c" i g] by (auto simp: cluster_calm_def act_def)

lemma acting_calm:
  assumes "cluster_calm c" "i < length (cl_members c)" "input_ok e" "\<not> carries_suspect e"
    "member_step (cl_members c ! i) e = Inr g'"
  shows "cluster_calm (act c i g')"
proof (rule act_calm[OF assms(1)])
  have "calm (cl_members c ! i)" using assms(1,2) by (simp add: cluster_calm_def)
  then show "calm g'" using assms(3-5) by (rule calm_step)
qed

lemma cluster_step_calm:
  assumes "cluster_step c c'" "cluster_calm c"
  shows "cluster_calm c'"
  using assms(1)
proof cases
  case (Starts ord conf indet g)
  then show ?thesis using assms(2) start_member_calm by (auto simp: cluster_calm_def)
next
  case (Gossips i g n msgs q q')
  have "calm g" using assms(2) Gossips(2,3) by (simp add: cluster_calm_def)
  note g = gossip_calm[OF this Gossips(4,5)]
  then have "cluster_calm (act c i (g\<lparr>g_bc_queue := q'\<rparr>))" using act_calm[OF assms(2)] by blast
  then show ?thesis using g Gossips(1) by (auto simp: cluster_calm_def)
next
  case (Counts i g m s)
  then have "calm g" using assms(2) by (simp add: cluster_calm_def)
  then show ?thesis unfolding Counts(1) by (rule act_calm[OF assms(2) count_calm])
next
  case (Shows i st)
  have g: "ev_inv (cl_members c ! i)" "quiet_table (cl_members c ! i)"
    using assms(2) Shows(2) by (simp_all add: cluster_calm_def calm_def unsuspecting_def)
  have "um_wf (g_node_map (cl_members c ! i))" using ev_inv_g_inv[OF g(1)] by (simp add: g_inv_def)
  then have "ns_State st \<noteq> STATE_SUSPECT" using Shows(3) g(2) node_table_find by (auto simp: quiet_table_def)
  then show ?thesis using assms(2) Shows(1) by (auto simp: cluster_calm_def)
next
  case (Hears i m bc g')
  have "ns_State m \<noteq> STATE_SUSPECT" using assms(2) Hears(3) by (simp add: cluster_calm_def)
  then show ?thesis using acting_calm[OF assms(2) Hears(2), of "In_state bc m" g'] Hears(1,4) by simp
next
  case (Objects i m)
  then show ?thesis using acting_calm[OF assms(2) Objects(2), of "In_dead_alert (ns_Dominant m)"] by simp
next
  case (Ticks i candidate g')
  have g: "ev_inv (cl_members c ! i)" using assms(2) Ticks(2) by (simp add: cluster_calm_def calm_def unsuspecting_def)
  have a: "cluster_calm (act c i g')" using acting_calm[OF assms(2) Ticks(2), of In_tick g'] Ticks(3) by simp
  have "ns_State node = STATE_ALIVE" if "candidate = Some node" for node
    using probe_candidate[OF g, of node g'] Ticks(3) that by simp
  then show ?thesis using a Ticks(1) by (auto simp: cluster_calm_def split: option.splits)
next
  case (Times_out i node g')
  have "ns_State node = STATE_ALIVE" using assms(2) Times_out(3) by (auto simp: cluster_calm_def)
  then show ?thesis using acting_calm[OF assms(2) Times_out(2), of "In_ping_timeout node" g'] Times_out(1,4) by simp
next
  case (Expires i k g')
  then show ?thesis using acting_calm[OF assms(2) Expires(2), of "In_timer k" g'] by simp
qed

lemma cluster_run_calm: "cluster_step\<^sup>*\<^sup>* c c' \<Longrightarrow> cluster_calm c \<Longrightarrow> cluster_calm c'"
  by (induction rule: rtranclp_induct) (auto intro: cluster_step_calm)

lemma no_members_calm: "cluster_calm no_members"
  by (simp add: cluster_calm_def no_members_def)

text \<open>What a member lists.\<close>

definition lists :: "gossiper \<Rightarrow> string \<Rightarrow> bool" where
  "lists g n \<longleftrightarrow> (\<exists>st. g_find g n = Some st \<and> ns_State st \<noteq> STATE_DEAD)"

lemma lists_alive: "ev_inv g \<Longrightarrow> set (GetAliveNodes g) = {n. lists g n}"
  using ev_inv_alive_exact(3)[of g] by (simp add: lists_def getNodeState_def)

lemma lists_self: "ev_inv g \<Longrightarrow> lists g (g_name g)"
  using ev_inv_alive_exact(2)[of g] by (simp add: lists_alive)

end
