(* ===== verification/Network.thy ===== *)
theory Network
  imports Calm
begin

text \<open>
  Members that exchange packets: the handlers of \<^verbatim>\<open>class gossiper\<close> with the bytes they read and write, on a network that loses,
  repeats, reorders and misdelivers datagrams. Such a network implements the cluster of the theory \<open>Cluster\<close>, so what holds of
  every cluster holds of every network; and as long as dead memory reads as it was left, no packet that one member sends drives
  another one out of bounds.
\<close>

section \<open>Simulation\<close>

text \<open>
  Concrete steps that abstract runs simulate, as long as a condition holds of the concrete states; the condition is
  inherited from later states by earlier ones.
\<close>

locale simulation =
  fixes conc :: "'s \<Rightarrow> 's \<Rightarrow> bool"
    and abs :: "'a \<Rightarrow> 'a \<Rightarrow> bool"
    and R :: "'s \<Rightarrow> 'a \<Rightarrow> bool"
    and ok :: "'s \<Rightarrow> bool"
  assumes step_sim: "conc s s' \<Longrightarrow> R s a \<Longrightarrow> ok s' \<Longrightarrow> \<exists>a'. abs\<^sup>*\<^sup>* a a' \<and> R s' a'"
    and ok_back: "conc s s' \<Longrightarrow> ok s' \<Longrightarrow> ok s"
begin

lemma run_sim: "conc\<^sup>*\<^sup>* s s' \<Longrightarrow> R s a \<Longrightarrow> ok s' \<Longrightarrow> \<exists>a'. abs\<^sup>*\<^sup>* a a' \<and> R s' a'"
proof (induction rule: rtranclp_induct)
  case (step s1 s2)
  then obtain a1 where "abs\<^sup>*\<^sup>* a a1" "R s1 a1" using ok_back by blast
  moreover obtain a2 where "abs\<^sup>*\<^sup>* a1 a2" "R s2 a2" using step_sim[OF step.hyps(2) \<open>R s1 a1\<close> step.prems(2)] by blast
  ultimately show ?case by (meson rtranclp_trans)
qed blast

end

section \<open>The network\<close>

text \<open>
  The members; the datagrams and the synchronisation requests that were sent, and the responses with the requests they answer,
  which all stay there to be lost, repeated and overtaken; and for each probe the member, the node state and the sequence
  number its callbacks are bound to.
\<close>

record network =
  nt_members :: "gossiper list"
  nt_datagrams :: "bytes list"
  nt_probes :: "(nat \<times> node_state \<times> u64) list"
  nt_requests :: "(nat \<times> bytes) list"
  nt_responses :: "(bytes \<times> bytes) list"

definition no_network :: network where
  "no_network = \<lparr>nt_members = [], nt_datagrams = [], nt_probes = [], nt_requests = [], nt_responses = []\<rparr>"

definition become :: "network \<Rightarrow> nat \<Rightarrow> gossiper \<Rightarrow> network" where
  "become nw i g = nw\<lparr>nt_members := (nt_members nw)[i := g]\<rparr>"

lemma become_simps [simp]: "nt_datagrams (become nw i g) = nt_datagrams nw" "nt_probes (become nw i g) = nt_probes nw"
  "nt_requests (become nw i g) = nt_requests nw" "nt_responses (become nw i g) = nt_responses nw"
  "nt_members (become nw i g) = (nt_members nw)[i := g]"
  by (simp_all add: become_def)

text \<open>
  A member is started; its probe ticker calls \<^verbatim>\<open>probe\<close>, which sends no ping or one; its UDP server receives a datagram, of
  whatever kind, into its one buffer, and may answer; the client of a probe receives a datagram, or times out; a suspicion's timer
  expires; a member asks another one to synchronise, a session answers, and the response is read. Each host has its byte order \<open>le\<close> and
  its order \<open>ltr\<close> of evaluation, and its buffers hold anything. The rules exclude what the code leaves to chance, as in the theory
  \<open>Sync\<close>: the local of \<^verbatim>\<open>convert\<close> (the first \<open>id\<close>), the builder of an answer (\<open>(!)\<close>), the header of a session (the second \<open>id\<close>)
  and the send buffer of a ping are read unchanged although they are gone.
\<close>

inductive net_step :: "network \<Rightarrow> network \<Rightarrow> bool" where
  Net_start: "order_ok ord \<Longrightarrow> start_member conf ord indet id = Inr g \<Longrightarrow>
    net_step nw (nw\<lparr>nt_members := nt_members nw @ [g]\<rparr>)"
| Net_idle: "i < length (nt_members nw) \<Longrightarrow> probe (nt_members nw ! i) = Inr (None, g) \<Longrightarrow> net_step nw (become nw i g)"
| Net_probe: "i < length (nt_members nw) \<Longrightarrow> probe (nt_members nw ! i) = Inr (Some node, g) \<Longrightarrow> length fresh = mtu \<Longrightarrow>
    probeNode le ltr fresh g node = Inr ((ip, port, seq, d), g') \<Longrightarrow>
    net_step nw ((become nw i g')\<lparr>nt_datagrams := nt_datagrams nw @ [d], nt_probes := nt_probes nw @ [(i, node, seq)]\<rparr>)"
| Net_receive: "i < length (nt_members nw) \<Longrightarrow> d \<in> set (nt_datagrams nw) \<Longrightarrow> length (d @ rest) = mtu \<Longrightarrow>
    handlePacket id le ltr (nt_members nw ! i) (d @ rest) (length d) (d @ rest) mtu = Inr (n, g, data) \<Longrightarrow>
    net_step nw ((become nw i g)\<lparr>nt_datagrams := nt_datagrams nw @ (if n > 0 then [take (nat n) data] else [])\<rparr>)"
| Net_pong: "i < length (nt_members nw) \<Longrightarrow> (i, node, seq) \<in> set (nt_probes nw) \<Longrightarrow> d \<in> set (nt_datagrams nw) \<Longrightarrow>
    pong_received le (nt_members nw ! i) seq (d @ rest) (length d) = Inr g \<Longrightarrow> net_step nw (become nw i g)"
| Net_timeout: "i < length (nt_members nw) \<Longrightarrow> (i, node, seq) \<in> set (nt_probes nw) \<Longrightarrow>
    suspectNode (nt_members nw ! i) node = Inr g \<Longrightarrow> net_step nw (become nw i g)"
| Net_timer: "i < length (nt_members nw) \<Longrightarrow> k \<in> set (g_waits (nt_members nw ! i)) \<Longrightarrow>
    timer_handler (nt_members nw ! i) k = Inr g \<Longrightarrow> net_step nw (become nw i g)"
| Net_ask: "i < length (nt_members nw) \<Longrightarrow> sync_request le ltr (nt_members nw ! i) = Inr req \<Longrightarrow>
    net_step nw (nw\<lparr>nt_requests := nt_requests nw @ [(i, req)]\<rparr>)"
| Net_serve: "i < length (nt_members nw) \<Longrightarrow> (j, req) \<in> set (nt_requests nw) \<Longrightarrow> length (fst junk) = buff_size \<Longrightarrow>
    length (snd junk) = buff_size \<Longrightarrow>
    member_serves id le ltr (!) fresh id junk req (nt_members nw ! i) = Inr (resp, g, s) \<Longrightarrow>
    net_step nw ((become nw i g)\<lparr>nt_responses := nt_responses nw @ [(req, resp)]\<rparr>)"
| Net_answer: "i < length (nt_members nw) \<Longrightarrow> (i, req) \<in> set (nt_requests nw) \<Longrightarrow> (req, resp) \<in> set (nt_responses nw) \<Longrightarrow>
    sync_response id le (nt_members nw ! i) req resp = Inr g \<Longrightarrow> net_step nw (become nw i g)"

section \<open>Configurations stay\<close>

lemma merge_states_setup: "rfold (\<lambda>g. merge_state g bc) g msgs = Inr g' \<Longrightarrow> same_setup g g'"
proof (induction msgs arbitrary: g)
  case (Cons m msgs)
  then show ?case using merge_state_setup by (force simp: rbind_Inr_iff same_setup_def)
qed (simp add: same_setup_def)

lemma handlePacket_setup: "handlePacket moved le ltr g buff n resp sz = Inr (r, g', resp') \<Longrightarrow> same_setup g g'"
  using mergeStates_setup pong_response_frame
  by (fastforce simp: handlePacket_def rbind_Inr_iff Let_def same_setup_def split: if_splits)

lemma handleBody_setup: "handleBody moved le ltr freed g type buff n resp sz = Inr (r, g', resp') \<Longrightarrow> same_setup g g'"
  using mergeStates_setup send_body_frame by (fastforce simp: handleBody_def rbind_Inr_iff same_setup_def split: if_splits)

context session_handlers
begin

lemma session_step_good:
  "session_step handle_header handle_body fresh reread (st, s) c = Inr (st', s') \<Longrightarrow> good st \<Longrightarrow> good st'"
  by (cases c) (auto simp: rbind_Inr_iff Let_def split: session_op.splits dest: body_inv)

lemma serve_good: "serve n handle_header handle_body fresh reread inp (st, s) = Inr (out, st', s') \<Longrightarrow> good st \<Longrightarrow> good st'"
proof (induction n arbitrary: inp st s out)
  case (Suc n)
  then show ?case by (auto simp: rbind_Inr_iff) (metis session_step_good)
qed simp

end

interpretation tcp_setup: session_handlers "handleHeader le" "handleBody moved le ltr freed" fresh reread "same_setup g0"
  for moved le ltr freed fresh reread g0
proof
  show "same_setup g0 st'" if "same_setup g0 st" "handleBody moved le ltr freed st type buff n out sz = Inr (r, st', out')"
    for st type buff n out sz r st' out'
    using that handleBody_setup by (fastforce simp: same_setup_def)
qed (rule tcp_member.body_length)

lemma member_serves_setup: "member_serves moved le ltr freed fresh reread junk req g = Inr (resp, g', s) \<Longrightarrow> same_setup g g'"
  unfolding member_serves_def by (rule tcp_setup.serve_good) (auto simp: same_setup_def)

lemma pong_received_conf: "pong_received le g seq resp n = Inr g' \<Longrightarrow> g_conf g' = g_conf g"
  by (auto simp: pong_received_def rbind_Inr_iff split: if_splits)

lemma probeNode_conf: "probeNode le ltr fresh g node = Inr (x, g') \<Longrightarrow> g_conf g' = g_conf g"
  by (auto simp: probeNode_def generatePing_def appendGossipMsg_def nextSeqNum_def shrinkMaxAppendedMsg_def rbind_Inr_iff
      Let_def split: if_splits)

lemma sync_response_conf: "sync_response moved le g buff answer = Inr g' \<Longrightarrow> g_conf g' = g_conf g"
  using mergeStates_setup by (fastforce simp: sync_response_def rbind_Inr_iff Let_def same_setup_def split: if_splits)

lemma net_step_confs:
  assumes "net_step nw nw'"
  shows "\<exists>confs. map g_conf (nt_members nw') = map g_conf (nt_members nw) @ confs"
proof -
  have become: "map g_conf (nt_members (become nw i g)) = map g_conf (nt_members nw)"
    if "i < length (nt_members nw)" "g_conf g = g_conf (nt_members nw ! i)" for i g
    using that by (simp add: map_update list_update_same_conv)
  from assms show ?thesis
  proof cases
    case (Net_idle i g)
    then show ?thesis using become probe_setup by (simp add: same_setup_def)
  next
    case (Net_probe i node g fresh le ltr ip port seq d g')
    then show ?thesis using become probe_setup probeNode_conf by (simp add: same_setup_def)
  next
    case (Net_receive i d rest le ltr n g data)
    then show ?thesis using become handlePacket_setup by (simp add: same_setup_def)
  next
    case (Net_pong i node seq d le rest g)
    then show ?thesis using become pong_received_conf by simp
  next
    case (Net_timeout i node seq g)
    then show ?thesis using become suspectNode_setup by (simp add: same_setup_def)
  next
    case (Net_timer i k g)
    then show ?thesis using become member_step_setup[of _ "In_timer k"] by (simp add: same_setup_def)
  next
    case (Net_serve i j req junk le ltr fresh resp g s)
    then show ?thesis using become member_serves_setup by (simp add: same_setup_def)
  next
    case (Net_answer i req resp le g)
    then show ?thesis using become sync_response_conf by simp
  qed simp_all
qed

lemma net_confs:
  assumes "net_step\<^sup>*\<^sup>* nw nw'"
  shows "\<exists>confs. map g_conf (nt_members nw') = map g_conf (nt_members nw) @ confs"
  using assms
proof (induction rule: rtranclp_induct)
  case (step nw1 nw2)
  then show ?case using net_step_confs[OF step.hyps(2)] by auto
qed simp

section \<open>Clusters whose messages fit\<close>

text \<open>
  The configurations that the code has room for: names and addresses without null characters and of at most \<open>L\<close>
  characters together, and so few members that a table of entries about all of them fits the buffer of a session.
\<close>

definition conf_fits :: "nat \<Rightarrow> config \<Rightarrow> bool" where
  "conf_fits L conf \<longleftrightarrow> no_null (conf_Name conf) \<and> no_null (conf_Addr conf) \<and> length (conf_Name conf) + length (conf_Addr conf) \<le> L"

definition fits :: "nat \<Rightarrow> gossiper list \<Rightarrow> bool" where
  "fits L gs \<longleftrightarrow> L \<le> 1000 \<and> length gs * (L + 184) + 58 \<le> buff_size \<and> list_all (conf_fits L) (map g_conf gs)"

lemma fits_prefix:
  assumes "fits L gs'" "map g_conf gs' = map g_conf gs @ confs"
  shows "fits L gs"
proof -
  have "length gs \<le> length gs'" using arg_cong[OF assms(2), of length] by simp
  then have "length gs * (L + 184) \<le> length gs' * (L + 184)" by (rule mult_le_mono1)
  moreover have "length gs' * (L + 184) + 58 \<le> buff_size" using assms(1) by (simp add: fits_def)
  ultimately have "length gs * (L + 184) + 58 \<le> buff_size" by linarith
  then show ?thesis using assms unfolding fits_def by auto
qed

text \<open>What members of such a cluster say and hold.\<close>

definition sayable :: "nat \<Rightarrow> node_state \<Rightarrow> bool" where
  "sayable L st \<longleftrightarrow> sendable st \<and> ns_size st \<le> L"

interpretation sayings: told "sayable L" for L
  by standard (auto simp: sayable_def sendable_def ns_size_def)

lemma self_sayable: "conf_fits L (g_conf g) \<Longrightarrow> sayable L (self_state g d)"
  by (auto simp: sayable_def sendable_def ns_size_def conf_fits_def self_state_def no_null_def)

lemma cluster_step_fits: "cluster_step c c' \<Longrightarrow> fits L (cl_members c') \<Longrightarrow> fits L (cl_members c)"
  using cluster_step_confs fits_prefix by blast

lemma cluster_sayable:
  assumes "cluster_step\<^sup>*\<^sup>* no_members c" "fits L (cl_members c)"
  shows "cluster_held (sayable L) c"
  using assms
proof (induction rule: rtranclp_induct)
  case base
  show ?case by (simp add: cluster_held_def no_members_def)
next
  case (step c c')
  have "\<forall>g \<in> set (cl_members c'). sayable L (self_state g (g_dominant g))"
    using step.prems self_sayable by (simp add: fits_def list_all_iff)
  moreover have "cluster_held (sayable L) c" using step.IH cluster_step_fits[OF step.hyps(2) step.prems] .
  ultimately show ?case by (intro sayings.cluster_step_held[OF step.hyps(2)])
qed

definition cluster_limit :: "cluster \<Rightarrow> bool" where
  "cluster_limit c \<longleftrightarrow> (\<forall>g \<in> set (cl_members c). g_MAX_APPENDED_MSG g \<le> 10)"

lemma act_limit: "cluster_limit c \<Longrightarrow> g_MAX_APPENDED_MSG g \<le> 10 \<Longrightarrow> cluster_limit (act c i g)"
  using set_update_subset_insert[of "cl_members c" i g] by (auto simp: cluster_limit_def act_def)

lemma acting_limit:
  assumes "cluster_limit c" "i < length (cl_members c)" "member_step (cl_members c ! i) e = Inr g"
  shows "cluster_limit (act c i g)"
proof (rule act_limit[OF assms(1)])
  show "g_MAX_APPENDED_MSG g \<le> 10" using member_step_setup[OF assms(3)] assms(1,2) by (simp add: cluster_limit_def same_setup_def)
qed

lemma cluster_step_limit:
  assumes "cluster_step c c'" "cluster_limit c"
  shows "cluster_limit c'"
  using assms(1)
proof cases
  case (Starts ord conf indet g)
  then show ?thesis using assms(2) start_member_setup[OF Starts(2,3)] by (simp add: cluster_limit_def)
next
  case (Gossips i g n msgs q q')
  have "g_MAX_APPENDED_MSG g \<le> 10" using assms(2) Gossips(2,3) by (simp add: cluster_limit_def)
  then have "cluster_limit (act c i (g\<lparr>g_bc_queue := q'\<rparr>))" using act_limit[OF assms(2)] by simp
  then show ?thesis unfolding Gossips(1) by (simp add: cluster_limit_def)
next
  case (Counts i g m s)
  have "g_MAX_APPENDED_MSG g \<le> 10" using assms(2) Counts(2,3) by (simp add: cluster_limit_def)
  then show ?thesis unfolding Counts(1) using Counts(4) by (intro act_limit[OF assms(2)]) simp
next
  case (Ticks i candidate g)
  have "cluster_limit (act c i g)" using acting_limit[OF assms(2) Ticks(2), of In_tick g] Ticks(3) by simp
  then show ?thesis unfolding Ticks(1) by (simp add: cluster_limit_def)
next
  case (Hears i m bc g)
  then show ?thesis using acting_limit[OF assms(2) Hears(2), of "In_state bc m" g] by simp
next
  case (Objects i m)
  then show ?thesis using acting_limit[OF assms(2) Objects(2), of "In_dead_alert (ns_Dominant m)"] by simp
next
  case (Times_out i node g)
  then show ?thesis using acting_limit[OF assms(2) Times_out(2), of "In_ping_timeout node" g] by simp
next
  case (Expires i k g)
  then show ?thesis using acting_limit[OF assms(2) Expires(2), of "In_timer k" g] by simp
qed (use assms(2) in \<open>simp_all add: cluster_limit_def\<close>)

lemma cluster_run_limit: "cluster_step\<^sup>*\<^sup>* no_members c \<Longrightarrow> cluster_limit c"
proof (induction rule: rtranclp_induct)
  case base
  show ?case by (simp add: cluster_limit_def no_members_def)
qed (rule cluster_step_limit)

lemma msg_size_le: "\<forall>m \<in> set msgs. sayable L m \<Longrightarrow> msg_size msgs + 4 * length msgs \<le> length msgs * (L + 184)"
  by (induction msgs) (auto simp: msg_size_def sayable_def)

text \<open>So a ping has room for what is in the queue, and a session for the table.\<close>

lemma cluster_queue_ok:
  assumes "cluster_step\<^sup>*\<^sup>* no_members c" "fits L (cl_members c)" "g \<in> set (cl_members c)"
  shows "queue_ok g"
proof -
  have g: "ev_inv g" "held (sayable L) g" using cluster_sayable[OF assms(1,2)] assms(3) by (simp_all add: cluster_held_def)
  have "length (queue_msgs g) \<le> 10"
    using cluster_run_limit[OF assms(1)] assms(3) by (fastforce simp: queue_msgs_def cluster_limit_def)
  then have "length (queue_msgs g) * (L + 184) \<le> 10 * 1184" using assms(2) by (intro mult_le_mono) (simp_all add: fits_def)
  moreover have "set (queue_msgs g) \<subseteq> queued g"
    by (auto simp: queue_msgs_def queued_def rot_set[symmetric] dest: in_set_takeD)
  then have s: "\<forall>m \<in> set (queue_msgs g). sayable L m" using g(2) by (auto simp: held_def)
  then have "msg_size (queue_msgs g) + 4 * length (queue_msgs g) \<le> length (queue_msgs g) * (L + 184)" by (rule msg_size_le)
  ultimately have "msg_size (queue_msgs g) + 4 * length (queue_msgs g) + 400 \<le> max_size" by (simp add: max_size_def)
  then show ?thesis using ev_inv_idle[OF g(1)] s by (simp add: queue_ok_def list_all_iff sayable_def)
qed

lemma cluster_table_ok:
  assumes "cluster_step\<^sup>*\<^sup>* no_members c" "fits L (cl_members c)" "g \<in> set (cl_members c)"
  shows "table_ok g"
proof -
  have g: "ev_inv g" "held (sayable L) g" using cluster_sayable[OF assms(1,2)] assms(3) by (simp_all add: cluster_held_def)
  have wf: "um_wf (g_node_map g)" using ev_inv_g_inv[OF g(1)] by (simp add: g_inv_def)
  have "dom (g_find g) \<subseteq> g_name ` set (cl_members c)"
    using table_names[OF assms(1,3)] unfolding getNodeState_def by blast
  then have "card (dom (g_find g)) \<le> card (g_name ` set (cl_members c))" by (rule card_mono[rotated]) simp
  also have "\<dots> \<le> length (cl_members c)" by (meson card_image_le card_length finite_set le_trans)
  finally have "length (node_table g) \<le> length (cl_members c)"
    using um_size_dom[OF wf] by (simp add: node_table_def um_size_def)
  then have "length (node_table g) * (L + 184) \<le> length (cl_members c) * (L + 184)" by (rule mult_le_mono1)
  moreover have s: "\<forall>m \<in> set (node_table g). sayable L m" using g(2) by (auto simp: held_def)
  moreover have "length (cl_members c) * (L + 184) + 58 \<le> buff_size" using assms(2) by (simp add: fits_def)
  ultimately have "msg_size (node_table g) + 4 * length (node_table g) + 58 \<le> buff_size"
    using msg_size_le[OF s] by linarith
  then show ?thesis using s by (simp add: table_ok_def list_all_iff sayable_def HEADER_SIZE_def)
qed

section \<open>The network implements the cluster\<close>

text \<open>
  The members are the same, and every packet conveys node states that are on their way in the cluster. So does a pong that
  carries an alert; whoever receives it.
\<close>

definition conveys :: "cluster \<Rightarrow> bytes \<Rightarrow> bool" where
  "conveys c d \<longleftrightarrow> 0 < length d \<and> length d \<le> mtu \<and>
     ((\<exists>name seqNo msgs. ping_datagram d name seqNo msgs \<and> set msgs \<subseteq> set (cl_wire c)) \<or>
      (\<exists>ns. pong_datagram d ns \<and> set_option ns \<subseteq> set (cl_wire c)))"

definition syncs :: "cluster \<Rightarrow> bytes \<Rightarrow> bool" where
  "syncs c bs \<longleftrightarrow> (\<exists>msgs. sync_message bs msgs \<and> set msgs \<subseteq> set (cl_wire c))"

definition conveyed :: "network \<Rightarrow> cluster \<Rightarrow> bool" where
  "conveyed nw c \<longleftrightarrow> (\<forall>d \<in> set (nt_datagrams nw). conveys c d) \<and>
     (\<forall>(i, node, seq) \<in> set (nt_probes nw). (i, node) \<in> set (cl_pings c)) \<and>
     (\<forall>(i, req) \<in> set (nt_requests nw). syncs c req) \<and>
     (\<forall>(req, resp) \<in> set (nt_responses nw). syncs c req \<and> syncs c resp)"

definition implements :: "network \<Rightarrow> cluster \<Rightarrow> bool" where
  "implements nw c \<longleftrightarrow> cluster_step\<^sup>*\<^sup>* no_members c \<and> cl_members c = nt_members nw \<and> conveyed nw c"

lemma conveys_mono: "conveys c d \<Longrightarrow> set (cl_wire c) \<subseteq> set (cl_wire c') \<Longrightarrow> conveys c' d"
  unfolding conveys_def by blast

lemma syncs_mono: "syncs c bs \<Longrightarrow> set (cl_wire c) \<subseteq> set (cl_wire c') \<Longrightarrow> syncs c' bs"
  unfolding syncs_def by blast

lemma conveyed_mono:
  assumes "conveyed nw c" "set (cl_wire c) \<subseteq> set (cl_wire c')" "set (cl_pings c) \<subseteq> set (cl_pings c')"
  shows "conveyed nw c'"
  using assms(1) conveys_mono[OF _ assms(2)] syncs_mono[OF _ assms(2)] assms(3) unfolding conveyed_def by blast

lemma conveyed_frame [simp]:
  "conveyed (become nw i g) c = conveyed nw c" "conveyed nw (act c i g) = conveyed nw c"
  "conveyed (nw\<lparr>nt_members := gs\<rparr>) c = conveyed nw c" "conveyed nw (c\<lparr>cl_members := gs\<rparr>) = conveyed nw c"
  by (simp_all add: conveyed_def conveys_def syncs_def)

text \<open>Runs of the cluster that packets stand for: entries of a table are shown, a list of messages is heard, a ping is sent.\<close>

lemma act_same: "act c i (cl_members c ! i) = c"
  by (simp add: act_def)

lemma shows_run:
  assumes "i < length (cl_members c)" "set sts \<subseteq> set (node_table (cl_members c ! i))"
  shows "cluster_step\<^sup>*\<^sup>* c (c\<lparr>cl_wire := cl_wire c @ sts\<rparr>)"
  using assms
proof (induction sts arbitrary: c)
  case (Cons st sts)
  let ?c1 = "c\<lparr>cl_wire := cl_wire c @ [st]\<rparr>"
  have "cluster_step c ?c1" using Cons.prems by (intro Shows[of i c st]) auto
  moreover have "cluster_step\<^sup>*\<^sup>* ?c1 (?c1\<lparr>cl_wire := cl_wire ?c1 @ sts\<rparr>)" using Cons.prems by (intro Cons.IH) simp_all
  ultimately show ?case by (simp add: converse_rtranclp_into_rtranclp)
qed simp

lemma hears_run:
  assumes "i < length (cl_members c)" "set msgs \<subseteq> set (cl_wire c)"
    "rfold (\<lambda>g. merge_state g bc) (cl_members c ! i) msgs = Inr g"
  shows "cluster_step\<^sup>*\<^sup>* c (act c i g)"
  using assms
proof (induction msgs arbitrary: c)
  case (Cons m msgs)
  obtain g1 where g1: "merge_state (cl_members c ! i) bc m = Inr g1" "rfold (\<lambda>g. merge_state g bc) g1 msgs = Inr g"
    using Cons.prems(3) by (auto simp: rbind_Inr_iff)
  have "cluster_step c (act c i g1)" using Cons.prems(1,2) g1(1) by (intro Hears[of i c m bc g1]) simp_all
  moreover have "cluster_step\<^sup>*\<^sup>* (act c i g1) (act (act c i g1) i g)"
    using Cons.prems(1,2) g1(2) by (intro Cons.IH) (simp_all add: act_def)
  moreover have "act (act c i g1) i g = act c i g" by (simp add: act_def)
  ultimately show ?case by (simp add: converse_rtranclp_into_rtranclp)
next
  case Nil
  then show ?case using act_same[of c i] by simp
qed

lemma gossip_run:
  assumes "i < length (cl_members c)" "cl_members c ! i = g" "gossiped (g\<lparr>g_seq_num := s\<rparr>) g' msgs"
    "g' = g\<lparr>g_seq_num := s, g_bc_queue := q', g_MAX_APPENDED_MSG := m\<rparr>"
  shows "cluster_step\<^sup>*\<^sup>* c ((act c i g')\<lparr>cl_wire := cl_wire c @ msgs\<rparr>)"
proof -
  have m: "m \<le> g_MAX_APPENDED_MSG g" using assms(3,4) by (simp add: gossiped_def)
  have q: "(\<exists>q. peek_msgs (g_MAX_APPENDED_MSG g) (g_bc_queue g) = Inr (msgs, q) \<and> ApplyPeek q = Inr q') \<or>
      msgs = [] \<and> q' = g_bc_queue g"
    using assms(3,4) by (simp add: gossiped_def)
  then show ?thesis
  proof (elim disjE exE conjE)
    fix q assume q: "peek_msgs (g_MAX_APPENDED_MSG g) (g_bc_queue g) = Inr (msgs, q)" "ApplyPeek q = Inr q'"
    have g': "g' = (g\<lparr>g_bc_queue := q'\<rparr>)\<lparr>g_seq_num := s, g_MAX_APPENDED_MSG := m\<rparr>"
      unfolding assms(4) by (rule gossiper.equality) simp_all
    let ?c1 = "(act c i (g\<lparr>g_bc_queue := q'\<rparr>))\<lparr>cl_wire := cl_wire c @ msgs\<rparr>"
    have "cluster_step c ?c1" using assms(1,2) q by (intro Gossips) auto
    moreover have "cl_members ?c1 ! i = g\<lparr>g_bc_queue := q'\<rparr>" using assms(1) by (simp add: act_def)
    then have "cluster_step ?c1 (act ?c1 i ((g\<lparr>g_bc_queue := q'\<rparr>)\<lparr>g_seq_num := s, g_MAX_APPENDED_MSG := m\<rparr>))"
      using assms(1) m by (intro Counts) (simp_all add: act_def)
    moreover have "act ?c1 i ((g\<lparr>g_bc_queue := q'\<rparr>)\<lparr>g_seq_num := s, g_MAX_APPENDED_MSG := m\<rparr>) =
        (act c i g')\<lparr>cl_wire := cl_wire c @ msgs\<rparr>" unfolding g' by (rule cluster.equality) (simp_all add: act_def)
    ultimately show ?thesis by (simp add: converse_rtranclp_into_rtranclp)
  next
    assume q: "msgs = []" "q' = g_bc_queue g"
    have "cluster_step c (act c i (g\<lparr>g_seq_num := s, g_MAX_APPENDED_MSG := m\<rparr>))"
      using assms(1,2) m by (intro Counts) simp_all
    moreover have "g\<lparr>g_seq_num := s, g_MAX_APPENDED_MSG := m\<rparr> = g'" by (simp add: assms(4) q(2))
    ultimately show ?thesis by (simp add: q(1) act_def r_into_rtranclp)
  qed
qed

text \<open>What a member of such a cluster hears can be sent, and so can what it holds.\<close>

lemma wire_sendable:
  assumes "cluster_step\<^sup>*\<^sup>* no_members c" "fits L (cl_members c)" "set msgs \<subseteq> set (cl_wire c)"
  shows "list_all sendable msgs"
  using cluster_sayable[OF assms(1,2)] assms(3) by (auto simp: cluster_held_def sayable_def list_all_iff)

lemma entry_held:
  assumes "cluster_step\<^sup>*\<^sup>* no_members c" "fits L (cl_members c)" "g \<in> set (cl_members c)" "getNodeState g n = ns"
  shows "set_option ns \<subseteq> set (node_table g)" "alert_fits ns mtu"
proof -
  have g: "ev_inv g" "held (sayable L) g" using cluster_sayable[OF assms(1,2)] assms(3) by (simp_all add: cluster_held_def)
  have wf: "um_wf (g_node_map g)" using ev_inv_g_inv[OF g(1)] by (simp add: g_inv_def)
  show t: "set_option ns \<subseteq> set (node_table g)"
    using assms(4) node_table_find[OF wf] unfolding getNodeState_def by (cases ns) auto
  then have "sayable L st" if "ns = Some st" for st using g(2) that by (auto simp: held_def)
  then show "alert_fits ns mtu" using assms(2) by (force simp: alert_fits_def sayable_def fits_def mtu_def)
qed

text \<open>A step of the network that changes one member, which a run of the cluster stands for.\<close>

lemma implementsI:
  assumes "implements nw c" "cluster_step\<^sup>*\<^sup>* c c'" "cl_members c' = nt_members nw'" "conveyed nw' c'"
  shows "\<exists>c'. cluster_step\<^sup>*\<^sup>* c c' \<and> implements nw' c'"
  using assms unfolding implements_def by (meson rtranclp_trans)

lemma implements_become:
  assumes "implements nw c" "cluster_step\<^sup>*\<^sup>* c (act c i g)"
  shows "\<exists>c'. cluster_step\<^sup>*\<^sup>* c c' \<and> implements (become nw i g) c'"
  using assms by (intro implementsI[OF assms]) (simp_all add: implements_def act_def)

lemma probe_sends:
  assumes "implements nw c" "fits L (nt_members nw)" "i < length (nt_members nw)" "probe (nt_members nw ! i) = Inr (Some node, g)"
    "length fresh = mtu"
  obtains port d g' msgs where
    "probeNode le ltr fresh g node = Inr ((ns_IP node, port, g_seq_num g + 1, d), g')" "0 < length d" "length d \<le> mtu"
    "ping_datagram d (g_name g) (g_seq_num g + 1) msgs"
    "cluster_step\<^sup>*\<^sup>* c ((act c i g')\<lparr>cl_pings := cl_pings c @ [(i, node)], cl_wire := cl_wire c @ msgs\<rparr>)"
proof -
  have c: "cluster_step\<^sup>*\<^sup>* no_members c" "cl_members c = nt_members nw" using assms(1) by (simp_all add: implements_def)
  let ?c1 = "(act c i g)\<lparr>cl_pings := cl_pings c @ [(i, node)]\<rparr>"
  have s1: "cluster_step c ?c1" using Ticks[of i c "Some node" g] assms(3,4) c(2) by simp
  then have r1: "cluster_step\<^sup>*\<^sup>* no_members ?c1" using c(1) by (simp add: rtranclp.rtrancl_into_rtrancl)
  have "map g_conf (cl_members ?c1) = map g_conf (nt_members nw)"
    using assms(3) probe_setup[OF assms(4)] c(2) by (simp add: act_def map_update list_update_same_conv same_setup_def)
  then have f1: "fits L (cl_members ?c1)" using fits_prefix[OF assms(2), of "cl_members ?c1" "[]"] by simp
  have g: "g \<in> set (cl_members ?c1)" "cl_members ?c1 ! i = g" "i < length (cl_members ?c1)"
    using assms(3) c(2) by (simp_all add: act_def set_update_memI)
  have "sayable L node" using cluster_sayable[OF r1 f1] by (simp add: cluster_held_def)
  then obtain port where port: "stoi (ns_Port node) = Inr port" by (auto simp: sayable_def sendable_def stoi_port_string)
  let ?g = "g\<lparr>g_seq_num := g_seq_num g + 1\<rparr>"
  have "conf_fits L (g_conf g)" using f1 g(1) by (simp add: fits_def list_all_iff)
  moreover have "L \<le> 1000" using f1 by (simp add: fits_def)
  moreover have "queue_ok ?g" using cluster_queue_ok[OF r1 f1 g(1)] by (simp add: queue_ok_def queue_msgs_def)
  ultimately have ok: "queue_ok ?g" "no_null (g_name ?g)" "length (g_name ?g) \<le> 1000" "length fresh = 1460"
    using assms(5) by (simp_all add: conf_fits_def mtu_def)
  from generatePing_datagram[OF ok, of le ltr "g_seq_num g + 1"] obtain d g' rest msgs q m where
    d: "generatePing le ltr ?g (g_seq_num g + 1) fresh 1460 = Inr (int (length d), g', d @ rest)" "0 < length d"
      "length (d @ rest) = 1460" "g' = ?g\<lparr>g_bc_queue := q, g_MAX_APPENDED_MSG := m\<rparr>" "gossiped ?g g' msgs"
      "ping_datagram d (g_name ?g) (g_seq_num g + 1) msgs"
    by metis
  have "probeNode le ltr fresh g node = Inr ((ns_IP node, word_of_int port, g_seq_num g + 1, d), g')"
    using d(1) port by (simp add: probeNode_def nextSeqNum_def)
  moreover have "length d \<le> mtu" using d(3) by (simp add: mtu_def)
  moreover have "cluster_step\<^sup>*\<^sup>* ?c1 ((act ?c1 i g')\<lparr>cl_wire := cl_wire ?c1 @ msgs\<rparr>)"
    using gossip_run[OF g(3,2) d(5,4)] .
  moreover have "(act ?c1 i g')\<lparr>cl_wire := cl_wire ?c1 @ msgs\<rparr> =
      (act c i g')\<lparr>cl_pings := cl_pings c @ [(i, node)], cl_wire := cl_wire c @ msgs\<rparr>"
    by (rule cluster.equality) (simp_all add: act_def)
  ultimately show thesis using that[of "word_of_int port" d g' msgs] d(2,6) s1 by (simp add: converse_rtranclp_into_rtranclp)
qed

lemma net_probe_sim:
  assumes "implements nw c" "fits L (nt_members nw)" "i < length (nt_members nw)" "probe (nt_members nw ! i) = Inr (Some node, g)"
    "length fresh = mtu" "probeNode le ltr fresh g node = Inr ((ip, port, seq, d), g')"
  shows "\<exists>c'. cluster_step\<^sup>*\<^sup>* c c' \<and>
    implements ((become nw i g')\<lparr>nt_datagrams := nt_datagrams nw @ [d], nt_probes := nt_probes nw @ [(i, node, seq)]\<rparr>) c'"
proof -
  have c: "cl_members c = nt_members nw" "conveyed nw c" using assms(1) by (simp_all add: implements_def)
  obtain msgs where d: "0 < length d" "length d \<le> mtu" "ping_datagram d (g_name g) (g_seq_num g + 1) msgs"
    "cluster_step\<^sup>*\<^sup>* c ((act c i g')\<lparr>cl_pings := cl_pings c @ [(i, node)], cl_wire := cl_wire c @ msgs\<rparr>)"
    by (rule probe_sends[OF assms(1-5), of le ltr]) (use assms(6) in auto)
  let ?c = "(act c i g')\<lparr>cl_pings := cl_pings c @ [(i, node)], cl_wire := cl_wire c @ msgs\<rparr>"
  let ?nw = "(become nw i g')\<lparr>nt_datagrams := nt_datagrams nw @ [d], nt_probes := nt_probes nw @ [(i, node, seq)]\<rparr>"
  have "conveys ?c d" using d(1-3) unfolding conveys_def by auto
  moreover have "conveyed nw ?c" by (rule conveyed_mono[OF c(2)]) auto
  ultimately have "conveyed ?nw ?c" unfolding conveyed_def by auto
  then show ?thesis using d(4) by (intro implementsI[OF assms(1)]) (simp_all add: act_def c(1))
qed

lemma net_receive_sim:
  assumes "implements nw c" "fits L (nt_members nw)" "i < length (nt_members nw)" "d \<in> set (nt_datagrams nw)"
    "length (d @ rest) = mtu"
    "handlePacket id le ltr (nt_members nw ! i) (d @ rest) (length d) (d @ rest) mtu = Inr (n, g, data)"
  shows "\<exists>c'. cluster_step\<^sup>*\<^sup>* c c' \<and>
    implements ((become nw i g)\<lparr>nt_datagrams := nt_datagrams nw @ (if n > 0 then [take (nat n) data] else [])\<rparr>) c'"
proof -
  let ?g = "nt_members nw ! i"
  have c: "cluster_step\<^sup>*\<^sup>* no_members c" "cl_members c = nt_members nw" "conveyed nw c"
    using assms(1) by (simp_all add: implements_def)
  have f: "fits L (cl_members c)" and g: "?g \<in> set (cl_members c)" using assms(2,3) c(2) by simp_all
  from c(3) assms(4) have "conveys c d" unfolding conveyed_def by blast
  then consider (ping) name seqNo msgs where "ping_datagram d name seqNo msgs" "set msgs \<subseteq> set (cl_wire c)"
    | (pong) ns where "pong_datagram d ns" unfolding conveys_def by blast
  then show ?thesis
  proof cases
    case (pong ns)
    then have "n = 0" "g = ?g" using assms(6) by (simp_all add: pong_datagram_def)
    then show ?thesis using implements_become[OF assms(1), of i g] c(2) act_same[of c i]
      by (simp add: become_def)
  next
    case (ping name seqNo msgs)
    obtain ns where ns: "getNodeState ?g name = ns" by simp
    note held = entry_held[OF c(1) f g ns]
    from ping(1) assms(6) ns obtain h where h: "rfold (\<lambda>g. merge_state g True) ?g msgs = Inr h"
      "pong_response le ltr h ns seqNo (d @ rest) mtu = Inr (n, g, data)"
      by (auto simp: ping_datagram_def rbind_Inr_iff)
    have cap: "54 \<le> mtu" "mtu < 2 ^ 16" by (simp_all add: mtu_def)
    obtain e rest' where e: "pong_response le ltr h ns seqNo (d @ rest) mtu = Inr (int (length e), h, e @ rest')" "0 < length e"
      "length (e @ rest') = mtu" "pong_datagram e ns"
      by (rule pong_response_datagram[OF held(2) cap assms(5)])
    have r: "n = int (length e)" "g = h" "data = e @ rest'" using h(2) e(1) by simp_all
    obtain sts where sts: "set sts = set_option ns" "set sts \<subseteq> set (node_table ?g)"
      using held(1) that[of "case ns of None \<Rightarrow> [] | Some st \<Rightarrow> [st]"] by (cases ns) simp_all
    let ?c1 = "c\<lparr>cl_wire := cl_wire c @ sts\<rparr>"
    let ?nw = "(become nw i g)\<lparr>nt_datagrams := nt_datagrams nw @ [e]\<rparr>"
    have "cluster_step\<^sup>*\<^sup>* c ?c1" using shows_run[of i c sts] sts(2) assms(3) c(2) by simp
    moreover have "cluster_step\<^sup>*\<^sup>* ?c1 (act ?c1 i g)"
      using hears_run[of i ?c1 msgs True g] assms(3) c(2) ping(2) h(1) r(2) by auto
    ultimately have "cluster_step\<^sup>*\<^sup>* c (act ?c1 i g)" by (rule rtranclp_trans)
    moreover have "conveys (act ?c1 i g) e"
      using e(2,3,4) sts(1) unfolding conveys_def by auto
    then have "conveyed ?nw (act ?c1 i g)"
      using conveyed_mono[OF c(3), of "act ?c1 i g"] unfolding conveyed_def by auto
    ultimately have "\<exists>c'. cluster_step\<^sup>*\<^sup>* c c' \<and> implements ?nw c'"
      using implementsI[OF assms(1), of "act ?c1 i g" ?nw] c(2) by (simp add: act_def)
    then show ?thesis using r e(2) by simp
  qed
qed

lemma net_pong_sim:
  assumes "implements nw c" "i < length (nt_members nw)" "d \<in> set (nt_datagrams nw)"
    "pong_received le (nt_members nw ! i) seq (d @ rest) (length d) = Inr g"
  shows "\<exists>c'. cluster_step\<^sup>*\<^sup>* c c' \<and> implements (become nw i g) c'"
proof -
  let ?g = "nt_members nw ! i"
  have c: "cl_members c = nt_members nw" "conveyed nw c" using assms(1) by (simp_all add: implements_def)
  from c(2) assms(3) have "conveys c d" unfolding conveyed_def by blast
  then consider "g = ?g" | ns where "g = alerted ?g ns" "set_option ns \<subseteq> set (cl_wire c)"
    using assms(4) unfolding conveys_def ping_datagram_def pong_datagram_def by fastforce
  then have "g = ?g \<or> (\<exists>st \<in> set (cl_wire c). g = fuckyou ?g (ns_Dominant st) \<and> ns_State st = STATE_DEAD \<and> ns_Name st = g_name ?g)"
    by cases (auto simp: alerted_def split: option.splits if_splits)
  then have "cluster_step\<^sup>*\<^sup>* c (act c i g)"
    using Objects[of i c] assms(2) c(1) act_same[of c i] by (auto intro: r_into_rtranclp)
  then show ?thesis by (rule implements_become[OF assms(1)])
qed

lemma net_ask_sim:
  assumes "implements nw c" "fits L (nt_members nw)" "i < length (nt_members nw)" "sync_request le ltr (nt_members nw ! i) = Inr req"
  shows "\<exists>c'. cluster_step\<^sup>*\<^sup>* c c' \<and> implements (nw\<lparr>nt_requests := nt_requests nw @ [(i, req)]\<rparr>) c'"
proof -
  let ?g = "nt_members nw ! i"
  have c: "cluster_step\<^sup>*\<^sup>* no_members c" "cl_members c = nt_members nw" "conveyed nw c"
    using assms(1) by (simp_all add: implements_def)
  have "table_ok ?g" using cluster_table_ok[OF c(1)] assms(2,3) c(2) by simp
  then have req: "sync_message req (node_table ?g)" using sync_request_ok[of ?g le ltr] assms(4) by fastforce
  let ?c = "c\<lparr>cl_wire := cl_wire c @ node_table ?g\<rparr>" and ?nw = "nw\<lparr>nt_requests := nt_requests nw @ [(i, req)]\<rparr>"
  have "cluster_step\<^sup>*\<^sup>* c ?c" using shows_run[of i c "node_table ?g"] assms(3) c(2) by simp
  moreover have "syncs ?c req" using req unfolding syncs_def by auto
  then have "conveyed ?nw ?c" using conveyed_mono[OF c(3), of ?c] unfolding conveyed_def by auto
  ultimately show ?thesis by (intro implementsI[OF assms(1)]) (simp_all add: c(2))
qed

lemma merged_table_ok:
  assumes "cluster_step\<^sup>*\<^sup>* no_members c" "fits L (cl_members c)" "i < length (cl_members c)" "set msgs \<subseteq> set (cl_wire c)"
    "rfold (\<lambda>g. merge_state g bc) (cl_members c ! i) msgs = Inr h"
  shows "cluster_step\<^sup>*\<^sup>* c (act c i h)" "table_ok h"
proof -
  show run: "cluster_step\<^sup>*\<^sup>* c (act c i h)" by (rule hears_run[OF assms(3-5)])
  then have r1: "cluster_step\<^sup>*\<^sup>* no_members (act c i h)" using assms(1) by (rule rtranclp_trans[rotated])
  have "map g_conf (cl_members (act c i h)) = map g_conf (cl_members c)"
    using merge_states_setup[OF assms(5)] assms(3) by (simp add: act_def map_update list_update_same_conv same_setup_def)
  then have f1: "fits L (cl_members (act c i h))" using fits_prefix[OF assms(2), of "cl_members (act c i h)" "[]"] by simp
  have "h \<in> set (cl_members (act c i h))" using assms(3) by (simp add: act_def set_update_memI)
  then show "table_ok h" using cluster_table_ok[OF r1 f1] by blast
qed

lemma net_serve_sim:
  assumes "implements nw c" "fits L (nt_members (become nw i g))" "i < length (nt_members nw)" "(j, req) \<in> set (nt_requests nw)"
    "length (snd junk) = buff_size"
    "member_serves id le ltr (!) fresh id junk req (nt_members nw ! i) = Inr (resp, g, s)"
  shows "\<exists>c'. cluster_step\<^sup>*\<^sup>* c c' \<and> implements ((become nw i g)\<lparr>nt_responses := nt_responses nw @ [(req, resp)]\<rparr>) c'"
proof -
  let ?g = "nt_members nw ! i"
  have c: "cluster_step\<^sup>*\<^sup>* no_members c" "cl_members c = nt_members nw" "conveyed nw c"
    using assms(1) by (simp_all add: implements_def)
  have "map g_conf (nt_members (become nw i g)) = map g_conf (nt_members nw)"
    using member_serves_setup[OF assms(6)] assms(3) by (simp add: map_update list_update_same_conv same_setup_def)
  then have f: "fits L (cl_members c)" using fits_prefix[OF assms(2), of "nt_members nw" "[]"] c(2) by simp
  have sy: "syncs c req" using c(3) assms(4) unfolding conveyed_def by blast
  then obtain msgs where m: "sync_message req msgs" "set msgs \<subseteq> set (cl_wire c)" unfolding syncs_def by blast
  have snd: "list_all sendable msgs" using wire_sendable[OF c(1) f m(2)] .
  obtain h where h: "rfold (\<lambda>g. merge_state g True) ?g msgs = Inr h"
    using member_serves_fault[OF m(1) snd] assms(6) by (cases "rfold (\<lambda>g. merge_state g True) ?g msgs") auto
  have run: "cluster_step\<^sup>*\<^sup>* c (act c i h)" "table_ok h"
    using merged_table_ok[of c L i msgs True h] c(1,2) f assms(3) m(2) h by simp_all
  have hm: "cl_members (act c i h) ! i = h" "i < length (cl_members (act c i h))" using assms(3) c(2) by (simp_all add: act_def)
  from run(2)
  obtain resp' s' where "member_serves id le ltr (!) fresh id junk req ?g = Inr (resp', h, s')" "sync_message resp' (node_table h)"
    using member_serves_merge[OF m(1) snd h _ assms(5)] by blast
  then have r: "g = h" "sync_message resp (node_table h)" using assms(6) by simp_all
  let ?c = "(act c i h)\<lparr>cl_wire := cl_wire c @ node_table h\<rparr>"
  let ?nw = "(become nw i g)\<lparr>nt_responses := nt_responses nw @ [(req, resp)]\<rparr>"
  have "cluster_step\<^sup>*\<^sup>* (act c i h) ?c" using shows_run[OF hm(2), of "node_table h"] hm(1) by simp
  then have "cluster_step\<^sup>*\<^sup>* c ?c" using run(1) by (rule rtranclp_trans[rotated])
  moreover have "syncs ?c resp" using r(2) unfolding syncs_def by auto
  then have "conveyed ?nw ?c"
    using conveyed_mono[OF c(3), of ?c] syncs_mono[OF sy, of ?c] unfolding conveyed_def by auto
  ultimately show ?thesis by (intro implementsI[OF assms(1)]) (simp_all add: act_def c(2) r(1))
qed

lemma net_answer_sim:
  assumes "implements nw c" "fits L (nt_members nw)" "i < length (nt_members nw)" "(req, resp) \<in> set (nt_responses nw)"
    "sync_response id le (nt_members nw ! i) req resp = Inr g"
  shows "\<exists>c'. cluster_step\<^sup>*\<^sup>* c c' \<and> implements (become nw i g) c'"
proof -
  have c: "cluster_step\<^sup>*\<^sup>* no_members c" "cl_members c = nt_members nw" "conveyed nw c"
    using assms(1) by (simp_all add: implements_def)
  have sy: "syncs c req" "syncs c resp" using c(3) assms(4) unfolding conveyed_def by blast+
  then obtain msgs where m: "sync_message resp msgs" "set msgs \<subseteq> set (cl_wire c)" unfolding syncs_def by blast
  have "HEADER_SIZE \<le> length req" using sy(1) by (auto simp: syncs_def sync_message_def HEADER_SIZE_def)
  moreover have "list_all sendable msgs" using wire_sendable[OF c(1) _ m(2)] assms(2) c(2) by simp
  ultimately have "rfold (\<lambda>g. merge_state g False) (nt_members nw ! i) msgs = Inr g"
    using sync_response_merge[OF m(1)] assms(5) by simp
  then have "cluster_step\<^sup>*\<^sup>* c (act c i g)" using hears_run[of i c msgs False g] assms(3) c(2) m(2) by simp
  then show ?thesis by (rule implements_become[OF assms(1)])
qed

lemma net_step_sim:
  assumes "net_step nw nw'" "implements nw c" "fits L (nt_members nw')"
  shows "\<exists>c'. cluster_step\<^sup>*\<^sup>* c c' \<and> implements nw' c'"
proof -
  have f: "fits L (nt_members nw)" using net_step_confs[OF assms(1)] fits_prefix[OF assms(3)] by blast
  have c: "cl_members c = nt_members nw" "conveyed nw c" using assms(2) by (simp_all add: implements_def)
  from assms(1) show ?thesis
  proof cases
    case (Net_start ord conf indet g)
    have "cluster_step c (c\<lparr>cl_members := cl_members c @ [g]\<rparr>)" using Net_start(2,3) by (rule Starts)
    then show ?thesis unfolding Net_start(1) using c
      by (intro implementsI[OF assms(2), of "c\<lparr>cl_members := cl_members c @ [g]\<rparr>"]) simp_all
  next
    case (Net_idle i g)
    have "cluster_step c (act c i g)" using Ticks[of i c None g] Net_idle(2,3) c(1) by (simp add: act_def)
    then show ?thesis unfolding Net_idle(1) by (intro implements_become[OF assms(2)]) (rule r_into_rtranclp)
  next
    case (Net_probe i node g fresh le ltr ip port seq d g')
    then show ?thesis using net_probe_sim[OF assms(2) f] by blast
  next
    case (Net_receive i d rest le ltr n g data)
    then show ?thesis using net_receive_sim[OF assms(2) f] by blast
  next
    case (Net_pong i node seq d le rest g)
    then show ?thesis using net_pong_sim[OF assms(2)] by blast
  next
    case (Net_timeout i node seq g)
    then have "(i, node) \<in> set (cl_pings c)" using c(2) unfolding conveyed_def by blast
    then have "cluster_step c (act c i g)" using Times_out[of i c node g] Net_timeout(2,4) c(1) by simp
    then show ?thesis unfolding Net_timeout(1) by (intro implements_become[OF assms(2)]) (rule r_into_rtranclp)
  next
    case (Net_timer i k g)
    have "cluster_step c (act c i g)" using Expires[of i c k g] Net_timer(2-4) c(1) by simp
    then show ?thesis unfolding Net_timer(1) by (intro implements_become[OF assms(2)]) (rule r_into_rtranclp)
  next
    case (Net_ask i le ltr req)
    then show ?thesis using net_ask_sim[OF assms(2) f] by blast
  next
    case (Net_serve i j req junk le ltr fresh resp g s)
    then show ?thesis using net_serve_sim[OF assms(2) _ Net_serve(2,3,5,6)] assms(3) by simp
  next
    case (Net_answer i req resp le g)
    then show ?thesis using net_answer_sim[OF assms(2) f] by blast
  qed
qed

interpretation net: simulation net_step cluster_step implements "\<lambda>nw. fits L (nt_members nw)" for L
proof
  show "\<exists>c'. cluster_step\<^sup>*\<^sup>* c c' \<and> implements nw' c'" if "net_step nw nw'" "implements nw c" "fits L (nt_members nw')" for nw nw' c
    using that by (rule net_step_sim)
  show "fits L (nt_members nw)" if "net_step nw nw'" "fits L (nt_members nw')" for nw nw'
    using net_step_confs[OF that(1)] fits_prefix[OF that(2)] by blast
qed

lemma no_network_implements: "implements no_network no_members"
  by (simp add: implements_def conveyed_def no_network_def no_members_def)

lemma net_implements:
  assumes "net_step\<^sup>*\<^sup>* no_network nw" "fits L (nt_members nw)"
  obtains c where "implements nw c"
  using net.run_sim[OF assms(1) no_network_implements assms(2)] by blast

section \<open>No packet faults\<close>

text \<open>Where nothing is suspected, merging never faults.\<close>

interpretation calm_merging: total_machine "\<lambda>g. merge_state g bc" ev_inv "\<lambda>st :: node_state. ns_State st \<noteq> STATE_SUSPECT" for bc
proof
  fix g and st :: node_state assume g: "ev_inv g" and st: "ns_State st \<noteq> STATE_SUSPECT"
  have "um_wf (g_node_map g)" using ev_inv_g_inv[OF g] by (simp add: g_inv_def)
  then show "is_ok (merge_state g bc st)"
    using st by (simp add: merge_state_def aliveNode_cases deadNode_cases split: STATE.splits)
qed (rule merge_step_ev_inv)

lemma implements_merges:
  assumes "implements nw c" "i < length (nt_members nw)" "set msgs \<subseteq> set (cl_wire c)"
  obtains h where "rfold (\<lambda>g. merge_state g bc) (nt_members nw ! i) msgs = Inr h"
proof -
  have c: "cluster_step\<^sup>*\<^sup>* no_members c" "cl_members c = nt_members nw" using assms(1) by (simp_all add: implements_def)
  have "cluster_calm c" using cluster_run_calm[OF c(1) no_members_calm] .
  then have "list_all (\<lambda>st. ns_State st \<noteq> STATE_SUSPECT) msgs" using assms(3) by (auto simp: cluster_calm_def list_all_iff)
  moreover have "ev_inv (nt_members nw ! i)" using cluster_ev_inv[OF c(1)] assms(2) c(2) by simp
  ultimately show thesis using calm_merging.run_ok that unfolding is_ok_iff by blast
qed

lemma datagram_ok:
  assumes "implements nw c" "fits L (nt_members nw)" "i < length (nt_members nw)" "d \<in> set (nt_datagrams nw)"
  shows "length (d @ rest) = mtu \<Longrightarrow> is_ok (handlePacket id le ltr (nt_members nw ! i) (d @ rest) (length d) (d @ rest) mtu)"
    "is_ok (pong_received le (nt_members nw ! i) seq (d @ rest) (length d))"
proof -
  let ?g = "nt_members nw ! i"
  have c: "cluster_step\<^sup>*\<^sup>* no_members c" "cl_members c = nt_members nw" "conveyed nw c"
    using assms(1) by (simp_all add: implements_def)
  from c(3) assms(4) have "conveys c d" unfolding conveyed_def by blast
  then consider (ping) name seqNo msgs where "ping_datagram d name seqNo msgs" "set msgs \<subseteq> set (cl_wire c)"
    | (pong) ns where "pong_datagram d ns" unfolding conveys_def by blast
  then have "(length (d @ rest) = mtu \<longrightarrow> is_ok (handlePacket id le ltr ?g (d @ rest) (length d) (d @ rest) mtu)) \<and>
      is_ok (pong_received le ?g seq (d @ rest) (length d))"
  proof cases
    case (ping name seqNo msgs)
    obtain h where h: "rfold (\<lambda>g. merge_state g True) ?g msgs = Inr h" by (rule implements_merges[OF assms(1,3) ping(2)])
    have fits: "alert_fits (getNodeState ?g name) mtu" using entry_held(2)[OF c(1) _ _ refl] assms(2,3) c(2) by simp
    have cap: "54 \<le> mtu" "mtu < 2 ^ 16" by (simp_all add: mtu_def)
    have "is_ok (pong_response le ltr h (getNodeState ?g name) seqNo (d @ rest) mtu)" if "length (d @ rest) = mtu"
      by (rule pong_response_datagram[OF fits cap that, of le ltr h seqNo]) simp
    then show ?thesis using ping(1) h by (simp add: ping_datagram_def)
  qed (simp add: pong_datagram_def)
  then show "length (d @ rest) = mtu \<Longrightarrow> is_ok (handlePacket id le ltr ?g (d @ rest) (length d) (d @ rest) mtu)"
    "is_ok (pong_received le ?g seq (d @ rest) (length d))" by blast+
qed

lemma serves_ok:
  assumes "implements nw c" "fits L (nt_members nw)" "i < length (nt_members nw)" "(j, req) \<in> set (nt_requests nw)"
    "length (snd junk) = buff_size"
  shows "is_ok (member_serves id le ltr (!) fresh id junk req (nt_members nw ! i))"
proof -
  have c: "cluster_step\<^sup>*\<^sup>* no_members c" "cl_members c = nt_members nw" "conveyed nw c"
    using assms(1) by (simp_all add: implements_def)
  obtain msgs where m: "sync_message req msgs" "set msgs \<subseteq> set (cl_wire c)"
    using c(3) assms(4) unfolding conveyed_def syncs_def by blast
  obtain h where h: "rfold (\<lambda>g. merge_state g True) (nt_members nw ! i) msgs = Inr h" by (rule implements_merges[OF assms(1,3) m(2)])
  have "table_ok h" using merged_table_ok(2)[of c L i msgs True h] c(1,2) assms(2,3) m(2) h by simp
  moreover have "list_all sendable msgs" using wire_sendable[OF c(1) _ m(2)] assms(2) c(2) by simp
  ultimately show ?thesis using member_serves_merge[OF m(1) _ h _ assms(5)] by (fastforce simp: is_ok_iff)
qed

lemma answer_ok:
  assumes "implements nw c" "fits L (nt_members nw)" "i < length (nt_members nw)" "(req, resp) \<in> set (nt_responses nw)"
  shows "is_ok (sync_response id le (nt_members nw ! i) req resp)"
proof -
  have c: "cluster_step\<^sup>*\<^sup>* no_members c" "cl_members c = nt_members nw" "conveyed nw c"
    using assms(1) by (simp_all add: implements_def)
  have sy: "syncs c req" "syncs c resp" using c(3) assms(4) unfolding conveyed_def by blast+
  then obtain msgs where m: "sync_message resp msgs" "set msgs \<subseteq> set (cl_wire c)" unfolding syncs_def by blast
  obtain h where h: "rfold (\<lambda>g. merge_state g False) (nt_members nw ! i) msgs = Inr h" by (rule implements_merges[OF assms(1,3) m(2)])
  have "HEADER_SIZE \<le> length req" using sy(1) by (auto simp: syncs_def sync_message_def HEADER_SIZE_def)
  moreover have "list_all sendable msgs" using wire_sendable[OF c(1) _ m(2)] assms(2) c(2) by simp
  ultimately show ?thesis using sync_response_merge[OF m(1)] h by simp
qed

section \<open>Dead memory that holds anything\<close>

text \<open>
  Handling stays within bounds whatever the values are that two of the reads of dead memory give: the state that \<^verbatim>\<open>convert\<close>
  refers to, where all that can happen is that a wrong SUSPECT state meets a node count of 0, and the bytes of an answer.
\<close>

definition harmless :: "'a result \<Rightarrow> bool" where
  "harmless r \<longleftrightarrow> is_ok r \<or> r = Inl BadConversion"

lemma harmless_simps [simp]: "harmless (Inr x)" "harmless (Inl f) \<longleftrightarrow> f = BadConversion"
  by (simp_all add: harmless_def)

lemma harmless_rbind: "harmless r \<Longrightarrow> (\<And>x. r = Inr x \<Longrightarrow> harmless (f x)) \<Longrightarrow> harmless (rbind r f)"
  by (cases r) simp_all

lemma merge_state_harmless:
  assumes "ev_inv g"
  shows "harmless (merge_state g bc st)"
proof (cases "merge_state g bc st")
  case (Inl f)
  with member_step_fault[OF assms, of "In_state bc st" f] show ?thesis by simp
qed simp

lemma mergeStates_harmless:
  assumes "ev_inv g" "is_ok (mergeStates id g0 m bc)"
  shows "harmless (mergeStates moved g m bc)"
proof -
  obtain nss where nss: "fss_nodes m = Some nss" using assms(2) by (cases "fss_nodes m") (simp_all add: mergeStates_def of_option_def)
  have "list_all (\<lambda>ns. is_ok (convert ns)) nss"
    using assms(2) unfolding mergeStates_def nss of_option_def
    by (simp add: is_ok_iff) (induction nss arbitrary: g0, simp_all add: rbind_Inr_iff is_ok_iff, blast)
  then have "harmless (rfold (\<lambda>g ns. rbind (convert ns) (\<lambda>st. merge_state g bc (moved st))) g nss)"
    using assms(1)
  proof (induction nss arbitrary: g)
    case (Cons ns nss)
    then obtain st where "convert ns = Inr st" by (auto simp: is_ok_iff)
    then show ?case using Cons merge_state_harmless[OF Cons.prems(2)] merge_step_ev_inv
      by (auto intro!: harmless_rbind)
  qed simp
  then show ?thesis by (simp add: mergeStates_def nss of_option_def)
qed

lemma pong_response_any:
  "is_ok (pong_response le ltr g ns seqNo resp cap) \<Longrightarrow> is_ok (pong_response le ltr g' ns seqNo resp cap)"
proof -
  have rbind: "is_ok (rbind r f) \<longleftrightarrow> (\<exists>x. r = Inr x \<and> is_ok (f x))" for r :: "'a result" and f :: "'a \<Rightarrow> 'b result"
    by (cases r) simp_all
  assume "is_ok (pong_response le ltr g ns seqNo resp cap)"
  then show ?thesis
    by (cases "encode_pong seqNo") (simp_all add: pong_response_def Let_def rbind split: if_splits prod.splits)
qed

lemma handlePacket_harmless:
  assumes "ev_inv g" "is_ok (handlePacket id le ltr g buff n resp cap)"
  shows "harmless (handlePacket moved le ltr g buff n resp cap)"
proof -
  obtain header where header: "DecodeHeader le buff 0 = Inr header" using assms(2) by (auto simp: handlePacket_def is_ok_iff rbind_Inr_iff)
  show ?thesis
  proof (cases "h_Type header = TYPE_PING")
    case True
    then obtain ping frm where ping: "decode_ping buff HEADER_SIZE = Inr ping" "pi_from ping = Some frm"
      using assms(2) by (auto simp: handlePacket_def is_ok_iff rbind_Inr_iff header of_option_def split: option.splits)
    let ?m = "GetNodeStates buff (HEADER_SIZE + unat (h_Body_length header))"
    let ?r = "\<lambda>moved. if packet_length header < n then rbind ?m (\<lambda>m. mergeStates moved g m True) else Inr g"
    let ?pong = "\<lambda>g'. pong_response le ltr g' (getNodeState g frm) (pi_seqNo ping) resp cap"
    have eq: "handlePacket moved le ltr g buff n resp cap = rbind (?r moved) ?pong" for moved
      using True by (simp add: handlePacket_def header ping of_option_def Let_def)
    obtain g1 x where g1: "?r id = Inr g1" "?pong g1 = Inr x" using assms(2) unfolding eq is_ok_iff rbind_Inr_iff by blast
    have "harmless (?r moved)"
    proof (cases "packet_length header < n")
      case True
      then obtain m where "?m = Inr m" "is_ok (mergeStates id g m True)" using g1(1) by (auto simp: rbind_Inr_iff is_ok_iff)
      then show ?thesis using mergeStates_harmless[OF assms(1)] True by simp
    qed simp
    moreover have "is_ok (?pong g2)" for g2 by (rule pong_response_any[of _ _ g1]) (simp add: g1(2))
    ultimately show ?thesis unfolding eq by (intro harmless_rbind) (simp_all add: harmless_def)
  qed (simp add: handlePacket_def header)
qed

lemma sync_response_harmless:
  assumes "ev_inv g" "is_ok (sync_response id le g buff answer)"
  shows "harmless (sync_response moved le g buff answer)"
proof -
  obtain buff' header m where h: "\<not> length answer < HEADER_SIZE" "buf_write buff 0 (take HEADER_SIZE answer) = Inr buff'"
    "DecodeHeader le buff' 0 = Inr header" "\<not> length answer < HEADER_SIZE + unat (h_Body_length header)"
    "GetNodeStates (take (unat (h_Body_length header)) (drop HEADER_SIZE answer)) 0 = Inr m" "is_ok (mergeStates id g m False)"
    using assms(2) by (auto simp: sync_response_def is_ok_iff rbind_Inr_iff Let_def split: if_splits)
  then show ?thesis using mergeStates_harmless[OF assms(1) h(6)] by (simp add: sync_response_def Let_def)
qed

text \<open>Sessions that differ in what they answer, or are going to.\<close>

definition alike :: "Session \<Rightarrow> Session \<Rightarrow> bool" where
  "alike s s' \<longleftrightarrow> s_header_size s' = s_header_size s \<and> s_in_buff s' = s_in_buff s \<and> length (s_out_buff s') = length (s_out_buff s) \<and>
     (s_op s' = s_op s \<or> (\<exists>a b. s_op s = Writing a \<and> s_op s' = Writing b))"

lemma rbind_out:
  assumes "rbind a f = Inr (r, g, out1)"
    "\<And>x. f x = Inr (r, g, out1) \<Longrightarrow> \<exists>out2. f' x = Inr (r, g, out2) \<and> length out2 = length out1"
  shows "\<exists>out2. rbind a f' = Inr (r, g, out2) \<and> length out2 = length out1"
  using assms by (cases a) simp_all

lemma handleBody_freed:
  assumes "handleBody moved le ltr freed g ty buff n out cap = Inr (r, g', out1)" "length out' = length out"
  shows "\<exists>out2. handleBody moved le ltr freed' g ty buff n out' cap = Inr (r, g', out2) \<and> length out2 = length out1"
proof -
  have *: "\<exists>out2. send_body le freed' ty h body out' cap = Inr (r, g', out2) \<and> length out2 = length out1"
    if "send_body le freed ty h body out cap = Inr (r, g', out1)" for ty h body
    using that assms(2)
    by (auto simp: send_body_def EncodeHeader_wire buf_write_def HEADER_SIZE_def Let_def split: if_splits)
  consider "ty = TYPE_PING" | "ty \<noteq> TYPE_PING" "ty = TYPE_SYNCSTATE" using assms(1) by (auto simp: handleBody_def split: if_splits)
  then show ?thesis
  proof cases
    case 1
    then have "handleBody moved le ltr freed g ty buff n out cap = rbind (rbind (GetRoot buff 0) (\<lambda>p. GetField buff p 4 (0 :: u64)))
        (\<lambda>seqNo. rbind (encode_pong seqNo) (\<lambda>body. send_body le freed TYPE_PONG g body out cap))" for freed out
      by (simp add: handleBody_def)
    with assms(1) show ?thesis by (simp only:) (elim rbind_out *)
  next
    case 2
    then have "handleBody moved le ltr freed g ty buff n out cap = rbind (GetNodeStates buff 0) (\<lambda>m. rbind (mergeStates moved g m True) (\<lambda>g1.
        rbind (encodeLocalState ltr g1) (\<lambda>body. send_body le freed TYPE_SYNCSTATE g1 body out cap)))" for freed out
      by (simp add: handleBody_def)
    with assms(1) show ?thesis by (simp only:) (elim rbind_out *)
  qed
qed

lemma session_step_alike:
  assumes "session_step (handleHeader le) (handleBody moved le ltr freed) fresh reread (g, s) c = Inr (g', s1)" "alike s s'"
  shows "\<exists>s2. session_step (handleHeader le) (handleBody moved le ltr freed') fresh reread (g, s') c = Inr (g', s2) \<and> alike s1 s2"
proof (cases c)
  case (Completed data)
  show ?thesis
  proof (cases "s_op s")
    case (Reading_body header)
    let ?h = "reread header"
    let ?in = "s_in_buff (received data s)"
    obtain r out1 where b: "handleBody moved le ltr freed g (h_Type ?h) ?in (unat (h_Body_length ?h)) (s_out_buff s) buff_size = Inr (r, g', out1)"
      "s1 = doWriteResponse (ucast r) ((received data s)\<lparr>s_out_buff := out1\<rparr>)"
      using assms(1) Completed Reading_body by (auto simp: rbind_Inr_iff Let_def received_def)
    have a: "s_op s' = Reading_body header" "s_in_buff s' = s_in_buff s" "length (s_out_buff s') = length (s_out_buff s)"
      using assms(2) Reading_body by (auto simp: alike_def)
    then have "s_in_buff (received data s') = ?in" "s_out_buff (received data s') = s_out_buff s'" by (simp_all add: received_def)
    moreover obtain out2 where out2: "handleBody moved le ltr freed' g (h_Type ?h) ?in (unat (h_Body_length ?h)) (s_out_buff s') buff_size = Inr (r, g', out2)"
      "length out2 = length out1" using handleBody_freed[OF b(1) a(3), of freed'] by blast
    ultimately have "session_step (handleHeader le) (handleBody moved le ltr freed') fresh reread (g, s') c =
        Inr (g', doWriteResponse (ucast r) ((received data s')\<lparr>s_out_buff := out2\<rparr>))"
      unfolding Completed session_step.simps a(1) by (simp add: Let_def)
    moreover have "alike s1 (doWriteResponse (ucast r) ((received data s')\<lparr>s_out_buff := out2\<rparr>))"
      using b(2) assms(2) out2(2) by (simp add: alike_def doWriteResponse_def received_def)
    ultimately show ?thesis by blast
  qed (use assms Completed in \<open>auto simp: alike_def received_def doReadBody_def rbind_Inr_iff\<close>)
qed (use assms in \<open>auto simp: alike_def\<close>)

lemma serve_alike:
  assumes "is_ok (serve n (handleHeader le) (handleBody moved le ltr freed) fresh reread inp (g, s))" "alike s s'"
  shows "is_ok (serve n (handleHeader le) (handleBody moved le ltr freed') fresh reread inp (g, s'))"
  using assms
proof (induction n arbitrary: inp g s s')
  case (Suc n)
  have w: "wanted s' = wanted s" using Suc.prems(2) by (auto simp: alike_def wanted_def split: session_op.splits)
  then have c: "completion_of inp s' = completion_of inp s" by (simp add: completion_of_def)
  obtain g1 s1 where s1: "session_step (handleHeader le) (handleBody moved le ltr freed) fresh reread (g, s) (completion_of inp s) = Inr (g1, s1)"
    "is_ok (serve n (handleHeader le) (handleBody moved le ltr freed) fresh reread (drop (wanted s) inp) (g1, s1))"
    using Suc.prems(1) by (auto simp: is_ok_iff rbind_Inr_iff)
  obtain s2 where s2: "session_step (handleHeader le) (handleBody moved le ltr freed') fresh reread (g, s') (completion_of inp s) = Inr (g1, s2)"
    "alike s1 s2" using session_step_alike[OF s1(1) Suc.prems(2)] by blast
  obtain x where "serve n (handleHeader le) (handleBody moved le ltr freed') fresh reread (drop (wanted s) inp) (g1, s2) = Inr x"
    using Suc.IH[OF s1(2) s2(2)] unfolding is_ok_iff by blast
  then show ?case using s2(1) by (cases x) (simp add: c w)
qed simp

lemma member_serves_freed:
  "is_ok (member_serves moved le ltr freed fresh reread junk req g) \<Longrightarrow> is_ok (member_serves moved le ltr freed' fresh reread junk req g)"
  unfolding member_serves_def by (rule serve_alike) (auto simp: alike_def)

section \<open>An example\<close>

text \<open>Members \<open>a\<close> and \<open>b\<close> are started; \<open>b\<close> synchronises with \<open>a\<close>; the probe ticker of \<open>a\<close> picks \<open>a\<close> itself, and then \<open>b\<close>.\<close>

lemma ex_net_run:
  "case start_member ex_conf (#) 0 id of Inl _ \<Rightarrow> False | Inr a \<Rightarrow>
   case start_member ex_conf_b (#) 0 id of Inl _ \<Rightarrow> False | Inr b \<Rightarrow>
   case rfold (\<lambda>g. merge_state g True) a (node_table b) of Inl _ \<Rightarrow> False | Inr a1 \<Rightarrow>
   case probe a1 of Inl _ \<Rightarrow> False | Inr r1 \<Rightarrow> fst r1 = None \<and>
     (case probe (snd r1) of Inl _ \<Rightarrow> False | Inr r2 \<Rightarrow> map_option ns_Name (fst r2) = Some ''b'')"
  by code_simp

lemma ex_net_states:
  obtains a b a1 a2 node a3 where "start_member ex_conf (#) 0 id = Inr a" "start_member ex_conf_b (#) 0 id = Inr b"
    "rfold (\<lambda>g. merge_state g True) a (node_table b) = Inr a1" "probe a1 = Inr (None, a2)" "probe a2 = Inr (Some node, a3)"
    "ns_Name node = ''b''"
proof -
  obtain a b a1 r1 r2 where r: "start_member ex_conf (#) 0 id = Inr a" "start_member ex_conf_b (#) 0 id = Inr b"
    "rfold (\<lambda>g. merge_state g True) a (node_table b) = Inr a1" "probe a1 = Inr r1" "fst r1 = None" "probe (snd r1) = Inr r2"
    "map_option ns_Name (fst r2) = Some ''b''"
    using ex_net_run by (auto simp: case_ok_iff)
  then obtain node where "fst r2 = Some node" "ns_Name node = ''b''" by auto
  then show thesis using that[of a b a1 "snd r1" node "snd r2"] r by (metis prod.collapse)
qed

lemma ex_fits: "map g_conf gs = [ex_conf, ex_conf_b] \<Longrightarrow> fits 50 gs"
proof -
  assume gs: "map g_conf gs = [ex_conf, ex_conf_b]"
  then have "length gs = 2" by (metis length_map length_Cons list.size(3) numeral_2_eq_2)
  then show ?thesis using gs by (simp add: fits_def conf_fits_def buff_size_def ex_conf_def ex_conf_b_def no_null_def)
qed

text \<open>Any member of a network can answer any other one's synchronisation request.\<close>

lemma sync_run:
  assumes "implements nw c" "fits L (nt_members nw)" "i < length (nt_members nw)" "j < length (nt_members nw)"
    "rfold (\<lambda>g. merge_state g True) (nt_members nw ! i) (node_table (nt_members nw ! j)) = Inr h"
  obtains req resp where "net_step\<^sup>*\<^sup>* nw
    ((become nw i h)\<lparr>nt_requests := nt_requests nw @ [(j, req)], nt_responses := nt_responses nw @ [(req, resp)]\<rparr>)"
proof -
  let ?a = "nt_members nw ! i" and ?b = "nt_members nw ! j"
  have c: "cluster_step\<^sup>*\<^sup>* no_members c" "cl_members c = nt_members nw" using assms(1) by (simp_all add: implements_def)
  have b: "table_ok ?b" using cluster_table_ok[of c L ?b] c assms(2,4) by simp
  let ?c = "c\<lparr>cl_wire := cl_wire c @ node_table ?b\<rparr>"
  have "cluster_step\<^sup>*\<^sup>* c ?c" using shows_run[of j c "node_table ?b"] c(2) assms(4) by simp
  then have "cluster_step\<^sup>*\<^sup>* no_members ?c" using c(1) by (rule rtranclp_trans[rotated])
  then have h: "table_ok h" using merged_table_ok(2)[of ?c L i "node_table ?b" True h] c(2) assms(2,3,5) by simp
  obtain req where req: "sync_request True True ?b = Inr req" "sync_message req (node_table ?b)" using sync_request_ok[OF b] .
  let ?n1 = "nw\<lparr>nt_requests := nt_requests nw @ [(j, req)]\<rparr>"
  have 1: "net_step nw ?n1" using assms(4) req(1) by (rule Net_ask)
  define junk :: "bytes \<times> bytes" where "junk = (replicate buff_size 0, replicate buff_size 0)"
  have junk: "length (fst junk) = buff_size" "length (snd junk) = buff_size" by (simp_all add: junk_def)
  obtain resp s where "member_serves id False True (!) \<lparr>h_Type = 0, h_Body_length = 0\<rparr> id junk req ?a = Inr (resp, h, s)"
    using member_serves_merge[OF req(2) _ assms(5) h junk(2)] b unfolding table_ok_def by blast
  then have "net_step ?n1 ((become ?n1 i h)\<lparr>nt_responses := nt_responses ?n1 @ [(req, resp)]\<rparr>)"
    using assms(3) by (intro Net_serve[where j = j, OF _ _ junk]) simp_all
  moreover have "(become ?n1 i h)\<lparr>nt_responses := nt_responses ?n1 @ [(req, resp)]\<rparr> =
      (become nw i h)\<lparr>nt_requests := nt_requests nw @ [(j, req)], nt_responses := nt_responses nw @ [(req, resp)]\<rparr>"
    by (rule network.equality) (simp_all add: become_def)
  ultimately have "net_step\<^sup>*\<^sup>* ?n1 ((become nw i h)\<lparr>nt_requests := nt_requests nw @ [(j, req)], nt_responses := nt_responses nw @ [(req, resp)]\<rparr>)"
    by (simp only: r_into_rtranclp)
  with 1 show thesis by (rule that[OF converse_rtranclp_into_rtranclp])
qed

lemma ex_network:
  obtains nw d where "net_step\<^sup>*\<^sup>* no_network nw" "map g_conf (nt_members nw) = [ex_conf, ex_conf_b]" "d \<in> set (nt_datagrams nw)"
proof -
  obtain a b a1 a2 node a3 where m: "start_member ex_conf (#) 0 id = Inr a" "start_member ex_conf_b (#) 0 id = Inr b"
    "rfold (\<lambda>g. merge_state g True) a (node_table b) = Inr a1" "probe a1 = Inr (None, a2)" "probe a2 = Inr (Some node, a3)"
    by (rule ex_net_states)
  let ?n1 = "no_network\<lparr>nt_members := [a]\<rparr>" and ?n2 = "no_network\<lparr>nt_members := [a, b]\<rparr>"
  have two: "map g_conf (nt_members ?n2) = [ex_conf, ex_conf_b]"
    using start_member_setup[OF order_ok_Cons m(1)] start_member_setup[OF order_ok_Cons m(2)] by simp
  have "net_step no_network ?n1" using Net_start[OF order_ok_Cons m(1), of no_network] by (simp add: no_network_def)
  moreover have "net_step ?n1 ?n2" using Net_start[OF order_ok_Cons m(2), of ?n1] by (simp add: no_network_def)
  ultimately have r2: "net_step\<^sup>*\<^sup>* no_network ?n2" by (meson converse_rtranclp_into_rtranclp rtranclp.rtrancl_refl)
  have confs: "map g_conf (nt_members nw) = [ex_conf, ex_conf_b]" if run: "net_step\<^sup>*\<^sup>* ?n2 nw" and len: "length (nt_members nw) = 2" for nw
  proof -
    obtain cs where cs: "map g_conf (nt_members nw) = [ex_conf, ex_conf_b] @ cs" using net_confs[OF run] unfolding two by blast
    moreover have "cs = []" using arg_cong[OF cs, of length] len by simp
    ultimately show ?thesis by simp
  qed
  obtain c2 where c2: "implements ?n2 c2" by (rule net_implements[OF r2 ex_fits[OF two]])
  obtain req resp where sync: "net_step\<^sup>*\<^sup>* ?n2 ((become ?n2 0 a1)\<lparr>nt_requests := nt_requests ?n2 @ [(1, req)], nt_responses := nt_responses ?n2 @ [(req, resp)]\<rparr>)"
    (is "net_step\<^sup>*\<^sup>* ?n2 ?n3") by (rule sync_run[OF c2 ex_fits[OF two], of 0 1 a1]) (simp_all add: m(3))
  let ?n4 = "become ?n3 0 a2"
  have "net_step ?n3 ?n4" using Net_idle[of 0 ?n3 a2] m(4) by simp
  with sync have r4: "net_step\<^sup>*\<^sup>* ?n2 ?n4" by (rule rtranclp.rtrancl_into_rtrancl)
  have f4: "fits 50 (nt_members ?n4)" by (rule ex_fits, rule confs[OF r4]) simp
  obtain c4 where c4: "implements ?n4 c4" by (rule net_implements[OF rtranclp_trans[OF r2 r4] f4])
  have fresh: "length (replicate mtu (0 :: u8)) = mtu" by simp
  obtain ip port seq d a4 where p: "probeNode True True (replicate mtu 0) a3 node = Inr ((ip, port, seq, d), a4)"
    by (rule probe_sends[OF c4 f4 _ _ fresh, of 0 node a3 True True]) (use m(5) in auto)
  let ?n5 = "(become ?n4 0 a4)\<lparr>nt_datagrams := nt_datagrams ?n4 @ [d], nt_probes := nt_probes ?n4 @ [(0, node, seq)]\<rparr>"
  have "net_step ?n4 ?n5" using Net_probe[of 0 ?n4 node a3, OF _ _ fresh p] m(5) by simp
  with r4 have r5: "net_step\<^sup>*\<^sup>* ?n2 ?n5" by (rule rtranclp.rtrancl_into_rtrancl)
  have "map g_conf (nt_members ?n5) = [ex_conf, ex_conf_b]" by (rule confs[OF r5]) simp
  then show thesis by (rule that[OF rtranclp_trans[OF r2 r5], of d]) simp
qed

section \<open>Properties\<close>

text \<open>
  The bytes implement the cluster. Every run of members that exchange packets, whatever is lost, repeated, overtaken or
  delivered to the wrong socket, is a run of the cluster of the theory \<open>Cluster\<close> with the same members, as long as their names and
  addresses leave room in the buffers. So whatever holds of the members of every cluster holds of those of every network: their
  tables repeat what the nodes have said of themselves, and they list members only.
\<close>

theorem packets_refine_cluster:
  assumes "net_step\<^sup>*\<^sup>* no_network nw" "fits L (nt_members nw)"
  shows "\<exists>c. cluster_step\<^sup>*\<^sup>* no_members c \<and> cl_members c = nt_members nw"
  by (rule net_implements[OF assms]) (auto simp: implements_def)

theorem packets_refine_cluster_witness:
  "\<exists>nw c. net_step\<^sup>*\<^sup>* no_network nw \<and> nt_datagrams nw \<noteq> [] \<and> map g_name (nt_members nw) = [''a'', ''b''] \<and>
    cluster_step\<^sup>*\<^sup>* no_members c \<and> cl_members c = nt_members nw"
proof -
  obtain nw d where nw: "net_step\<^sup>*\<^sup>* no_network nw" "map g_conf (nt_members nw) = [ex_conf, ex_conf_b]" "d \<in> set (nt_datagrams nw)"
    by (rule ex_network)
  have "map g_name (nt_members nw) = map conf_Name (map g_conf (nt_members nw))" by (simp add: comp_def)
  then have "map g_name (nt_members nw) = [''a'', ''b'']" unfolding nw(2) by (simp add: ex_conf_def ex_conf_b_def)
  then show ?thesis using packets_refine_cluster[OF nw(1) ex_fits[OF nw(2)]] nw(1,3) by (intro exI[of _ nw]) auto
qed



end
