(* ===== verification/Program.thy ===== *)
theory Program
  imports Held
begin

text \<open>
  The program \<^verbatim>\<open>src/examples/main.cpp\<close>, from its command line to its event loop: configuration, member, \<^verbatim>\<open>Join\<close>,
  and then the \<^verbatim>\<open>HybridRunner\<close> for as long as \<^verbatim>\<open>main\<close> sleeps.
\<close>

section \<open>main\<close>

text \<open>\<^verbatim>\<open>Join\<close> gets to \<^verbatim>\<open>alive\<close> exactly for a peer with two fields.\<close>

definition valid_peer :: "string \<Rightarrow> bool" where
  "valid_peer peer = (case Split peer '':'' of Some [host, port] \<Rightarrow> True | _ \<Rightarrow> False)"

text \<open>
  \<open>None\<close> when a loop does not return; the runner is \<open>None\<close> when the usage is printed. \<open>now\<close> is the time when \<^verbatim>\<open>Join\<close>
  is done.
\<close>

definition program_main ::
  "(string \<Rightarrow> string list \<Rightarrow> string list) \<Rightarrow> u64 \<Rightarrow> (node_state \<Rightarrow> node_state) \<Rightarrow> host \<Rightarrow> nat \<Rightarrow> 'p \<Rightarrow>
     (string \<Rightarrow> string \<Rightarrow> bytes \<Rightarrow> bytes option) \<Rightarrow> string list \<Rightarrow> 'p HybridRunner option result option" where
  "program_main ord indet reread ho now no_one net argv =
     (if length argv \<noteq> 3 then Some (Inr None)
      else
        case config_new (argv ! 1) of
          None \<Rightarrow> None
        | Some (Inl f) \<Rightarrow> Some (Inl f)
        | Some (Inr conf) \<Rightarrow>
            let g = RegisterNotifier (gossiper_new conf ord indet reread) True True
            in case Join (ho_moved ho) (ho_le ho) (ho_ltr ho) net g (argv ! 2) of
                 None \<Rightarrow> None
               | Some r \<Rightarrow> Some (rbind r (\<lambda>g'.
                   let h = HybridRunner_new ho no_one g'
                   in Inr (Some (if valid_peer (argv ! 2) then alive now h else h)))))"

lemma program_main_run:
  assumes "order_ok ord" "valid_peer peer" "program_main ord indet reread ho now no_one net [prog, addr, peer] = Some (Inr (Some h0))"
    "length (ho_junk ho) = mtu" "rfold (hybrid_step ho) h0 es = Inr h"
  shows "\<exists>g. hybrid_inv now g h"
proof -
  obtain host port where p: "Split peer '':'' = Some [host, port]"
    using assms(2) by (auto simp: valid_peer_def split: option.splits list.splits)
  obtain conf g where g: "Join (ho_moved ho) (ho_le ho) (ho_ltr ho) net (RegisterNotifier (gossiper_new conf ord indet reread) True True) peer = Some (Inr g)"
    "h0 = alive now (HybridRunner_new ho no_one g)"
    using assms(2,3) by (auto simp: program_main_def Let_def rbind_Inr_iff split: option.splits sum.splits)
  show ?thesis by (rule exI[of _ g], rule node_run[OF assms(1) p g(1) assms(4) assms(5)[unfolded g(2)]])
qed

section \<open>The tickers of a node\<close>

lemma Join_conf:
  assumes "order_ok ord" "valid_peer peer" "Join moved le ltr net (RegisterNotifier (gossiper_new conf ord indet reread) True True) peer = Some (Inr g)"
  shows "g_conf g = conf"
proof -
  obtain host port where p: "Split peer '':'' = Some [host, port]"
    using assms(2) by (auto simp: valid_peer_def split: option.splits list.splits)
  obtain g1 where g1: "start_member conf ord indet reread = Inr g1" "g = g1 \<or> syncState moved le ltr (net host port) g1 = Inr g"
    using assms(3) p by (auto simp: Join_def start_member_def rbind_Inr_iff split: if_splits sum.splits)
  have "g_conf g1 = conf" using start_member_setup[OF assms(1) g1(1)] by simp
  moreover have "g = g1 \<or> (\<exists>m. mergeStates moved g1 m False = Inr g)"
    using g1(2) by (auto simp: syncState_def sync_response_def rbind_Inr_iff Let_def split: if_splits)
  ultimately show ?thesis using mergeStates_setup by (auto simp: same_setup_def)
qed

lemma config_intervals:
  "config_new addr = Some (Inr conf) \<Longrightarrow> conf_Probe_interval conf = 500 \<and> conf_Gossip_interval conf = 1000"
  by (auto simp: config_new_def split: option.splits if_splits sum.splits)

definition ticker_settings :: "'p HybridRunner \<Rightarrow> (ticker_callback \<times> nat) list" where
  "ticker_settings h = map (\<lambda>(t, cb). (cb, tk_timeout t)) (hy_tickers h)"

lemma do_probe_tickers: "do_probe ho now h = Inr h' \<Longrightarrow> hy_tickers h' = hy_tickers h"
  by (auto simp: do_probe_def rbind_Inr_iff split: option.splits)

lemma hybrid_step_tickers:
  assumes "hybrid_step ho h e = Inr h'"
  shows "ticker_settings h' = ticker_settings h"
proof (cases e)
  case (H_tick k ev)
  show ?thesis
  proof (cases "k < length (hy_tickers h) \<and> ev \<noteq> Stop_called")
    case True
    obtain t cb where t: "hy_tickers h ! k = (t, cb)" by fastforce
    with assms H_tick True obtain t' where t': "ticker_step t ev = Inr t'" "hy_tickers h' = (hy_tickers h)[k := (t', cb)]"
      by (auto simp: rbind_Inr_iff Let_def tick_callback_def split: if_splits ticker_callback.splits dest!: do_probe_tickers)
    then have "tk_timeout t' = tk_timeout t" by (simp add: ticker_step_timeout)
    then have "map (\<lambda>(t, cb). (cb, tk_timeout t)) ((hy_tickers h)[k := (t', cb)]) = map (\<lambda>(t, cb). (cb, tk_timeout t)) (hy_tickers h)"
      using True t by (simp add: map_update list_update_same_conv)
    then show ?thesis using t'(2) by (simp add: ticker_settings_def)
  qed (use assms H_tick in auto)
qed (use assms in \<open>auto simp: ticker_settings_def rbind_Inr_iff Let_def split: if_splits\<close>)

lemma hybrid_run_tickers: "rfold (hybrid_step ho) h es = Inr h' \<Longrightarrow> ticker_settings h' = ticker_settings h"
  by (induction es arbitrary: h) (auto simp: rbind_Inr_iff dest: hybrid_step_tickers)

lemma program_main_tickers:
  assumes "order_ok ord" "valid_peer peer" "program_main ord indet reread ho now no_one net [prog, addr, peer] = Some (Inr (Some h0))"
  shows "ticker_settings h0 = [(Probe, 500), (Gossip, 1000)]"
proof -
  obtain conf g where g: "config_new addr = Some (Inr conf)"
    "Join (ho_moved ho) (ho_le ho) (ho_ltr ho) net (RegisterNotifier (gossiper_new conf ord indet reread) True True) peer = Some (Inr g)"
    "h0 = alive now (HybridRunner_new ho no_one g)"
    using assms(2,3) by (auto simp: program_main_def Let_def rbind_Inr_iff split: option.splits sum.splits)
  then show ?thesis using Join_conf[OF assms(1,2) g(2)] config_intervals[OF g(1)]
    by (simp add: ticker_settings_def alive_def Run_servers_def AddTicker_def HybridRunner_new_def Tick_timeout)
qed

section \<open>An example node\<close>

definition ex_ho :: host where
  "ex_ho = \<lparr>ho_le = True, ho_ltr = True, ho_moved = id, ho_stack = (!), ho_freed = (!), ho_header = \<lparr>h_Type = 0, h_Body_length = 0\<rparr>, ho_reread = id,
     ho_junk = replicate mtu 0, ho_is_ip = (\<lambda>_. True)\<rparr>"

text \<open>The first probe tick, a connection that cannot be accepted, and a pong nobody asked for.\<close>

definition ex_events :: "nat hybrid_event list" where
  "ex_events = [H_tick 0 (Elapse 510), H_tick 0 Fire, H_tick 0 (Run 2), H_tcp Accept_failed,
     H_udp (Receive_done (Some (9, wire_header \<lparr>h_Type = TYPE_PONG, h_Body_length = 0\<rparr>)))]"

lemma ex_probe: "start_member conf (#) 0 id = Inr g \<Longrightarrow> probe g = Inr (None, g)"
proof -
  let ?n = "conf_Name conf"
  assume g: "start_member conf (#) 0 id = Inr g"
  then have g': "ev_inv g" "g_nodes g = [?n]" "g_name g = ?n"
    using start_member_ev_inv[OF order_ok_Cons, of conf 0 id] by auto
  then have inv: "g_inv g" by (simp add: ev_inv_g_inv)
  then have "?n \<in> alive_names (g_node_map g)" using g' by (auto simp: g_inv_def)
  then obtain st where "g_find g ?n = Some st" by (auto simp: alive_names_def)
  moreover from this have "ns_Name st = ?n" using inv by (simp add: g_inv_def)
  ultimately show ?thesis using g' by (simp add: probe_def roundrobinNode_def getNodeState_def)
qed

lemma ex_node_run:
  assumes "start_member conf (#) 0 id = Inr g" "conf_Probe_interval conf = 500" "conf_Gossip_interval conf = 1000"
  obtains h where "rfold (hybrid_step ex_ho) (alive 0 (HybridRunner_new ex_ho (0 :: nat) g)) ex_events = Inr h"
    "map (\<lambda>(t, cb). tk_calls t) (hy_tickers h) = [[(510, 512)], []]" "hy_member h = g"
    "us_log (hy_udp h) = [Rcvd 9 (wire_header \<lparr>h_Type = TYPE_PONG, h_Body_length = 0\<rparr>)]"
proof -
  have d: "DecodeHeader True (wire_header \<lparr>h_Type = TYPE_PONG, h_Body_length = 0\<rparr> @ bs) 0 = Inr \<lparr>h_Type = TYPE_PONG, h_Body_length = 0\<rparr>" for bs
    by (rule DecodeHeader_wire) simp_all
  have ne: "TYPE_PONG \<noteq> TYPE_PING" "wire_header hd \<noteq> []" for hd
    by (simp add: TYPE_PONG_def TYPE_PING_def) (metis length_wire_header list.size(3) zero_neq_numeral)
  note c = start_member_setup[OF order_ok_Cons assms(1), THEN conjunct1] assms(2,3)
  show thesis
    by (rule that,
      simp_all add: ne ex_events_def ex_ho_def alive_def HybridRunner_new_def AddTicker_def Run_servers_def Tick_def AsioTicker_new_def
        timer_new_def timer_simps checkDeadline_def Let_def c ex_probe[OF assms(1)] tick_callback_def do_probe_def
        tcp_event_step_def tcp_Start_def doAccept_def tcp_Server_new_def on_accept_def udp_Start_def doReceive_def
        udp_Server_new_def on_receive_def handlePacket_def d mtu_def ne, simp_all)
qed


text \<open>The program started with its own address as the peer.\<close>

lemma ex_main:
  obtains h0 h where "program_main (#) 0 id ex_ho 0 (0 :: nat) (\<lambda>_ _ _. None) [''./a.out'', ''10.0.0.1:7'', ''10.0.0.1:7''] = Some (Inr (Some h0))"
    "rfold (hybrid_step ex_ho) h0 ex_events = Inr h" "map (\<lambda>(t, cb). tk_calls t) (hy_tickers h) = [[(510, 512)], []]"
    "getNodeState (hy_member h0) ''10.0.0.1:7'' \<noteq> None"
proof -
  have sp: "Split ''10.0.0.1:7'' '':'' = Some [''10.0.0.1'', ''7'']"
    using split_fields_two[of "CHR '':''" "''10.0.0.1''" "''7''"] by (simp add: Split_char)
  have n: "stoi ''7'' = Inr 7" "port_string 7 = ''7''" by code_simp+
  obtain conf where conf: "config_new ''10.0.0.1:7'' = Some (Inr conf)" "conf_Name conf = ''10.0.0.1:7''" "conf_Addr conf = ''10.0.0.1''"
    "conf_Port conf = 7" "conf_Probe_interval conf = 500" "conf_Gossip_interval conf = 1000"
    by (simp add: config_new_def sp n)
  obtain g where g: "start_member conf (#) 0 id = Inr g" "ev_inv g" "g_name g = ''10.0.0.1:7''"
    using start_member_ev_inv[OF order_ok_Cons, of conf 0 id] conf(2) by auto
  have "Join id True True (\<lambda>_ _ _. None) (RegisterNotifier (gossiper_new conf (#) 0 id) True True) ''10.0.0.1:7'' = Some (Inr g)"
    using g(1) sp n(2) conf start_member_setup[OF order_ok_Cons g(1)] by (simp add: Join_def start_member_def)
  then have m: "program_main (#) 0 id ex_ho 0 (0 :: nat) (\<lambda>_ _ _. None) [''./a.out'', ''10.0.0.1:7'', ''10.0.0.1:7''] =
      Some (Inr (Some (alive 0 (HybridRunner_new ex_ho 0 g))))"
    using conf(1) sp by (simp add: program_main_def valid_peer_def ex_ho_def)
  obtain h where h: "rfold (hybrid_step ex_ho) (alive 0 (HybridRunner_new ex_ho (0 :: nat) g)) ex_events = Inr h"
    "map (\<lambda>(t, cb). tk_calls t) (hy_tickers h) = [[(510, 512)], []]" by (rule ex_node_run[OF g(1) conf(5,6)])
  have "hy_member (alive 0 (HybridRunner_new ex_ho (0 :: nat) g)) = g"
    by (simp add: alive_def HybridRunner_new_def AddTicker_def Run_servers_def)
  moreover have "getNodeState g ''10.0.0.1:7'' \<noteq> None" using ev_inv_alive_exact(2,3)[OF g(2)] g(3) by auto
  ultimately show thesis using that m h by simp
qed

section \<open>Properties\<close>

text \<open>
  (C9) A whole node stays well-formed. From its command line on, in every interleaving of TCP connections, datagrams, ticks, probe
  events and suspicion timers: each entry of the node table is about its own name and has one of the three states;
  \<^verbatim>\<open>GetAliveNodes\<close> lists without repetition exactly the nodes of the table that
  are not dead, itself included; the join and leave notifications replay to that list; the TCP server
  accepts and the UDP server receives or sends, each answer following the datagram it
  answers and going to its sender; the calls of the probe ticker are at least 500 milliseconds
  apart and those of the gossip ticker at least 1000, the intervals of the configuration; and
  each probe calls each callback at most once. Nothing is assumed of what dead memory reads as.
\<close>

theorem node_well_formed:
  assumes "order_ok ord" "valid_peer peer" "program_main ord indet reread ho now no_one net [prog, addr, peer] = Some (Inr (Some h0))"
    "length (ho_junk ho) = mtu" "rfold (hybrid_step ho) h0 es = Inr h"
  shows "distinct (GetAliveNodes (hy_member h)) \<and> g_name (hy_member h) \<in> set (GetAliveNodes (hy_member h)) \<and>
    set (GetAliveNodes (hy_member h)) = {n. \<exists>st. getNodeState (hy_member h) n = Some st \<and> ns_State st \<noteq> STATE_DEAD} \<and>
    (\<forall>n st. getNodeState (hy_member h) n = Some st \<longrightarrow> ns_Name st = n \<and> proper_state (ns_State st)) \<and>
    replay {} (g_events (hy_member h)) = Some (set (GetAliveNodes (hy_member h)) - {g_name (hy_member h)}) \<and>
    sv_accepting (hy_tcp h) \<and> us_op (hy_udp h) \<noteq> Udp_idle \<and> answers (us_log (hy_udp h)) \<and>
    map (\<lambda>(t, cb). (cb, tk_timeout t)) (hy_tickers h) = [(Probe, 500), (Gossip, 1000)] \<and>
    (\<forall>(t, cb) \<in> set (hy_tickers h). spaced (tk_timeout t) (tk_calls t)) \<and>
    (\<forall>p \<in> set (hy_probes h). \<forall>l. how_many (\<lambda>x. x = l) (uc_log (pr_client p)) \<le> 1)"
proof -
  obtain g where h: "hybrid_inv now g h" using program_main_run[OF assms] by blast
  then have ev: "ev_inv (hy_member h)" by (simp add: hybrid_inv_def since_def)
  have typed: "\<forall>n st. getNodeState (hy_member h) n = Some st \<longrightarrow> ns_Name st = n \<and> proper_state (ns_State st)"
    using ev_inv_g_inv[OF ev] by (simp add: g_inv_def getNodeState_def)
  have servers: "sv_accepting (hy_tcp h) \<and> us_op (hy_udp h) \<noteq> Udp_idle \<and> answers (us_log (hy_udp h))"
    using h by (simp add: hybrid_inv_def tcp_server_inv_def udp_server_inv_def)
  have tickers: "\<forall>(t, cb) \<in> set (hy_tickers h). spaced (tk_timeout t) (tk_calls t)"
    using h by (auto simp: hybrid_inv_def ticker_inv_def)
  have settings: "map (\<lambda>(t, cb). (cb, tk_timeout t)) (hy_tickers h) = [(Probe, 500), (Gossip, 1000)]"
    using hybrid_run_tickers[OF assms(5)] program_main_tickers[OF assms(1-3)] by (simp add: ticker_settings_def)
  have probes: "\<forall>p \<in> set (hy_probes h). \<forall>l. how_many (\<lambda>x. x = l) (uc_log (pr_client p)) \<le> 1"
    using h probe_inv_once by (simp add: hybrid_inv_def)
  show ?thesis using ev_inv_alive_exact[OF ev] typed servers settings tickers probes by blast
qed

theorem node_well_formed_witness:
  "\<exists>h0 h. program_main (#) 0 id ex_ho 0 (0 :: nat) (\<lambda>_ _ _. None) [''./a.out'', ''10.0.0.1:7'', ''10.0.0.1:7''] = Some (Inr (Some h0)) \<and>
    rfold (hybrid_step ex_ho) h0 ex_events = Inr h \<and> map (\<lambda>(t, cb). tk_calls t) (hy_tickers h) = [[(510, 512)], []] \<and>
    distinct (GetAliveNodes (hy_member h)) \<and> sv_accepting (hy_tcp h) \<and> answers (us_log (hy_udp h))"
proof -
  have v: "valid_peer ''10.0.0.1:7''"
    using split_fields_two[of "CHR '':''" "''10.0.0.1''" "''7''"] by (simp add: valid_peer_def Split_char)
  have j: "length (ho_junk ex_ho) = mtu" by (simp add: ex_ho_def)
  obtain h0 h where h: "program_main (#) 0 id ex_ho 0 (0 :: nat) (\<lambda>_ _ _. None) [''./a.out'', ''10.0.0.1:7'', ''10.0.0.1:7''] = Some (Inr (Some h0))"
    "rfold (hybrid_step ex_ho) h0 ex_events = Inr h" "map (\<lambda>(t, cb). tk_calls t) (hy_tickers h) = [[(510, 512)], []]"
    by (rule ex_main)
  from node_well_formed[OF order_ok_Cons v h(1) j h(2)] h show ?thesis by (intro exI[of _ h0] exI[of _ h]) simp
qed

text \<open>
  (C10) A whole node forgets nothing. Between any two moments of a run no entry of the node table disappears, and each
  changes only to a higher dominant, or at the same dominant to a worse state, whatever
  arrives over TCP and UDP, in whatever order, and whatever dead memory reads as.
\<close>

theorem node_forgets_nothing:
  assumes "order_ok ord" "valid_peer peer" "program_main ord indet reread ho now no_one net [prog, addr, peer] = Some (Inr (Some h0))"
    "length (ho_junk ho) = mtu" "rfold (hybrid_step ho) h0 es = Inr h"
    "rfold (hybrid_step ho) h es' = Inr h'" "getNodeState (hy_member h) n = Some st"
  shows "\<exists>st'. getNodeState (hy_member h') n = Some st' \<and> state_le st st'"
proof -
  have "hybrid_inv now (hy_member h) h" using hybrid_inv_since program_main_run[OF assms(1-5)] by blast
  then have "hybrid_inv now (hy_member h) h'"
    using node.run_inv[OF _ _ assms(6)] by (simp add: list_all_iff)
  then have "g_le (hy_member h) (hy_member h')" by (simp add: hybrid_inv_def since_def)
  then show ?thesis using assms(7) by (simp add: g_le_def getNodeState_def)
qed

theorem node_forgets_nothing_witness:
  "\<exists>h0 h st. rfold (hybrid_step ex_ho) h0 ex_events = Inr h \<and> getNodeState (hy_member h0) ''10.0.0.1:7'' = Some st \<and>
    (\<exists>st'. getNodeState (hy_member h) ''10.0.0.1:7'' = Some st' \<and> state_le st st')"
proof -
  have v: "valid_peer ''10.0.0.1:7''"
    using split_fields_two[of "CHR '':''" "''10.0.0.1''" "''7''"] by (simp add: valid_peer_def Split_char)
  have j: "length (ho_junk ex_ho) = mtu" by (simp add: ex_ho_def)
  obtain h0 h where h: "program_main (#) 0 id ex_ho 0 (0 :: nat) (\<lambda>_ _ _. None) [''./a.out'', ''10.0.0.1:7'', ''10.0.0.1:7''] = Some (Inr (Some h0))"
    "rfold (hybrid_step ex_ho) h0 ex_events = Inr h" "getNodeState (hy_member h0) ''10.0.0.1:7'' \<noteq> None"
    by (rule ex_main)
  then obtain st where st: "getNodeState (hy_member h0) ''10.0.0.1:7'' = Some st" by blast
  from node_forgets_nothing[OF order_ok_Cons v h(1) j rfold.simps(1) h(2) st] h(2) st show ?thesis by blast
qed

end
