(* ===== verification/System.thy ===== *)
theory System
  imports Network Program
begin

text \<open>
  A system of whole nodes: programs like \<^verbatim>\<open>src/examples/main.cpp\<close> that run on hosts of their own and reach each other over TCP
  and UDP. Each node is the \<^verbatim>\<open>HybridRunner\<close> of the theory \<open>Hybrid\<close> with all its parts, and takes one event at a time; the events
  of all the nodes interleave. The system implements the network of the theory \<open>Network\<close>, whose
  steps are whole handlers, and so the cluster.
\<close>

section \<open>Nodes\<close>

text \<open>
  Hosts on which dead memory reads as it was left (\<open>host_ok\<close>), which the standard does not promise: the local that \<^verbatim>\<open>convert\<close>
  refers to, the stack buffer of a ping, the builder of an answer, and the header of a session. The suspicions of
  these nodes never convict, so what a conviction reads plays no part, and the hash tables keep their iterators. A node waits in \<^verbatim>\<open>Join\<close> for
  the answer to its request, or runs. A connection that its TCP server has accepted is the request that the peer sends, and
  what of it is still to be read; there is one for each session.
\<close>

definition host_ok :: "host \<Rightarrow> bool" where
  "host_ok ho \<longleftrightarrow> ho_moved ho = id \<and> ho_stack ho = (!) \<and> ho_freed ho = (!) \<and> ho_reread ho = id \<and>
     length (ho_junk ho) = mtu"

lemma host_ok_sent [simp]: "host_ok ho \<Longrightarrow> sent_from_stack ho d = d"
  by (simp add: host_ok_def sent_from_stack_def map_nth)

type_synonym connection = "bytes \<times> bytes"

datatype 'p sys_node =
    Joining host gossiper bytes
  | Running host "'p HybridRunner" "connection list"

fun sn_member :: "'p sys_node \<Rightarrow> gossiper" where
  "sn_member (Joining ho g req) = g"
| "sn_member (Running ho h conns) = hy_member h"

text \<open>What a node has given to its sockets: the answer of its UDP server and the pings of its probes, and the answers of its sessions.\<close>

fun sends_op :: "socket_op \<Rightarrow> bytes list" where
  "sends_op (Send_op timed d) = [d]"
| "sends_op (Recv_op timed) = []"

definition pending_sends :: "AsyncClient \<Rightarrow> bytes list" where
  "pending_sends c = concat (map sends_op (uc_pending c))"

fun udp_sends :: "udp_op \<Rightarrow> bytes list" where
  "udp_sends (Sending d) = [d]"
| "udp_sends _ = []"

definition sends_of :: "'p HybridRunner \<Rightarrow> bytes list" where
  "sends_of h = udp_sends (us_op (hy_udp h)) @ concat (map (\<lambda>p. pending_sends (pr_client p)) (hy_probes h))"

fun answer_op :: "bytes \<Rightarrow> session_op \<Rightarrow> (bytes \<times> bytes) list" where
  "answer_op req (Writing resp) = [(req, resp)]"
| "answer_op req _ = []"

definition answers_of :: "'p HybridRunner \<Rightarrow> connection list \<Rightarrow> (bytes \<times> bytes) list" where
  "answers_of h conns = concat (map2 (\<lambda>s (req, inp). answer_op req (s_op s)) (sv_sessions (hy_tcp h)) conns)"

section \<open>The system\<close>

text \<open>The nodes, the datagrams and requests that were sent, and the responses with the requests they answer; all of these stay.\<close>

record 'p system =
  sy_nodes :: "'p sys_node list"
  sy_datagrams :: "bytes list"
  sy_requests :: "bytes list"
  sy_responses :: "(bytes \<times> bytes) list"

definition no_system :: "'p system" where
  "no_system = \<lparr>sy_nodes = [], sy_datagrams = [], sy_requests = [], sy_responses = []\<rparr>"

definition sy_members :: "'p system \<Rightarrow> gossiper list" where
  "sy_members sy = map sn_member (sy_nodes sy)"

definition receiving :: "AsyncClient \<Rightarrow> bool" where
  "receiving c \<longleftrightarrow> (case uc_pending c of Recv_op _ # _ \<Rightarrow> True | _ \<Rightarrow> False)"

text \<open>
  The events that can happen at a node, and its connections afterwards. A connection is accepted on which some member's request
  arrives; a read of a session completes with the next bytes of its request, or fails at any time; a socket
  receives some datagram that was sent, from whatever address. All else is up to the host.
\<close>

fun tcp_delivers :: "'p system \<Rightarrow> 's tcp_Server \<Rightarrow> connection list \<Rightarrow> tcp_event \<Rightarrow> connection list \<Rightarrow> bool" where
  "tcp_delivers sy sv conns (Accepted junk) conns' \<longleftrightarrow> (\<exists>req \<in> set (sy_requests sy). conns' = conns @ [(req, req)])"
| "tcp_delivers sy sv conns Accept_failed conns' \<longleftrightarrow> conns' = conns"
| "tcp_delivers sy sv conns (Session_event k c) conns' \<longleftrightarrow>
     (let s = sv_sessions sv ! k; (req, inp) = conns ! k
      in (c = Failed \<or> c = completion_of inp s) \<and> conns' = conns[k := (req, drop (wanted s) inp)])"

definition udp_delivers :: "'p system \<Rightarrow> 'q udp_event \<Rightarrow> bool" where
  "udp_delivers sy e \<longleftrightarrow> (case e of Receive_done (Some (sender, d)) \<Rightarrow> d \<in> set (sy_datagrams sy) | _ \<Rightarrow> True)"

definition client_delivers :: "'p system \<Rightarrow> AsyncClient \<Rightarrow> client_event \<Rightarrow> bool" where
  "client_delivers sy c e \<longleftrightarrow> (case e of C_complete (Some d) \<Rightarrow> receiving c \<longrightarrow> d \<in> set (sy_datagrams sy) | _ \<Rightarrow> True)"

fun delivers :: "'p system \<Rightarrow> 'p HybridRunner \<Rightarrow> connection list \<Rightarrow> 'p hybrid_event \<Rightarrow> connection list \<Rightarrow> bool" where
  "delivers sy h conns (H_tcp e) conns' \<longleftrightarrow> event_ok (hy_tcp h) e \<and> tcp_delivers sy (hy_tcp h) conns e conns'"
| "delivers sy h conns (H_udp e) conns' \<longleftrightarrow> udp_delivers sy e \<and> conns' = conns"
| "delivers sy h conns (H_tick i e) conns' \<longleftrightarrow> conns' = conns"
| "delivers sy h conns (H_probe i e) conns' \<longleftrightarrow> client_delivers sy (pr_client (hy_probes h ! i)) e \<and> conns' = conns"
| "delivers sy h conns (H_suspicion i) conns' \<longleftrightarrow> conns' = conns"

text \<open>
  A node starts with its own address as the peer, and runs; or it asks a peer, and runs when a response is there, or when it could
  not connect, which \<^verbatim>\<open>Join\<close> only reports; or an event happens at a node that runs. Which node the address of the peer
  belongs to is not recorded: any node that runs may be the one that answers.
\<close>

inductive sys_step :: "'p system \<Rightarrow> 'p system \<Rightarrow> bool" where
  Sys_alone: "order_ok ord \<Longrightarrow> host_ok ho \<Longrightarrow> start_member conf ord indet id = Inr g \<Longrightarrow>
    sys_step sy (sy\<lparr>sy_nodes := sy_nodes sy @ [Running ho (alive now (HybridRunner_new ho no_one g)) []]\<rparr>)"
| Sys_asks: "order_ok ord \<Longrightarrow> host_ok ho \<Longrightarrow> start_member conf ord indet id = Inr g \<Longrightarrow>
    sync_request (ho_le ho) (ho_ltr ho) g = Inr req \<Longrightarrow>
    sys_step sy (sy\<lparr>sy_nodes := sy_nodes sy @ [Joining ho g req], sy_requests := sy_requests sy @ [req]\<rparr>)"
| Sys_joins: "i < length (sy_nodes sy) \<Longrightarrow> sy_nodes sy ! i = Joining ho g req \<Longrightarrow> (req, resp) \<in> set (sy_responses sy) \<Longrightarrow>
    sync_response (ho_moved ho) (ho_le ho) g req resp = Inr g' \<Longrightarrow>
    sys_step sy (sy\<lparr>sy_nodes := (sy_nodes sy)[i := Running ho (alive now (HybridRunner_new ho no_one g')) []]\<rparr>)"
| Sys_gives_up: "i < length (sy_nodes sy) \<Longrightarrow> sy_nodes sy ! i = Joining ho g req \<Longrightarrow>
    sys_step sy (sy\<lparr>sy_nodes := (sy_nodes sy)[i := Running ho (alive now (HybridRunner_new ho no_one g)) []]\<rparr>)"
| Sys_event: "i < length (sy_nodes sy) \<Longrightarrow> sy_nodes sy ! i = Running ho h conns \<Longrightarrow> delivers sy h conns e conns' \<Longrightarrow>
    hybrid_step ho h e = Inr h' \<Longrightarrow>
    sys_step sy (sy\<lparr>sy_nodes := (sy_nodes sy)[i := Running ho h' conns'], sy_datagrams := sy_datagrams sy @ sends_of h',
      sy_responses := sy_responses sy @ answers_of h' conns'\<rparr>)"

section \<open>What a node has to do with the network\<close>

text \<open>Steps of the network that make member \<open>i\<close> the given one and leave the others as they are. What was sent stays.\<close>

definition grows :: "network \<Rightarrow> network \<Rightarrow> bool" where
  "grows nw nw' \<longleftrightarrow> set (nt_datagrams nw) \<subseteq> set (nt_datagrams nw') \<and> set (nt_probes nw) \<subseteq> set (nt_probes nw') \<and>
     set (nt_requests nw) \<subseteq> set (nt_requests nw') \<and> set (nt_responses nw) \<subseteq> set (nt_responses nw')"

definition leads :: "network \<Rightarrow> network \<Rightarrow> nat \<Rightarrow> gossiper \<Rightarrow> bool" where
  "leads nw nw' i g \<longleftrightarrow> net_step\<^sup>*\<^sup>* nw nw' \<and> nt_members nw' = (nt_members nw)[i := g] \<and> grows nw nw'"

lemma leads_grows: "leads nw nw' i g \<Longrightarrow> grows nw nw'"
  by (simp add: leads_def)

lemma leads_refl [simp]: "leads nw nw i (nt_members nw ! i)"
  by (simp add: leads_def grows_def)

lemma leads_become: "net_step nw (become nw i g) \<Longrightarrow> leads nw (become nw i g) i g"
  by (auto simp: leads_def grows_def)

text \<open>A session that serves a request of the network; its first read may be behind it.\<close>

definition new_session :: "bytes \<times> bytes \<Rightarrow> Session" where
  "new_session junk = Go (Session_new junk (of_nat HEADER_SIZE))"

definition junk_ok :: "bytes \<times> bytes \<Rightarrow> bool" where
  "junk_ok junk \<longleftrightarrow> length (fst junk) = buff_size \<and> length (snd junk) = buff_size"

definition header_read :: "host \<Rightarrow> bytes \<times> bytes \<Rightarrow> bytes \<Rightarrow> Session result" where
  "header_read ho junk req = doReadBody (handleHeader (ho_le ho)) (ho_header ho) (received (take HEADER_SIZE req) (new_session junk))"

fun op_sound :: "network \<Rightarrow> host \<Rightarrow> Session \<Rightarrow> connection \<Rightarrow> session_op \<Rightarrow> bool" where
  "op_sound nw ho s (req, inp) Not_started \<longleftrightarrow> False"
| "op_sound nw ho s (req, inp) Reading_header \<longleftrightarrow> (\<exists>junk. junk_ok junk \<and> s = new_session junk) \<and> inp = req"
| "op_sound nw ho s (req, inp) (Reading_body header) \<longleftrightarrow> (\<exists>junk. junk_ok junk \<and> header_read ho junk req = Inr s) \<and>
     HEADER_SIZE \<le> length req \<and> inp = drop HEADER_SIZE req"
| "op_sound nw ho s (req, inp) (Writing resp) \<longleftrightarrow> (req, resp) \<in> set (nt_responses nw)"
| "op_sound nw ho s (req, inp) Ended \<longleftrightarrow> True"

definition session_sound :: "network \<Rightarrow> host \<Rightarrow> Session \<Rightarrow> connection \<Rightarrow> bool" where
  "session_sound nw ho s conn \<longleftrightarrow> fst conn \<in> snd ` set (nt_requests nw) \<and> op_sound nw ho s conn (s_op s)"

text \<open>A datagram of the network; none is longer than the buffers that receive it.\<close>

definition sent :: "network \<Rightarrow> bytes \<Rightarrow> bool" where
  "sent nw d \<longleftrightarrow> d \<in> set (nt_datagrams nw) \<and> length d \<le> mtu"

definition client_sound :: "network \<Rightarrow> AsyncClient \<Rightarrow> bool" where
  "client_sound nw c \<longleftrightarrow> (\<forall>d \<in> set (pending_sends c). sent nw d) \<and> (\<forall>t d. On_received t (Some d) \<in> set (uc_queue c) \<longrightarrow> sent nw d)"

text \<open>A client that was given an IP address has opened its socket, unless it was given too much to send and did nothing.\<close>

definition socket_ready :: "bool \<Rightarrow> AsyncClient \<Rightarrow> bool" where
  "socket_ready ip c \<longleftrightarrow> (ip \<longrightarrow> uc_open c \<or> uc_pending c = [] \<and> uc_queue c = [] \<and> tm_waits (uc_timer c) = [])"

definition probe_sound :: "network \<Rightarrow> host \<Rightarrow> nat \<Rightarrow> probe_in_flight \<Rightarrow> bool" where
  "probe_sound nw ho i p \<longleftrightarrow> (i, pr_node p, pr_seq p) \<in> set (nt_probes nw) \<and> client_sound nw (pr_client p) \<and>
     socket_ready (ho_is_ip ho (ns_IP (pr_node p))) (pr_client p)"

definition udp_sound :: "network \<Rightarrow> ('s, 'p) udp_Server \<Rightarrow> bool" where
  "udp_sound nw sv \<longleftrightarrow> length (us_data sv) = mtu \<and> (\<forall>d \<in> set (udp_sends (us_op sv)). sent nw d)"

definition tcp_sound :: "network \<Rightarrow> host \<Rightarrow> 's tcp_Server \<Rightarrow> connection list \<Rightarrow> bool" where
  "tcp_sound nw ho sv conns \<longleftrightarrow> sv_accepting sv \<and> sv_header_size sv = of_nat HEADER_SIZE \<and> list_all2 (session_sound nw ho) (sv_sessions sv) conns"

definition wired :: "network \<Rightarrow> nat \<Rightarrow> host \<Rightarrow> 'p HybridRunner \<Rightarrow> connection list \<Rightarrow> bool" where
  "wired nw i ho h conns \<longleftrightarrow> host_ok ho \<and> udp_sound nw (hy_udp h) \<and> tcp_sound nw ho (hy_tcp h) conns \<and>
     (\<forall>p \<in> set (hy_probes h). probe_sound nw ho i p)"

fun hosted :: "network \<Rightarrow> nat \<Rightarrow> 'p sys_node \<Rightarrow> bool" where
  "hosted nw i (Joining ho g req) \<longleftrightarrow> nt_members nw ! i = g \<and> host_ok ho \<and> (i, req) \<in> set (nt_requests nw)"
| "hosted nw i (Running ho h conns) \<longleftrightarrow> nt_members nw ! i = hy_member h \<and> wired nw i ho h conns"

definition carried :: "'p system \<Rightarrow> network \<Rightarrow> bool" where
  "carried sy nw \<longleftrightarrow> (\<forall>d \<in> set (sy_datagrams sy). sent nw d) \<and> set (sy_requests sy) \<subseteq> snd ` set (nt_requests nw) \<and>
     set (sy_responses sy) \<subseteq> set (nt_responses nw)"

definition realises :: "'p system \<Rightarrow> network \<Rightarrow> bool" where
  "realises sy nw \<longleftrightarrow> nt_members nw = sy_members sy \<and> carried sy nw \<and> (\<forall>i < length (sy_nodes sy). hosted nw i (sy_nodes sy ! i))"

text \<open>All of this lasts as the network goes on.\<close>

lemma sent_mono: "grows nw nw' \<Longrightarrow> sent nw d \<Longrightarrow> sent nw' d"
  by (auto simp: grows_def sent_def)

lemma session_sound_mono: "grows nw nw' \<Longrightarrow> session_sound nw ho s conn \<Longrightarrow> session_sound nw' ho s conn"
  by (cases conn; cases "s_op s") (auto simp: grows_def session_sound_def)

lemma client_sound_mono: "grows nw nw' \<Longrightarrow> client_sound nw c \<Longrightarrow> client_sound nw' c"
  using sent_mono unfolding client_sound_def by blast

lemma probe_sound_mono: "grows nw nw' \<Longrightarrow> probe_sound nw ho i p \<Longrightarrow> probe_sound nw' ho i p"
  using client_sound_mono by (auto simp: probe_sound_def grows_def)

lemma udp_sound_mono: "grows nw nw' \<Longrightarrow> udp_sound nw sv \<Longrightarrow> udp_sound nw' sv"
  using sent_mono unfolding udp_sound_def by blast

lemma tcp_sound_mono:
  assumes "grows nw nw'" "tcp_sound nw ho sv conns"
  shows "tcp_sound nw' ho sv conns"
proof -
  have "list_all2 (session_sound nw' ho) (sv_sessions sv) conns"
    by (rule list_all2_mono[of "session_sound nw ho"]) (use assms session_sound_mono in \<open>auto simp: tcp_sound_def\<close>)
  then show ?thesis using assms(2) by (simp add: tcp_sound_def)
qed

lemma wired_mono: "grows nw nw' \<Longrightarrow> wired nw j ho h conns \<Longrightarrow> wired nw' j ho h conns"
  unfolding wired_def using udp_sound_mono tcp_sound_mono probe_sound_mono by blast

lemma hosted_mono: "grows nw nw' \<Longrightarrow> nt_members nw' ! i = nt_members nw ! i \<Longrightarrow> hosted nw i nd \<Longrightarrow> hosted nw' i nd"
  by (cases nd) (auto simp: wired_mono, auto simp: grows_def)

lemma carried_mono:
  assumes "grows nw nw'" "carried sy nw"
  shows "carried sy nw'"
proof -
  have "snd ` set (nt_requests nw) \<subseteq> snd ` set (nt_requests nw')" "set (nt_responses nw) \<subseteq> set (nt_responses nw')"
    using assms(1) by (auto simp: grows_def)
  then show ?thesis using assms sent_mono unfolding carried_def by blast
qed

end
