(* ===== verification/Composition.thy ===== *)
theory Composition
  imports System
begin

text \<open>
  The system of the theory \<open>System\<close> implements the network of the theory \<open>Network\<close>: the events of each part of a node are handlers
  of its member, or nothing. So it implements the cluster.
\<close>

section \<open>Sessions\<close>

lemma new_session_simps [simp]:
  "s_op (new_session junk) = Reading_header" "wanted (new_session junk) = HEADER_SIZE"
  by (simp_all add: new_session_def Go_def doReadHeader_def Session_new_def wanted_def HEADER_SIZE_def buff_size_def)

lemma header_read_op: "header_read ho junk req = Inr s \<Longrightarrow> \<exists>header. s_op s = Reading_body header"
  by (auto simp: header_read_def doReadBody_def rbind_Inr_iff)

text \<open>The reads of a session one after the other are the session that \<open>member_serves\<close> runs at once.\<close>

lemma session_parts:
  assumes "header_read ho junk req = Inr s" "HEADER_SIZE \<le> length req"
    "session_step (handleHeader (ho_le ho)) hb (ho_header ho) reread (g, s) (completion_of (drop HEADER_SIZE req) s) = r"
    "completion_of (drop HEADER_SIZE req) s \<noteq> Failed"
  shows "serve 3 (handleHeader (ho_le ho)) hb (ho_header ho) reread req (g, new_session junk) =
    rbind r (\<lambda>(g', s'). Inr ((case s_op s' of Writing resp \<Rightarrow> resp | _ \<Rightarrow> []), g', s'\<lparr>s_op := Ended\<rparr>))"
proof -
  let ?step = "session_step (handleHeader (ho_le ho)) hb (ho_header ho) reread"
  obtain header where h: "s_op s = Reading_body header" using header_read_op[OF assms(1)] by blast
  have c: "completion_of req (new_session junk) = Completed (take HEADER_SIZE req)" using assms(2) by (simp add: completion_of_def)
  have 1: "?step (g, new_session junk) (completion_of req (new_session junk)) = Inr (g, s)"
    unfolding c using assms(1) by (simp add: header_read_def)
  show ?thesis
  proof (cases r)
    case (Inl f)
    then show ?thesis unfolding numeral_3_eq_3 using assms(3) by (simp only: serve_Suc[OF 1] new_session_simps) simp
  next
    case (Inr x)
    obtain g' s' where x: "x = (g', s')" by (cases x)
    then have 2: "?step (g, s) (completion_of (drop HEADER_SIZE req) s) = Inr (g', s')" using assms(3) Inr by simp
    obtain resp where w: "s_op s' = Writing resp" "wanted s' = 0"
      using 2 assms(4) h by (cases "completion_of (drop HEADER_SIZE req) s")
        (auto simp: rbind_Inr_iff Let_def doWriteResponse_def wanted_def)
    have 3: "?step (g', s') (completion_of rest s') = Inr (g', s'\<lparr>s_op := Ended\<rparr>)" for rest
      using w by (simp add: completion_of_def)
    show ?thesis
      unfolding numeral_3_eq_3
      by (simp only: serve_Suc[OF 1] new_session_simps)
        (simp del: serve.simps(2) add: serve_Suc[OF 2, of "Suc 0"] serve_Suc[OF 3, of 0] w h Inr x)
  qed
qed

text \<open>An event of a session: nothing happens at the member, or its body handler answers a request of the network.\<close>

lemma session_sim:
  assumes "host_ok ho" "i < length (nt_members nw)" "session_sound nw ho s (req, inp)" "c = Failed \<or> c = completion_of inp s"
    "session_step (handleHeader (ho_le ho)) (handleBody (ho_moved ho) (ho_le ho) (ho_ltr ho) (ho_freed ho)) (ho_header ho) (ho_reread ho)
       (nt_members nw ! i, s) c = Inr (g, s')"
  shows "\<exists>nw'. leads nw nw' i g \<and> session_sound nw' ho s' (req, drop (wanted s) inp)"
proof (cases "c = Failed")
  case True
  then have "g = nt_members nw ! i" "s_op s' = Ended" using assms(5) by auto
  then show ?thesis using assms(3) by (intro exI[of _ nw]) (simp add: session_sound_def)
next
  case False
  then have c: "c = Completed (take (wanted s) inp)" "wanted s \<le> length inp" "c = completion_of inp s"
    using assms(4) by (auto simp: completion_of_def split: if_splits)
  have ho: "ho_moved ho = id" "ho_freed ho = (!)" "ho_reread ho = id" using assms(1) by (simp_all add: host_ok_def)
  obtain j where j: "(j, req) \<in> set (nt_requests nw)" using assms(3) by (auto simp: session_sound_def)
  show ?thesis
  proof (cases "s_op s")
    case Reading_header
    then obtain junk where junk: "junk_ok junk" "s = new_session junk" "inp = req"
      using assms(3) by (auto simp: session_sound_def)
    then have h: "header_read ho junk req = Inr s'" "g = nt_members nw ! i"
      using assms(5) c by (auto simp: header_read_def rbind_Inr_iff)
    obtain header where "s_op s' = Reading_body header" using header_read_op[OF h(1)] by blast
    then have "session_sound nw ho s' (req, drop HEADER_SIZE req)"
      using assms(3) junk h(1) c(2) by (auto simp: session_sound_def simp del: split_paired_Ex)
    then show ?thesis using junk h(2) by (intro exI[of _ nw]) simp
  next
    case (Reading_body header)
    then obtain junk where junk: "junk_ok junk" "header_read ho junk req = Inr s" "HEADER_SIZE \<le> length req" "inp = drop HEADER_SIZE req"
      using assms(3) by (auto simp: session_sound_def)
    obtain resp where w: "s_op s' = Writing resp"
      using assms(5) c(1) Reading_body by (auto simp: rbind_Inr_iff Let_def doWriteResponse_def)
    have "serve 3 (handleHeader (ho_le ho)) (handleBody id (ho_le ho) (ho_ltr ho) (!)) (ho_header ho) id req (nt_members nw ! i, new_session junk) =
        Inr (resp, g, s'\<lparr>s_op := Ended\<rparr>)"
      using session_parts[OF junk(2,3) assms(5)[unfolded ho c(3) junk(4)]] False c(3) junk(4) w by simp
    then have m: "member_serves id (ho_le ho) (ho_ltr ho) (!) (ho_header ho) id junk req (nt_members nw ! i) =
        Inr (resp, g, s'\<lparr>s_op := Ended\<rparr>)"
      by (simp add: member_serves_def new_session_def)
    let ?nw = "(become nw i g)\<lparr>nt_responses := nt_responses nw @ [(req, resp)]\<rparr>"
    have "net_step nw ?nw" using junk(1) by (intro Net_serve[OF assms(2) j _ _ m]) (simp_all add: junk_ok_def)
    then have "leads nw ?nw i g" by (auto simp: leads_def grows_def)
    moreover have "session_sound ?nw ho s' (req, inp')" for inp' using j w by (force simp: session_sound_def)
    ultimately show ?thesis by blast
  qed (use assms(3,5) c in \<open>auto simp: session_sound_def intro!: exI[of _ nw]\<close>)
qed

lemma tcp_sound_nth:
  assumes "tcp_sound nw ho sv conns" "k < length (sv_sessions sv)"
  shows "k < length conns" "session_sound nw ho (sv_sessions sv ! k) (conns ! k)"
  using assms by (auto simp: tcp_sound_def list_all2_conv_all_nth)

lemma tcp_sim:
  assumes "host_ok ho" "i < length (nt_members nw)" "carried sy nw" "tcp_sound nw ho sv conns" "sv_state sv = nt_members nw ! i"
    "event_ok sv e" "tcp_delivers sy sv conns e conns'"
    "tcp_server_step (handleHeader (ho_le ho)) (handleBody (ho_moved ho) (ho_le ho) (ho_ltr ho) (ho_freed ho)) (ho_header ho) (ho_reread ho) sv e = Inr sv'"
  shows "\<exists>nw'. leads nw nw' i (sv_state sv') \<and> tcp_sound nw' ho sv' conns'"
proof (cases e)
  case (Accepted junk)
  then obtain req where req: "req \<in> set (sy_requests sy)" "conns' = conns @ [(req, req)]" using assms(7) by auto
  have sv': "sv_state sv' = sv_state sv" "sv_accepting sv'" "sv_header_size sv' = sv_header_size sv" "sv_sessions sv' = sv_sessions sv @ [new_session junk]"
    using assms(4,8) Accepted by (auto simp: on_accept_def doAccept_def new_session_def tcp_sound_def)
  have "req \<in> snd ` set (nt_requests nw)" using assms(3) req(1) by (auto simp: carried_def)
  moreover have "junk_ok junk" using assms(6) Accepted by (simp add: junk_ok_def)
  ultimately have "session_sound nw ho (new_session junk) (req, req)" by (auto simp: session_sound_def simp del: split_paired_Ex)
  then have "tcp_sound nw ho sv' conns'" using assms(4) sv' req(2) by (simp add: tcp_sound_def list_all2_appendI)
  then show ?thesis using assms(5) sv'(1) by (intro exI[of _ nw]) simp
next
  case Accept_failed
  then have "sv_state sv' = sv_state sv" "tcp_sound nw ho sv' conns'"
    using assms(4,7,8) by (auto simp: on_accept_def doAccept_def tcp_sound_def)
  then show ?thesis using assms(5) by (intro exI[of _ nw]) simp
next
  case (Session_event k c)
  then have k: "k < length (sv_sessions sv)" using assms(6) by simp
  obtain req inp where conn: "conns ! k = (req, inp)" by fastforce
  then have d: "c = Failed \<or> c = completion_of inp (sv_sessions sv ! k)"
    "conns' = conns[k := (req, drop (wanted (sv_sessions sv ! k)) inp)]"
    using assms(7) Session_event by (auto simp: Let_def)
  obtain g s where s: "session_step (handleHeader (ho_le ho)) (handleBody (ho_moved ho) (ho_le ho) (ho_ltr ho) (ho_freed ho)) (ho_header ho) (ho_reread ho)
      (nt_members nw ! i, sv_sessions sv ! k) c = Inr (g, s)" "sv' = sv\<lparr>sv_state := g, sv_sessions := (sv_sessions sv)[k := s]\<rparr>"
    using assms(5,8) Session_event by (auto simp: rbind_Inr_iff)
  obtain nw' where nw': "leads nw nw' i g" "session_sound nw' ho s (req, drop (wanted (sv_sessions sv ! k)) inp)"
    using session_sim[OF assms(1,2) _ d(1) s(1)] tcp_sound_nth(2)[OF assms(4) k] conn by auto
  have "tcp_sound nw' ho sv conns" by (rule tcp_sound_mono[OF leads_grows[OF nw'(1)] assms(4)])
  then have "tcp_sound nw' ho sv' conns'" using nw'(2) d(2) s(2) by (simp add: tcp_sound_def list_all2_update_cong)
  then show ?thesis using nw'(1) s(2) by auto
qed

section \<open>The UDP server and the clients of probes\<close>

lemma sent_datagram: "carried sy nw \<Longrightarrow> d \<in> set (sy_datagrams sy) \<Longrightarrow> sent nw d"
  by (simp add: carried_def)

lemma udp_sim:
  assumes "i < length (nt_members nw)" "carried sy nw" "udp_sound nw sv" "us_state sv = nt_members nw ! i"
    "udp_delivers sy e" "udp_server_step (handlePacket id le ltr) sv e = Inr sv'"
  shows "\<exists>nw'. leads nw nw' i (us_state sv') \<and> udp_sound nw' sv'"
proof -
  have idle: "\<exists>nw'. leads nw nw' i (us_state sv') \<and> udp_sound nw' sv'"
    if "us_state sv' = us_state sv" "length (us_data sv') = mtu" "udp_sends (us_op sv') = [] \<or> us_op sv' = us_op sv"
    using that assms(3,4) by (intro exI[of _ nw]) (auto simp: udp_sound_def)
  show ?thesis
  proof (cases "\<exists>p d. e = Receive_done (Some (p, d)) \<and> us_op sv = Receiving \<and> length d \<le> mtu \<and> d \<noteq> []")
    case True
    then obtain p d where e: "e = Receive_done (Some (p, d))" "us_op sv = Receiving" "length d \<le> mtu" "d \<noteq> []" by blast
    let ?rest = "drop (length d) (us_data sv)"
    have rest: "length (d @ ?rest) = mtu" using e(3) assms(3) by (simp add: udp_sound_def)
    have d: "d \<in> set (nt_datagrams nw)" using sent_datagram[OF assms(2)] assms(5) e(1) by (auto simp: udp_delivers_def sent_def)
    obtain n g data where h: "handlePacket id le ltr (nt_members nw ! i) (d @ ?rest) (length d) (d @ ?rest) mtu = Inr (n, g, data)"
      using assms(4,6) e by (auto simp: on_receive_def rbind_Inr_iff Let_def)
    then have h': "us_state sv' = g" "us_data sv' = data" "us_op sv' = (if n > 0 then Sending (take (nat n) data) else Receiving)"
      using assms(4,6) e by (auto simp: on_receive_def Let_def doSend_def doReceive_def)
    let ?nw = "(become nw i g)\<lparr>nt_datagrams := nt_datagrams nw @ (if n > 0 then [take (nat n) data] else [])\<rparr>"
    have "net_step nw ?nw" by (rule Net_receive[OF assms(1) d rest h])
    then have "leads nw ?nw i g" by (auto simp: leads_def grows_def)
    moreover have "length data = mtu" using udp_member.packet_length[OF h] rest by simp
    then have "udp_sound ?nw sv'" using h'(2,3) by (auto simp: udp_sound_def sent_def)
    ultimately show ?thesis using h'(1) by blast
  next
    case False
    then show ?thesis
      using assms(3,6)
      by (intro idle; cases e) (auto simp: udp_sound_def on_receive_def on_sent_def doReceive_def Let_def split: if_splits option.splits udp_op.splits)
  qed
qed

text \<open>What an event of a probe's client leaves in its hands, and what it may call.\<close>

lemma pending_sends_simps [simp]:
  "pending_sends (c\<lparr>uc_queue := q\<rparr>) = pending_sends c" "pending_sends (c\<lparr>uc_timer := tm\<rparr>) = pending_sends c"
  "pending_sends (c\<lparr>uc_log := l\<rparr>) = pending_sends c" "pending_sends (c\<lparr>uc_now := n\<rparr>) = pending_sends c"
  by (simp_all add: pending_sends_def)

definition calls_ok :: "network \<Rightarrow> AsyncClient \<Rightarrow> AsyncClient \<Rightarrow> bool" where
  "calls_ok nw c c' \<longleftrightarrow> uc_log c' = uc_log c \<or> (\<exists>l. uc_log c' = l # uc_log c \<and> (\<forall>d. l = Received d \<longrightarrow> sent nw d))"

lemma deadline_sound [simp]:
  "client_sound nw (cancel_deadline c) = client_sound nw c" "client_sound nw (set_deadline k t c) = client_sound nw c"
  "client_sound nw (c\<lparr>uc_log := l\<rparr>) = client_sound nw c"
  by (auto simp: client_sound_def cancel_deadline_def set_deadline_def Let_def timer_simps pending_sends_def)

lemma client_sound_queue: "client_sound nw c \<Longrightarrow> uc_queue c = h # hs \<Longrightarrow> client_sound nw (c\<lparr>uc_queue := hs\<rparr>)"
  by (auto simp: client_sound_def)

lemma aborted_empty: "On_received t (Some d) \<notin> aborted ` ops"
  by (auto elim: aborted.elims[OF sym])

lemma socket_cancel_sound:
  assumes "socket_cancel c = Inr c'" "client_sound nw c"
  shows "client_sound nw c'" "uc_log c' = uc_log c"
proof -
  have c': "c' = c\<lparr>uc_pending := [], uc_queue := uc_queue c @ map aborted (uc_pending c)\<rparr>"
    using assms(1) by (simp add: socket_cancel_def split: if_splits)
  show "uc_log c' = uc_log c" by (simp add: c')
  show "client_sound nw c'" unfolding c' using assms(2) by (simp add: client_sound_def pending_sends_def aborted_empty)
qed

lemma asyncReceiveFrom_sound: "client_sound nw c \<Longrightarrow> client_sound nw (asyncReceiveFrom t c)"
  using deadline_sound(2)[of nw Wait_recv t c]
  by (auto simp: asyncReceiveFrom_def client_sound_def pending_sends_def Let_def)

lemma run_handler_sim:
  assumes "client_sound nw c" "uc_queue c = h # hs" "run_handler (AsyncReceiveFrom is_ip host port timeout) h (c\<lparr>uc_queue := hs\<rparr>) = Inr c'"
  shows "client_sound nw c' \<and> calls_ok nw c c'"
proof -
  let ?c = "c\<lparr>uc_queue := hs\<rparr>"
  have c: "client_sound nw ?c" by (rule client_sound_queue[OF assms(1,2)])
  show ?thesis
  proof (cases h)
    case (On_deadline k)
    then show ?thesis
      using assms(3) c socket_cancel_sound[OF _ c]
      by (auto simp: udp_checkDeadline_def calls_ok_def rbind_Inr_iff split: if_splits wait_kind.splits)
  next
    case (On_sent t ok)
    let ?c1 = "if t then cancel_deadline ?c else ?c"
    have "client_sound nw ?c1" "uc_log ?c1 = uc_log c" using c by simp_all
    moreover have "c' = ?c1 \<or> c' = asyncReceiveFrom timeout (?c1\<lparr>uc_log := Send_finished # uc_log ?c1\<rparr>)"
      using assms(3) On_sent by (auto simp: send_handler_def AsyncReceiveFrom_def Let_def split: if_splits)
    ultimately show ?thesis
      by (elim disjE) (simp_all add: calls_ok_def asyncReceiveFrom_sound asyncReceiveFrom_counts)
  next
    case (On_received t r)
    let ?c1 = "if t then cancel_deadline ?c else ?c"
    have "client_sound nw ?c1" "uc_log ?c1 = uc_log c" using c by simp_all
    moreover have "\<forall>d. r = Some d \<longrightarrow> sent nw d" using assms(1,2) On_received by (auto simp: client_sound_def)
    moreover have "c' = ?c1 \<or> (\<exists>d. r = Some d \<and> c' = ?c1\<lparr>uc_log := Received d # uc_log ?c1\<rparr>)"
      using assms(3) On_received by (auto simp: receive_handler_def Let_def split: if_splits option.splits)
    ultimately show ?thesis by (elim disjE exE) (simp_all add: calls_ok_def)
  qed
qed

lemma client_sim:
  assumes "carried sy nw" "client_sound nw c" "client_delivers sy c e" "probe_step is_ip host port timeout c e = Inr c'"
  shows "client_sound nw c' \<and> calls_ok nw c c'"
proof (cases e)
  case (C_complete r)
  show ?thesis
  proof (cases "uc_pending c")
    case (Cons op ops)
    have "sent nw (take mtu d)" if "r = Some d" "op = Recv_op t" for d t
      using sent_datagram[OF assms(1), of d] assms(3) that Cons C_complete by (auto simp: client_delivers_def receiving_def sent_def)
    then have "sent nw d" if "On_received t (Some d) = completed r op" for t d using that by (cases op; cases r) auto
    moreover have "c' = c\<lparr>uc_pending := ops, uc_queue := uc_queue c @ [completed r op]\<rparr>"
      using assms(4) C_complete Cons by (simp add: probe_step_def)
    ultimately show ?thesis using assms(2) Cons by (auto simp: client_sound_def calls_ok_def pending_sends_def)
  qed (use assms(2,4) C_complete in \<open>auto simp: probe_step_def calls_ok_def\<close>)
next
  case C_run
  then show ?thesis
    using assms(2,4) run_handler_sim[OF assms(2)] by (cases "uc_queue c") (auto simp: probe_step_def calls_ok_def)
qed (use assms(2,4) in \<open>auto simp: probe_step_def calls_ok_def client_sound_def timer_simps split: if_splits option.splits\<close>)

section \<open>Nodes\<close>

lemma wiredD:
  assumes "wired nw i ho h conns"
  shows "host_ok ho" "udp_sound nw (hy_udp h)" "tcp_sound nw ho (hy_tcp h) conns" "p \<in> set (hy_probes h) \<Longrightarrow> probe_sound nw ho i p"
  using assms by (simp_all add: wired_def)

lemma wired_parts [simp]:
  "wired nw i ho (h\<lparr>hy_member := g\<rparr>) conns = wired nw i ho h conns"
  "wired nw i ho (h\<lparr>hy_tickers := ts\<rparr>) conns = wired nw i ho h conns"
  by (simp_all add: wired_def)

lemma probe_client_sound:
  assumes "probe_client is_ip now d host port timeout = Inr c" "d \<in> set (nt_datagrams nw)"
  shows "client_sound nw c"
  using assms
  by (auto simp: probe_client_def AsyncSendTo_def AsyncClient_new_def Waterfall_def timer_new_def Let_def set_deadline_def
      timer_simps client_sound_def pending_sends_def sent_def split: if_splits)

lemma probe_client_ready: "probe_client is_ip now d host port timeout = Inr c \<Longrightarrow> socket_ready (is_ip host) c"
  by (auto simp: probe_client_def AsyncSendTo_def AsyncClient_new_def Waterfall_def timer_new_def Let_def set_deadline_def
      timer_simps socket_ready_def split: if_splits)

lemma deadline_open [simp]: "uc_open (cancel_deadline c) = uc_open c"
  by (simp add: cancel_deadline_def Let_def split_beta)

lemma asyncReceiveFrom_open [simp]: "uc_open (asyncReceiveFrom t c) = uc_open c"
  by (simp add: asyncReceiveFrom_def Let_def)

lemma run_handler_open:
  assumes "run_handler (AsyncReceiveFrom is_ip host port timeout) h c = Inr c'"
  shows "uc_open c' = uc_open c"
proof (cases h)
  case (On_deadline k)
  then show ?thesis using assms
    by (cases k) (auto simp: udp_checkDeadline_def socket_cancel_def split: if_splits)
next
  case (On_sent t ok)
  then show ?thesis using assms by (auto simp: send_handler_def AsyncReceiveFrom_def Let_def split: if_splits)
qed (use assms in \<open>auto simp: receive_handler_def Let_def split: if_splits option.splits\<close>)

lemma probe_step_ready:
  assumes "socket_ready ip c" "probe_step is_ip host port timeout c e = Inr c'"
  shows "socket_ready ip c'"
proof (cases e)
  case C_run
  then show ?thesis using assms run_handler_open by (cases "uc_queue c") (fastforce simp: socket_ready_def probe_step_def)+
qed (use assms in \<open>auto simp: socket_ready_def probe_step_def timer_simps split: list.splits if_splits option.splits\<close>)

text \<open>A tick of the probe ticker is an idle step or a probe.\<close>

lemma do_probe_sim:
  assumes "i < length (nt_members nw)" "wired nw i ho h conns" "nt_members nw ! i = hy_member h" "do_probe ho now h = Inr h'"
  shows "\<exists>nw'. leads nw nw' i (hy_member h') \<and> wired nw' i ho h' conns"
proof -
  obtain r g where r: "probe (nt_members nw ! i) = Inr (r, g)" using assms(3,4) by (auto simp: do_probe_def rbind_Inr_iff)
  show ?thesis
  proof (cases r)
    case None
    then have h': "h' = h\<lparr>hy_member := g\<rparr>" using assms(3,4) r by (simp add: do_probe_def)
    have l: "leads nw (become nw i g) i g" by (rule leads_become[OF Net_idle[OF assms(1) r[unfolded None]]])
    have "wired (become nw i g) i ho h conns" by (rule wired_mono[OF leads_grows[OF l] assms(2)])
    then show ?thesis using l h' by auto
  next
    case (Some node)
    obtain ip port seq d g' c where p: "probeNode (ho_le ho) (ho_ltr ho) (ho_junk ho) g node = Inr ((ip, port, seq, d), g')"
      "probe_client (ho_is_ip ho) now d ip port (conf_Probe_timeout (g_conf g')) = Inr c"
      "h' = h\<lparr>hy_member := g', hy_probes := hy_probes h @ [\<lparr>pr_node = node, pr_port = port, pr_seq = seq, pr_client = c\<rparr>]\<rparr>"
      using assms(3,4) r Some wiredD(1)[OF assms(2)] by (auto simp: do_probe_def rbind_Inr_iff)
    let ?nw = "(become nw i g')\<lparr>nt_datagrams := nt_datagrams nw @ [d], nt_probes := nt_probes nw @ [(i, node, seq)]\<rparr>"
    have junk: "length (ho_junk ho) = mtu" using wiredD(1)[OF assms(2)] by (simp add: host_ok_def)
    have "net_step nw ?nw" by (rule Net_probe[OF assms(1) r[unfolded Some] junk p(1)])
    then have l: "leads nw ?nw i g'" by (auto simp: leads_def grows_def)
    have "ip = ns_IP node" using p(1) by (cases "nextSeqNum g") (auto simp: probeNode_def rbind_Inr_iff split: if_splits)
    then have "socket_ready (ho_is_ip ho (ns_IP node)) c" using probe_client_ready[OF p(2)] by simp
    moreover have "client_sound ?nw c" by (rule probe_client_sound[OF p(2)]) simp
    ultimately have "wired ?nw i ho h' conns"
      using wired_mono[OF leads_grows[OF l] assms(2)] p(3) by (auto simp: wired_def probe_sound_def)
    then show ?thesis using l p(3) by auto
  qed
qed

text \<open>A callback of a probe merges a pong, suspects the node, or does nothing.\<close>

lemma probe_callback_sim:
  assumes "i < length (nt_members nw)" "probe_sound nw ho i p" "\<forall>d. l = Received d \<longrightarrow> sent nw d"
    "probe_callback ho p l (nt_members nw ! i) = Inr g"
  shows "\<exists>nw'. leads nw nw' i g"
proof -
  have p: "(i, pr_node p, pr_seq p) \<in> set (nt_probes nw)" using assms(2) by (simp add: probe_sound_def)
  show ?thesis
  proof (cases l)
    case (Received d)
    then have "d \<in> set (nt_datagrams nw)"
      "pong_received (ho_le ho) (nt_members nw ! i) (pr_seq p) (d @ drop (length d) (ho_junk ho)) (length d) = Inr g"
      using assms(3,4) by (simp_all add: sent_def probe_callback_def)
    then show ?thesis using leads_become[OF Net_pong[OF assms(1) p]] by blast
  next
    case Receive_timed_out
    then have "suspectNode (nt_members nw ! i) (pr_node p) = Inr g" using assms(4) by (simp add: probe_callback_def)
    then show ?thesis using leads_become[OF Net_timeout[OF assms(1) p]] by blast
  qed (use assms(4) in \<open>auto simp: probe_callback_def intro!: exI[of _ nw]\<close>)
qed

lemma probe_sim:
  assumes "i < length (nt_members nw)" "carried sy nw" "wired nw i ho h conns" "nt_members nw ! i = hy_member h"
    "k < length (hy_probes h)" "client_delivers sy (pr_client (hy_probes h ! k)) e" "hybrid_step ho h (H_probe k e) = Inr h'"
  shows "\<exists>nw'. leads nw nw' i (hy_member h') \<and> wired nw' i ho h' conns"
proof -
  let ?p = "hy_probes h ! k"
  have p: "probe_sound nw ho i ?p" using wiredD(4)[OF assms(3)] assms(5) by simp
  obtain c where c: "probe_step (ho_is_ip ho) (ns_IP (pr_node ?p)) (pr_port ?p) (conf_Probe_timeout (g_conf (hy_member h)))
      (pr_client ?p) e = Inr c"
    using assms(5,7) by (auto simp: rbind_Inr_iff Let_def)
  have s: "client_sound nw c" "calls_ok nw (pr_client ?p) c"
    using client_sim[OF assms(2) _ assms(6) c] p by (simp_all add: probe_sound_def)
  let ?h1 = "h\<lparr>hy_probes := (hy_probes h)[k := ?p\<lparr>pr_client := c\<rparr>]\<rparr>"
  have "socket_ready (ho_is_ip ho (ns_IP (pr_node ?p))) c" using probe_step_ready[OF _ c] p by (simp add: probe_sound_def)
  then have "\<forall>q \<in> set ((hy_probes h)[k := ?p\<lparr>pr_client := c\<rparr>]). probe_sound nw ho i q"
    using p s(1) wiredD(4)[OF assms(3)] set_update_subset_insert[of "hy_probes h" k "?p\<lparr>pr_client := c\<rparr>"]
    by (auto simp: probe_sound_def)
  then have w: "wired nw i ho ?h1 conns" using assms(3) by (simp add: wired_def)
  have same: ?thesis if "h' = ?h1" using that w assms(4) leads_refl[of nw i] by (intro exI[of _ nw]) simp
  from s(2) show ?thesis unfolding calls_ok_def
  proof (elim disjE exE conjE)
    assume "uc_log c = uc_log (pr_client ?p)"
    then have "h' = ?h1" using assms(5,7) c by (simp add: Let_def)
    then show ?thesis by (rule same)
  next
    fix l assume l: "uc_log c = l # uc_log (pr_client ?p)" "\<forall>d. l = Received d \<longrightarrow> sent nw d"
    then obtain g where g: "probe_callback ho ?p l (nt_members nw ! i) = Inr g" "h' = ?h1\<lparr>hy_member := g\<rparr>"
      using assms(4,5,7) c by (auto simp: Let_def rbind_Inr_iff)
    obtain nw' where nw': "leads nw nw' i g" using probe_callback_sim[OF assms(1) p l(2) g(1)] by blast
    then show ?thesis using wired_mono[OF leads_grows[OF nw'] w] g(2) by (intro exI[of _ nw']) simp
  qed
qed

lemma event_ok_state: "event_ok (sv\<lparr>sv_state := st\<rparr>) e = event_ok sv e"
  by (cases e) (simp_all split: completion.split)

lemma tcp_delivers_state: "tcp_delivers sy (sv\<lparr>sv_state := st\<rparr>) conns e conns' = tcp_delivers sy sv conns e conns'"
  by (cases e) simp_all

lemma hybrid_sim:
  assumes "i < length (nt_members nw)" "carried sy nw" "wired nw i ho h conns" "nt_members nw ! i = hy_member h"
    "delivers sy h conns e conns'" "hybrid_step ho h e = Inr h'"
  shows "\<exists>nw'. leads nw nw' i (hy_member h') \<and> wired nw' i ho h' conns'"
proof -
  have same: ?thesis if "h' = h" "conns' = conns" using that assms(3,4) leads_refl[of nw i] by (intro exI[of _ nw]) simp
  show ?thesis
  proof (cases e)
    case (H_tcp ev)
    let ?sv = "(hy_tcp h)\<lparr>sv_state := hy_member h\<rparr>"
    have ev: "event_ok (hy_tcp h) ev" "tcp_delivers sy (hy_tcp h) conns ev conns'" using assms(5) H_tcp by simp_all
    have ok: "event_ok ?sv ev" "tcp_delivers sy ?sv conns ev conns'" using ev by (simp_all only: event_ok_state tcp_delivers_state)
    obtain sv where sv: "tcp_server_step (handleHeader (ho_le ho)) (handleBody (ho_moved ho) (ho_le ho) (ho_ltr ho) (ho_freed ho)) (ho_header ho)
        (ho_reread ho) ?sv ev = Inr sv" "h' = h\<lparr>hy_member := sv_state sv, hy_tcp := sv\<rparr>"
      using assms(6) H_tcp ok(1) by (auto simp: rbind_Inr_iff tcp_event_step_def)
    have "tcp_sound nw ho ?sv conns" using wiredD(3)[OF assms(3)] by (simp add: tcp_sound_def)
    then obtain nw' where nw': "leads nw nw' i (sv_state sv)" "tcp_sound nw' ho sv conns'"
      using tcp_sim[OF wiredD(1)[OF assms(3)] assms(1,2) _ _ ok sv(1)] assms(4) by auto
    then show ?thesis using wired_mono[OF leads_grows[OF nw'(1)] assms(3)] sv(2) by (auto simp: wired_def)
  next
    case (H_udp ev)
    let ?sv = "(hy_udp h)\<lparr>us_state := hy_member h\<rparr>"
    have ev: "udp_delivers sy ev" "conns' = conns" using assms(5) H_udp by simp_all
    have "ho_moved ho = id" using wiredD(1)[OF assms(3)] by (simp add: host_ok_def)
    then obtain sv where sv: "udp_server_step (handlePacket id (ho_le ho) (ho_ltr ho)) ?sv ev = Inr sv"
      "h' = h\<lparr>hy_member := us_state sv, hy_udp := sv\<rparr>"
      using assms(6) H_udp by (auto simp: rbind_Inr_iff)
    have "udp_sound nw ?sv" using wiredD(2)[OF assms(3)] by (simp add: udp_sound_def)
    then obtain nw' where nw': "leads nw nw' i (us_state sv)" "udp_sound nw' sv"
      using udp_sim[OF assms(1,2) _ _ ev(1) sv(1)] assms(4) by auto
    then show ?thesis using wired_mono[OF leads_grows[OF nw'(1)] assms(3)] sv(2) ev(2) by (auto simp: wired_def)
  next
    case (H_tick k ev)
    show ?thesis
    proof (cases "k < length (hy_tickers h) \<and> ev \<noteq> Stop_called")
      case True
      obtain t cb where t: "hy_tickers h ! k = (t, cb)" by fastforce
      then obtain t' where t': "ticker_step t ev = Inr t'" using True assms(6) H_tick by (auto simp: rbind_Inr_iff)
      let ?h1 = "h\<lparr>hy_tickers := (hy_tickers h)[k := (t', cb)]\<rparr>"
      have "h' = ?h1 \<or> do_probe ho (tk_now t) ?h1 = Inr h'"
        using True t t' assms(6) H_tick by (auto simp: tick_callback_def Let_def split: if_splits ticker_callback.splits)
      moreover have ?thesis if "h' = ?h1"
        using that assms(3-5) H_tick leads_refl[of nw i] by (intro exI[of _ nw]) simp
      moreover have ?thesis if "do_probe ho (tk_now t) ?h1 = Inr h'"
        using do_probe_sim[OF assms(1) _ _ that] assms(3-5) H_tick by simp
      ultimately show ?thesis by blast
    next
      case False
      then show ?thesis using same assms(5,6) H_tick by auto
    qed
  next
    case (H_probe k ev)
    then show ?thesis using probe_sim[OF assms(1-4)] same assms(5,6) by (cases "k < length (hy_probes h)") auto
  next
    case (H_suspicion k)
    show ?thesis
    proof (cases "k \<in> set (g_waits (hy_member h))")
      case True
      then obtain g where g: "timer_handler (hy_member h) k = Inr g" "h' = h\<lparr>hy_member := g\<rparr>"
        using assms(6) H_suspicion by (auto simp: rbind_Inr_iff)
      have l: "leads nw (become nw i g) i g"
        by (rule leads_become, rule Net_timer[OF assms(1)]) (use True g(1) assms(4) in simp_all)
      show ?thesis using l wired_mono[OF leads_grows[OF l] assms(3)] g(2) assms(5) H_suspicion by (intro exI[of _ "become nw i g"]) simp
    next
      case False
      then show ?thesis using same assms(5,6) H_suspicion by simp
    qed
  qed
qed

section \<open>Systems\<close>

lemma alive_wired:
  assumes "host_ok ho"
  shows "wired nw i ho (alive now (HybridRunner_new ho no_one g)) []" "hy_member (alive now (HybridRunner_new ho no_one g)) = g"
  using assms
  by (simp_all add: wired_def host_ok_def udp_sound_def tcp_sound_def alive_def Run_servers_def AddTicker_def HybridRunner_new_def
      udp_Start_def doReceive_def udp_Server_new_def tcp_Start_def doAccept_def tcp_Server_new_def)

lemma sends_sound: "wired nw i ho h conns \<Longrightarrow> d \<in> set (sends_of h) \<Longrightarrow> sent nw d"
  by (auto simp: wired_def sends_of_def udp_sound_def probe_sound_def client_sound_def)

lemma answers_sound:
  assumes "wired nw i ho h conns"
  shows "set (answers_of h conns) \<subseteq> set (nt_responses nw)"
proof -
  have "set (answer_op req (s_op s)) \<subseteq> set (nt_responses nw)"
    if "(s, req, inp) \<in> set (zip (sv_sessions (hy_tcp h)) conns)" for s req inp
  proof -
    have "session_sound nw ho s (req, inp)"
      using wiredD(3)[OF assms] that by (auto simp: tcp_sound_def list_all2_iff)
    then show ?thesis by (cases "s_op s") (auto simp: session_sound_def)
  qed
  then show ?thesis by (auto simp: answers_of_def)
qed

lemma realises_update:
  assumes "realises sy nw" "i < length (sy_nodes sy)" "leads nw nw' i (sn_member nd)" "hosted nw' i nd"
    "sy_nodes sy' = (sy_nodes sy)[i := nd]" "carried sy' nw'"
  shows "realises sy' nw'"
proof -
  have m: "nt_members nw = sy_members sy" "nt_members nw' = (nt_members nw)[i := sn_member nd]"
    using assms(1,3) by (simp_all add: realises_def leads_def)
  have "hosted nw' j (sy_nodes sy' ! j)" if "j < length (sy_nodes sy)" for j
  proof (cases "j = i")
    case False
    have "hosted nw j (sy_nodes sy ! j)" using assms(1) that by (simp add: realises_def)
    then show ?thesis using False m(2) assms(5) by (simp add: hosted_mono[OF leads_grows[OF assms(3)]])
  qed (use assms(2,4,5) in simp)
  then show ?thesis using m assms(5,6) by (simp add: realises_def sy_members_def map_update)
qed

lemma sys_step_sim:
  assumes "sys_step sy sy'" "realises sy nw"
  shows "\<exists>nw'. net_step\<^sup>*\<^sup>* nw nw' \<and> realises sy' nw'"
proof -
  have m: "nt_members nw = sy_members sy" "carried sy nw" "length (nt_members nw) = length (sy_nodes sy)"
    using assms(2) by (simp_all add: realises_def sy_members_def)
  have nodes: "hosted nw j (sy_nodes sy ! j)" if "j < length (sy_nodes sy)" for j using assms(2) that by (simp add: realises_def)
  from assms(1) show ?thesis
  proof cases
    case (Sys_alone ord ho conf indet g now no_one)
    let ?nw = "nw\<lparr>nt_members := nt_members nw @ [g]\<rparr>" and ?nd = "Running ho (alive now (HybridRunner_new ho no_one g)) []"
    have "grows nw ?nw" by (simp add: grows_def)
    then have "hosted ?nw j (sy_nodes sy ! j)" if "j < length (sy_nodes sy)" for j
      using nodes[OF that] hosted_mono[of nw ?nw j] that m(3) by (simp add: nth_append)
    moreover have "hosted ?nw (length (sy_nodes sy)) ?nd" using m(3) by (simp add: nth_append alive_wired[OF Sys_alone(3)])
    moreover have "carried sy' ?nw" using m(2) Sys_alone(1) by (simp add: carried_def sent_def)
    ultimately have "realises sy' ?nw" using m(1) Sys_alone(1)
      by (auto simp: realises_def sy_members_def nth_append less_Suc_eq alive_wired[OF Sys_alone(3)])
    then show ?thesis using Net_start[OF Sys_alone(2,4), of nw] by blast
  next
    case (Sys_asks ord ho conf indet g req)
    let ?n1 = "nw\<lparr>nt_members := nt_members nw @ [g]\<rparr>" and ?i = "length (nt_members nw)"
    let ?n2 = "?n1\<lparr>nt_requests := nt_requests ?n1 @ [(?i, req)]\<rparr>"
    have "net_step ?n1 ?n2" using Sys_asks(5) by (intro Net_ask) (simp_all add: nth_append)
    then have run: "net_step\<^sup>*\<^sup>* nw ?n2" using Net_start[OF Sys_asks(2,4), of nw] by (meson converse_rtranclp_into_rtranclp r_into_rtranclp)
    have "grows nw ?n2" by (auto simp: grows_def)
    then have "hosted ?n2 j (sy_nodes sy ! j)" if "j < length (sy_nodes sy)" for j
      using nodes[OF that] hosted_mono[of nw ?n2 j] that m(3) by (simp add: nth_append)
    moreover have "hosted ?n2 (length (sy_nodes sy)) (Joining ho g req)" using Sys_asks(3) m(3) by (simp add: nth_append)
    moreover have "carried sy' ?n2" using m(2) Sys_asks(1) by (auto simp: carried_def sent_def)
    ultimately have "realises sy' ?n2" using m(1) Sys_asks(1)
      by (auto simp: realises_def sy_members_def nth_append less_Suc_eq)
    then show ?thesis using run by blast
  next
    case (Sys_joins i ho g req resp g' now no_one)
    let ?nd = "Running ho (alive now (HybridRunner_new ho no_one g')) []"
    have h: "nt_members nw ! i = g" "host_ok ho" "(i, req) \<in> set (nt_requests nw)" using nodes[OF Sys_joins(2)] Sys_joins(3) by simp_all
    have i: "i < length (nt_members nw)" using Sys_joins(2) m(3) by simp
    have "(req, resp) \<in> set (nt_responses nw)" using m(2) Sys_joins(4) by (auto simp: carried_def)
    then have l: "leads nw (become nw i g') i g'" using Sys_joins(5) h(1,2) by (intro leads_become Net_answer[OF i h(3)]) (simp_all add: host_ok_def)
    have "hosted (become nw i g') i ?nd" using i by (simp add: alive_wired[OF h(2)])
    moreover have "carried sy' (become nw i g')" using carried_mono[OF leads_grows[OF l] m(2)] Sys_joins(1) by (simp add: carried_def)
    ultimately have "realises sy' (become nw i g')"
      using l Sys_joins(1) by (intro realises_update[OF assms(2) Sys_joins(2), of _ ?nd]) (simp_all add: alive_wired[OF h(2)])
    then show ?thesis using l by (auto simp: leads_def)
  next
    case (Sys_gives_up i ho g req now no_one)
    let ?nd = "Running ho (alive now (HybridRunner_new ho no_one g)) []"
    have h: "nt_members nw ! i = g" "host_ok ho" using nodes[OF Sys_gives_up(2)] Sys_gives_up(3) by simp_all
    have "leads nw nw i g" using leads_refl[of nw i] h(1) by simp
    moreover have "carried sy' nw" using m(2) Sys_gives_up(1) by (simp add: carried_def)
    ultimately have "realises sy' nw"
      using h(1) Sys_gives_up(1) by (intro realises_update[OF assms(2) Sys_gives_up(2), of _ ?nd]) (simp_all add: alive_wired[OF h(2)])
    then show ?thesis by blast
  next
    case (Sys_event i ho h conns e conns' h')
    let ?nd = "Running ho h' conns'"
    have h: "nt_members nw ! i = hy_member h" "wired nw i ho h conns" using nodes[OF Sys_event(2)] Sys_event(3) by simp_all
    have i: "i < length (nt_members nw)" using Sys_event(2) m(3) by simp
    obtain nw' where nw': "leads nw nw' i (hy_member h')" "wired nw' i ho h' conns'"
      using hybrid_sim[OF i m(2) h(2,1) Sys_event(4,5)] by blast
    then have "hosted nw' i ?nd" using i by (simp add: leads_def)
    moreover have "carried sy' nw'"
      using carried_mono[OF leads_grows[OF nw'(1)] m(2)] sends_sound[OF nw'(2)] answers_sound[OF nw'(2)] Sys_event(1)
      by (auto simp: carried_def)
    ultimately have "realises sy' nw'"
      using nw'(1) Sys_event(1) by (intro realises_update[OF assms(2) Sys_event(2), of _ ?nd]) simp_all
    then show ?thesis using nw'(1) by (auto simp: leads_def)
  qed
qed

interpretation system: simulation sys_step net_step realises "\<lambda>_. True"
  using sys_step_sim by unfold_locales blast+

lemma no_system_realises: "realises no_system no_network"
  by (simp add: realises_def carried_def no_system_def no_network_def sy_members_def)

lemma system_realises:
  assumes "sys_step\<^sup>*\<^sup>* no_system sy"
  obtains nw where "net_step\<^sup>*\<^sup>* no_network nw" "realises sy nw"
  using system.run_sim[OF assms no_system_realises] by blast

end
