(* ===== verification/Immunity.thy ===== *)
theory Immunity
  imports Composition
begin

text \<open>
  As long as dead memory reads as it was left, what the nodes of a system send each other drives none of them out of bounds:
  what is left are the faults of a node's own timers and probes.
\<close>

section \<open>The servers\<close>

text \<open>A system whose names and addresses leave room in the buffers, with the network and the cluster that it is.\<close>

definition backed :: "nat \<Rightarrow> 'p system \<Rightarrow> network \<Rightarrow> cluster \<Rightarrow> bool" where
  "backed L sy nw c \<longleftrightarrow> realises sy nw \<and> implements nw c \<and> fits L (nt_members nw)"

lemma system_backed:
  assumes "sys_step\<^sup>*\<^sup>* no_system sy" "fits L (sy_members sy)"
  obtains nw c where "backed L sy nw c"
proof -
  obtain nw where nw: "net_step\<^sup>*\<^sup>* no_network nw" "realises sy nw" by (rule system_realises[OF assms(1)])
  then have f: "fits L (nt_members nw)" using assms(2) by (simp add: realises_def)
  obtain c where "implements nw c" by (rule net_implements[OF nw(1) f])
  then show thesis using that nw(2) f by (simp add: backed_def)
qed

lemma backedD:
  assumes "backed L sy nw c" "i < length (sy_nodes sy)"
  shows "hosted nw i (sy_nodes sy ! i)" "i < length (nt_members nw)" "ev_inv (nt_members nw ! i)" "carried sy nw"
    "implements nw c" "fits L (nt_members nw)" "nt_members nw = sy_members sy"
proof -
  show r: "hosted nw i (sy_nodes sy ! i)" "i < length (nt_members nw)" "carried sy nw" "implements nw c" "fits L (nt_members nw)"
    "nt_members nw = sy_members sy"
    using assms by (auto simp: backed_def realises_def sy_members_def)
  show "ev_inv (nt_members nw ! i)" using cluster_ev_inv[of c] r(2,4) by (simp add: implements_def)
qed

lemma header_read_ok:
  assumes "HEADER_SIZE \<le> length req"
  shows "is_ok (header_read ho junk req)"
proof -
  let ?buff = "s_in_buff (received (take HEADER_SIZE req) (new_session junk))"
  have "0 + 8 \<le> length ?buff" using assms by (simp add: HEADER_SIZE_def)
  then have "is_ok (DecodeHeader (ho_le ho) ?buff 0)" by (rule DecodeHeader_total)
  then show ?thesis by (auto simp: header_read_def doReadBody_def handleHeader_def is_ok_iff)
qed

lemma session_ok:
  assumes "implements nw c" "fits L (nt_members nw)" "i < length (nt_members nw)" "host_ok ho" "session_sound nw ho s (req, inp)"
    "e = Failed \<or> e = completion_of inp s"
  shows "is_ok (session_step (handleHeader (ho_le ho)) (handleBody (ho_moved ho) (ho_le ho) (ho_ltr ho) (ho_freed ho)) (ho_header ho) (ho_reread ho)
    (nt_members nw ! i, s) e)" (is "is_ok ?r")
proof (cases "e = Failed")
  case False
  then have e: "e = Completed (take (wanted s) inp)" "wanted s \<le> length inp" "e = completion_of inp s"
    using assms(6) by (auto simp: completion_of_def split: if_splits)
  have ho: "ho_moved ho = id" "ho_freed ho = (!)" "ho_reread ho = id" using assms(4) by (simp_all add: host_ok_def)
  obtain j where j: "(j, req) \<in> set (nt_requests nw)" using assms(5) by (auto simp: session_sound_def)
  show ?thesis
  proof (cases "s_op s")
    case Reading_header
    then obtain junk where junk: "s = new_session junk" "inp = req" using assms(5) by (auto simp: session_sound_def)
    then have "is_ok (header_read ho junk req)" using e(2) by (intro header_read_ok) simp
    then show ?thesis using junk e(1) by (auto simp: header_read_def is_ok_iff)
  next
    case (Reading_body header)
    then obtain junk where junk: "junk_ok junk" "header_read ho junk req = Inr s" "HEADER_SIZE \<le> length req" "inp = drop HEADER_SIZE req"
      using assms(5) by (auto simp: session_sound_def)
    have "is_ok (member_serves id (ho_le ho) (ho_ltr ho) (!) (ho_header ho) id junk req (nt_members nw ! i))"
      using junk(1) by (intro serves_ok[OF assms(1-3) j]) (simp add: junk_ok_def)
    then have "is_ok (serve 3 (handleHeader (ho_le ho)) (handleBody (ho_moved ho) (ho_le ho) (ho_ltr ho) (ho_freed ho)) (ho_header ho) (ho_reread ho) req
        (nt_members nw ! i, new_session junk))"
      by (simp add: member_serves_def new_session_def ho)
    then show ?thesis using session_parts[OF junk(2,3) refl, of "handleBody (ho_moved ho) (ho_le ho) (ho_ltr ho) (ho_freed ho)" "ho_reread ho" "nt_members nw ! i"]
      False e(3) junk(4) by (cases ?r) simp_all
  qed (use e(1) in simp_all)
qed simp

lemma tcp_ok:
  assumes "implements nw c" "fits L (nt_members nw)" "i < length (nt_members nw)" "host_ok ho" "tcp_sound nw ho sv conns"
    "sv_state sv = nt_members nw ! i" "event_ok sv e" "tcp_delivers sy sv conns e conns'"
  shows "is_ok (tcp_server_step (handleHeader (ho_le ho)) (handleBody (ho_moved ho) (ho_le ho) (ho_ltr ho) (ho_freed ho)) (ho_header ho) (ho_reread ho) sv e)"
proof (cases e)
  case (Session_event k ev)
  then have k: "k < length (sv_sessions sv)" using assms(7) by simp
  obtain req inp where conn: "conns ! k = (req, inp)" by fastforce
  have "session_sound nw ho (sv_sessions sv ! k) (req, inp)" using tcp_sound_nth(2)[OF assms(5) k] conn by simp
  moreover have "ev = Failed \<or> ev = completion_of inp (sv_sessions sv ! k)"
    using assms(8) Session_event conn by (simp add: Let_def)
  ultimately have "is_ok (session_step (handleHeader (ho_le ho)) (handleBody (ho_moved ho) (ho_le ho) (ho_ltr ho) (ho_freed ho)) (ho_header ho)
      (ho_reread ho) (nt_members nw ! i, sv_sessions sv ! k) ev)"
    by (rule session_ok[OF assms(1-4)])
  then show ?thesis using Session_event assms(6) by (auto simp: is_ok_iff)
qed simp_all

lemma udp_ok:
  assumes "implements nw c" "fits L (nt_members nw)" "i < length (nt_members nw)" "carried sy nw" "udp_sound nw sv"
    "us_state sv = nt_members nw ! i" "udp_delivers sy e"
  shows "is_ok (udp_server_step (handlePacket id le ltr) sv e)"
proof (cases "\<exists>p d. e = Receive_done (Some (p, d)) \<and> us_op sv = Receiving \<and> length d \<le> mtu \<and> d \<noteq> []")
  case True
  then obtain p d where e: "e = Receive_done (Some (p, d))" "us_op sv = Receiving" "length d \<le> mtu" "d \<noteq> []" by blast
  let ?rest = "drop (length d) (us_data sv)"
  have rest: "length (d @ ?rest) = mtu" using e(3) assms(5) by (simp add: udp_sound_def)
  have d: "d \<in> set (nt_datagrams nw)" using sent_datagram[OF assms(4)] assms(7) e(1) by (auto simp: udp_delivers_def sent_def)
  have "is_ok (handlePacket id le ltr (nt_members nw ! i) (d @ ?rest) (length d) (d @ ?rest) mtu)"
    by (rule datagram_ok(1)[OF assms(1-3) d rest])
  then show ?thesis using assms(6) e by (auto simp: on_receive_def is_ok_iff Let_def)
next
  case False
  then show ?thesis by (cases e) (auto simp: on_receive_def Let_def split: option.splits udp_op.splits)
qed

section \<open>Tickers and probes\<close>

lemma probe_client_ok: "is_ok (probe_client is_ip now d host port timeout)"
  by (simp add: probe_client_def AsyncSendTo_def AsyncClient_new_def Waterfall_def Let_def set_deadline_def split_beta)

lemma do_probe_ok:
  assumes "implements nw c" "fits L (nt_members nw)" "i < length (nt_members nw)" "host_ok ho" "nt_members nw ! i = hy_member h"
    "ev_inv (hy_member h)"
  shows "is_ok (do_probe ho now h)"
proof -
  have "m_inv (hy_member h)" using assms(6) by (simp add: ev_inv_def)
  then obtain r g where r: "probe (hy_member h) = Inr (r, g)" using probe_result by blast
  show ?thesis
  proof (cases r)
    case (Some node)
    have junk: "length (ho_junk ho) = mtu" using assms(4) by (simp add: host_ok_def)
    obtain port d g' where p: "probeNode (ho_le ho) (ho_ltr ho) (ho_junk ho) g node = Inr ((ns_IP node, port, g_seq_num g + 1, d), g')"
      by (rule probe_sends[OF assms(1-3) _ junk, of node g "ho_le ho" "ho_ltr ho"]) (use r Some assms(5) in auto)
    show ?thesis using assms(4) probe_client_ok[of "ho_is_ip ho" now d "ns_IP node" port "conf_Probe_timeout (g_conf g')"]
      by (auto simp: do_probe_def r Some p is_ok_iff)
  qed (simp add: do_probe_def r)
qed

lemma suspectNode_fault:
  assumes "suspectNode g s = Inl f"
  shows "f = BadConversion \<and> g_node_num g = 0"
  using assms
  by (auto simp: suspectNode_cases rbind_Inl_iff suspicion_new_def need_confirm_def split: option.splits if_splits)

lemma timer_fault: "timer_handler g k = Inl f \<Longrightarrow> f = UseAfterFree"
  by (auto simp: timer_handler_cases split: option.splits)

text \<open>The client of a probe faults when the address it was given is no IP address.\<close>

lemma client_fault:
  assumes "socket_ready (is_ip host) c" "probe_step is_ip host port timeout c e = Inl f"
  shows "e = C_run \<and> f = SystemError \<and> \<not> is_ip host"
proof (cases e)
  case C_run
  then obtain h hs where q: "uc_queue c = h # hs"
    "run_handler (AsyncReceiveFrom is_ip host port timeout) h (c\<lparr>uc_queue := hs\<rparr>) = Inl f"
    using assms(2) by (cases "uc_queue c") (auto simp: probe_step_def)
  then have o: "is_ip host \<longrightarrow> uc_open c" using assms(1) by (auto simp: socket_ready_def)
  from q(2) have "f = SystemError \<and> (\<not> uc_open c \<or> \<not> is_ip host)"
    by (cases h) (auto simp: udp_checkDeadline_def socket_cancel_def send_handler_def AsyncReceiveFrom_def Let_def rbind_Inl_iff
        split: if_splits wait_kind.splits)
  then show ?thesis using o C_run by blast
qed (use assms(2) in \<open>auto simp: probe_step_def Let_def split_beta split: list.splits\<close>)

section \<open>Nodes\<close>

text \<open>What is left: a suspicion's timer that outlives it, an address that is no IP address, and a suspicion while no node is counted.\<close>

definition own_fault :: "host \<Rightarrow> 'p HybridRunner \<Rightarrow> 'p hybrid_event \<Rightarrow> fault \<Rightarrow> bool" where
  "own_fault ho h e f \<longleftrightarrow> (\<exists>k. e = H_suspicion k \<and> f = UseAfterFree) \<or>
     (\<exists>k. e = H_probe k C_run \<and> k < length (hy_probes h) \<and>
       (f = SystemError \<and> \<not> ho_is_ip ho (ns_IP (pr_node (hy_probes h ! k))) \<or> f = BadConversion \<and> g_node_num (hy_member h) = 0))"

lemma ticker_step_ok: "is_ok (ticker_step t e)"
  by (cases e) (simp_all add: Let_def split_beta split: list.splits)

lemma calls_at_run:
  assumes "probe_step is_ip host port timeout c e = Inr c'" "uc_log c' \<noteq> uc_log c"
  shows "e = C_run"
  using assms by (cases e) (auto simp: probe_step_def Let_def split_beta split: list.splits)

lemma probe_callback_fault:
  assumes "implements nw c" "fits L (nt_members nw)" "i < length (nt_members nw)" "\<forall>d. l = Received d \<longrightarrow> sent nw d"
    "probe_callback ho p l (nt_members nw ! i) = Inl f"
  shows "f = BadConversion \<and> g_node_num (nt_members nw ! i) = 0"
proof (cases l)
  case (Received d)
  then have "d \<in> set (nt_datagrams nw)" using assms(4) by (simp add: sent_def)
  then have "is_ok (pong_received (ho_le ho) (nt_members nw ! i) (pr_seq p) (d @ drop (length d) (ho_junk ho)) (length d))"
    by (rule datagram_ok(2)[OF assms(1-3)])
  then show ?thesis using assms(5) Received by (simp add: probe_callback_def)
next
  case Receive_timed_out
  then show ?thesis using assms(5) suspectNode_fault by (simp add: probe_callback_def)
qed (use assms(5) in \<open>simp_all add: probe_callback_def\<close>)

lemma probe_event_fault:
  assumes "implements nw c" "fits L (nt_members nw)" "i < length (nt_members nw)" "carried sy nw" "wired nw i ho h conns"
    "nt_members nw ! i = hy_member h" "k < length (hy_probes h)" "client_delivers sy (pr_client (hy_probes h ! k)) e"
    "hybrid_step ho h (H_probe k e) = Inl f"
  shows "own_fault ho h (H_probe k e) f"
proof -
  let ?p = "hy_probes h ! k"
  let ?step = "probe_step (ho_is_ip ho) (ns_IP (pr_node ?p)) (pr_port ?p) (conf_Probe_timeout (g_conf (hy_member h))) (pr_client ?p) e"
  have p: "probe_sound nw ho i ?p" using wiredD(4)[OF assms(5)] assms(7) by simp
  show ?thesis
  proof (cases ?step)
    case (Inl f')
    then have "e = C_run \<and> f' = SystemError \<and> \<not> ho_is_ip ho (ns_IP (pr_node ?p))"
      using p by (intro client_fault[OF _ Inl]) (simp add: probe_sound_def)
    then show ?thesis using assms(7,9) Inl by (auto simp: own_fault_def Let_def)
  next
    case (Inr c')
    have "calls_ok nw (pr_client ?p) c'" using client_sim[OF assms(4) _ assms(8) Inr] p by (simp add: probe_sound_def)
    then obtain l where l: "uc_log c' = l # uc_log (pr_client ?p)" "\<forall>d. l = Received d \<longrightarrow> sent nw d"
      using assms(7,9) Inr by (auto simp: calls_ok_def Let_def)
    then have "probe_callback ho ?p l (nt_members nw ! i) = Inl f" using assms(6,7,9) Inr by (simp add: Let_def rbind_Inl_iff)
    from probe_callback_fault[OF assms(1-3) l(2) this] have "f = BadConversion \<and> g_node_num (hy_member h) = 0" using assms(6) by simp
    moreover have "e = C_run" using calls_at_run[OF Inr] l(1) by simp
    ultimately show ?thesis using assms(7) by (simp add: own_fault_def)
  qed
qed

lemma tick_event_ok:
  assumes "implements nw c" "fits L (nt_members nw)" "i < length (nt_members nw)" "host_ok ho" "nt_members nw ! i = hy_member h"
    "ev_inv (hy_member h)"
  shows "is_ok (hybrid_step ho h (H_tick k e))"
proof (cases "k < length (hy_tickers h) \<and> e \<noteq> Stop_called")
  case True
  obtain t cb where t: "hy_tickers h ! k = (t, cb)" by fastforce
  obtain t' where t': "ticker_step t e = Inr t'" using ticker_step_ok[of t e] by (auto simp: is_ok_iff)
  have "is_ok (do_probe ho now (h\<lparr>hy_tickers := ts\<rparr>))" for now ts
    using assms(5,6) by (intro do_probe_ok[OF assms(1-4)]) simp_all
  then show ?thesis using True t t' by (simp add: tick_callback_def Let_def split: ticker_callback.split)
qed auto

lemma node_fault:
  assumes "backed L sy nw c" "i < length (sy_nodes sy)" "sy_nodes sy ! i = Running ho h conns"
    "delivers sy h conns e conns'" "hybrid_step ho h e = Inl f"
  shows "own_fault ho h e f"
proof -
  note b = backedD[OF assms(1,2)]
  have h: "nt_members nw ! i = hy_member h" "wired nw i ho h conns" using b(1) assms(3) by simp_all
  note w = wiredD[OF h(2)]
  show ?thesis
  proof (cases e)
    case (H_tcp ev)
    let ?sv = "(hy_tcp h)\<lparr>sv_state := hy_member h\<rparr>"
    have ev: "event_ok ?sv ev" "tcp_delivers sy ?sv conns ev conns'"
      using assms(4) H_tcp by (simp_all only: event_ok_state tcp_delivers_state delivers.simps)
    have "tcp_sound nw ho ?sv conns" using w(3) by (simp add: tcp_sound_def)
    from tcp_ok[OF b(5,6,2) w(1) this _ ev] show ?thesis
      using h(1) assms(5) H_tcp ev(1) by (auto simp: is_ok_iff tcp_event_step_def)
  next
    case (H_udp ev)
    let ?sv = "(hy_udp h)\<lparr>us_state := hy_member h\<rparr>"
    have "udp_sound nw ?sv" "ho_moved ho = id" using w(1,2) by (simp_all add: udp_sound_def host_ok_def)
    from udp_ok[OF b(5,6,2,4) this(1) _, of ev "ho_le ho" "ho_ltr ho"] show ?thesis
      using h(1) assms(4,5) H_udp \<open>ho_moved ho = id\<close> by (auto simp: is_ok_iff)
  next
    case (H_tick k ev)
    then show ?thesis using tick_event_ok[OF b(5,6,2) w(1) h(1), of k ev] b(3) h(1) assms(5) by simp
  next
    case (H_probe k ev)
    show ?thesis
    proof (cases "k < length (hy_probes h)")
      case True
      then show ?thesis using probe_event_fault[OF b(5,6,2,4) h(2,1)] assms(4,5) H_probe by simp
    qed (use assms(5) H_probe in simp)
  next
    case (H_suspicion k)
    then show ?thesis using assms(5) timer_fault by (auto simp: own_fault_def rbind_Inl_iff split: if_splits)
  qed
qed

text \<open>
  Two reads of dead memory do not matter for the next event, whatever they give: the send buffer of a ping, and the builder of
  an answer.
\<close>

lemma tcp_event_freed:
  assumes "is_ok (tcp_event_step (handleHeader le) (handleBody moved le ltr freed) fresh reread sv e)"
  shows "is_ok (tcp_event_step (handleHeader le) (handleBody moved le ltr freed') fresh reread sv e)"
proof (cases "event_ok sv e")
  case ok: True
  show ?thesis
  proof (cases e)
    case (Session_event k c)
    let ?s = "sv_sessions sv ! k"
    obtain g s1 where "session_step (handleHeader le) (handleBody moved le ltr freed) fresh reread (sv_state sv, ?s) c = Inr (g, s1)"
      using assms ok Session_event by (auto simp: tcp_event_step_def is_ok_iff rbind_Inr_iff)
    moreover have "alike ?s ?s" by (simp add: alike_def)
    ultimately obtain s2 where "session_step (handleHeader le) (handleBody moved le ltr freed') fresh reread (sv_state sv, ?s) c = Inr (g, s2)"
      using session_step_alike by blast
    then show ?thesis using ok Session_event by (simp add: tcp_event_step_def)
  qed (simp_all add: tcp_event_step_def)
qed (use assms in \<open>simp add: tcp_event_step_def\<close>)

lemma do_probe_stack:
  assumes "is_ok (do_probe ho now h)"
  shows "is_ok (do_probe (ho\<lparr>ho_stack := stack, ho_freed := freed\<rparr>) now h)"
proof -
  obtain r g where r: "probe (hy_member h) = Inr (r, g)" using assms by (auto simp: do_probe_def is_ok_iff rbind_Inr_iff)
  show ?thesis
  proof (cases r)
    case (Some node)
    then obtain ip port seq d g' where p: "probeNode (ho_le ho) (ho_ltr ho) (ho_junk ho) g node = Inr ((ip, port, seq, d), g')"
      using assms r by (auto simp: do_probe_def is_ok_iff rbind_Inr_iff)
    obtain c where "probe_client (ho_is_ip ho) now (sent_from_stack (ho\<lparr>ho_stack := stack, ho_freed := freed\<rparr>) d) ip port
        (conf_Probe_timeout (g_conf g')) = Inr c" using probe_client_ok unfolding is_ok_iff by blast
    then show ?thesis by (simp add: do_probe_def r Some p)
  qed (simp add: do_probe_def r)
qed

lemma node_fault_dead:
  assumes "backed L sy nw c" "i < length (sy_nodes sy)" "sy_nodes sy ! i = Running ho h conns"
    "delivers sy h conns e conns'" "hybrid_step (ho\<lparr>ho_stack := stack, ho_freed := freed\<rparr>) h e = Inl f"
  shows "own_fault ho h e f"
proof (cases e)
  case (H_tcp ev)
  then have "is_ok (hybrid_step ho h e)" using node_fault[OF assms(1-4)] by (cases "hybrid_step ho h e") (auto simp: own_fault_def)
  then have "is_ok (tcp_event_step (handleHeader (ho_le ho)) (handleBody (ho_moved ho) (ho_le ho) (ho_ltr ho) (ho_freed ho)) (ho_header ho)
      (ho_reread ho) ((hy_tcp h)\<lparr>sv_state := hy_member h\<rparr>) ev)" using H_tcp by (auto simp: is_ok_iff rbind_Inr_iff)
  from tcp_event_freed[OF this, of freed] show ?thesis using assms(5) H_tcp by (auto simp: is_ok_iff)
next
  case (H_tick k ev)
  show ?thesis
  proof (cases "k < length (hy_tickers h) \<and> ev \<noteq> Stop_called")
    case True
    note b = backedD[OF assms(1,2)]
    have h: "nt_members nw ! i = hy_member h" "wired nw i ho h conns" using b(1) assms(3) by simp_all
    obtain t cb where t: "hy_tickers h ! k = (t, cb)" by fastforce
    obtain t' where t': "ticker_step t ev = Inr t'" using ticker_step_ok[of t ev] by (auto simp: is_ok_iff)
    have "is_ok (do_probe (ho\<lparr>ho_stack := stack, ho_freed := freed\<rparr>) now (h\<lparr>hy_tickers := ts\<rparr>))" for now ts
      using b(3) h by (intro do_probe_stack do_probe_ok[OF b(5,6,2)]) (simp_all add: wired_def)
    then have "is_ok (hybrid_step (ho\<lparr>ho_stack := stack, ho_freed := freed\<rparr>) h e)"
      using H_tick True t t' by (simp add: tick_callback_def Let_def split: ticker_callback.split)
    then show ?thesis using assms(5) by simp
  qed (use assms(5) H_tick in auto)
next
  case (H_udp ev)
  then show ?thesis using node_fault[OF assms(1-4)] assms(5) by simp
next
  case (H_probe k ev)
  have "probe_callback (ho\<lparr>ho_stack := stack, ho_freed := freed\<rparr>) p l g = probe_callback ho p l g" for p l g
    by (simp add: probe_callback_def split: called.splits)
  then have "hybrid_step (ho\<lparr>ho_stack := stack, ho_freed := freed\<rparr>) h e = hybrid_step ho h e"
    using H_probe by (cases "k < length (hy_probes h)") (simp_all add: Let_def cong: if_cong)
  then show ?thesis using node_fault[OF assms(1-4)] assms(5) by simp
next
  case (H_suspicion k)
  then show ?thesis using node_fault[OF assms(1-4)] assms(5) by simp
qed

section \<open>Joining\<close>

text \<open>A node that waits has asked.\<close>

definition asked :: "'p system \<Rightarrow> bool" where
  "asked sy \<longleftrightarrow> (\<forall>ho g req. Joining ho g req \<in> set (sy_nodes sy) \<longrightarrow> req \<in> set (sy_requests sy))"

lemma sys_step_asked: "sys_step sy sy' \<Longrightarrow> asked sy \<Longrightarrow> asked sy'"
  by (induction rule: sys_step.induct) (fastforce simp: asked_def dest: set_update_subset_insert[THEN subsetD])+

lemma system_asked: "sys_step\<^sup>*\<^sup>* no_system sy \<Longrightarrow> asked sy"
  by (induction rule: rtranclp_induct) (auto simp: asked_def no_system_def intro: sys_step_asked[unfolded asked_def, rule_format])

text \<open>A step that starts no node stays within the bounds.\<close>

lemma backed_step:
  assumes "backed L sy nw c" "sys_step sy sy'" "length (sy_nodes sy') = length (sy_nodes sy)"
  obtains nw' c' where "backed L sy' nw' c'"
proof -
  have b: "realises sy nw" "implements nw c" "fits L (nt_members nw)" using assms(1) by (simp_all add: backed_def)
  obtain nw' where nw': "net_step\<^sup>*\<^sup>* nw nw'" "realises sy' nw'" using sys_step_sim[OF assms(2) b(1)] by blast
  obtain confs where confs: "map g_conf (nt_members nw') = map g_conf (nt_members nw) @ confs" using net_confs[OF nw'(1)] by blast
  have "length (nt_members nw') = length (nt_members nw)"
    using assms(3) b(1) nw'(2) by (simp add: realises_def sy_members_def)
  then have "confs = []" using arg_cong[OF confs, of length] by simp
  then have f: "fits L (nt_members nw')" using fits_prefix[OF b(3), of "nt_members nw'" "[]"] confs by simp
  obtain c' where "implements nw' c'" using net.run_sim[OF nw'(1) b(2) f] by blast
  then show thesis using that nw'(2) f by (simp add: backed_def)
qed

definition after_event :: "'p system \<Rightarrow> nat \<Rightarrow> host \<Rightarrow> 'p HybridRunner \<Rightarrow> connection list \<Rightarrow> 'p system" where
  "after_event sy i ho h conns = sy\<lparr>sy_nodes := (sy_nodes sy)[i := Running ho h conns],
     sy_datagrams := sy_datagrams sy @ sends_of h, sy_responses := sy_responses sy @ answers_of h conns\<rparr>"

lemma after_event_simps [simp]:
  "sy_nodes (after_event sy i ho h conns) = (sy_nodes sy)[i := Running ho h conns]"
  "sy_requests (after_event sy i ho h conns) = sy_requests sy"
  "sy_responses (after_event sy i ho h conns) = sy_responses sy @ answers_of h conns"
  by (simp_all add: after_event_def)

text \<open>An event of the TCP server happens, without a fault.\<close>

lemma tcp_event_run:
  assumes "backed L sy nw c" "i < length (sy_nodes sy)" "sy_nodes sy ! i = Running ho h conns" "delivers sy h conns (H_tcp e) conns'"
  obtains h' nw' c' where "hybrid_step ho h (H_tcp e) = Inr h'" "sys_step sy (after_event sy i ho h' conns')"
    "backed L (after_event sy i ho h' conns') nw' c'"
proof (cases "hybrid_step ho h (H_tcp e)")
  case (Inl f)
  then show thesis using node_fault[OF assms Inl] by (simp add: own_fault_def)
next
  case (Inr h')
  have step: "sys_step sy (after_event sy i ho h' conns')"
    unfolding after_event_def by (rule Sys_event[OF assms(2-4) Inr])
  show thesis by (rule backed_step[OF assms(1) step]) (use that[OF Inr step] in simp_all)
qed

end
