(* ===== verification/Joining.thy ===== *)
theory Joining
  imports Immunity
begin

text \<open>
  A node that waits in \<^verbatim>\<open>Join\<close> can always be let in; and what a system of nodes has to do with the cluster and with faults.
\<close>

section \<open>Starting\<close>

text \<open>
  The nodes of a system are what \<^verbatim>\<open>main\<close> makes: with its own address as the peer it starts the member and runs it; with
  another peer it sends the member's request, and runs what the response makes of the member.
\<close>

lemma program_starts:
  assumes "program_main ord indet id ho now no_one net [prog, addr, peer] = Some (Inr (Some h))" "valid_peer peer"
  obtains conf g where "config_new addr = Some (Inr conf)" "start_member conf ord indet id = Inr g"
    "h = alive now (HybridRunner_new ho no_one g) \<or>
     (\<exists>host port req resp g'. sync_request (ho_le ho) (ho_ltr ho) g = Inr req \<and> net host port req = Some resp \<and>
       sync_response (ho_moved ho) (ho_le ho) g req resp = Inr g' \<and> h = alive now (HybridRunner_new ho no_one g'))"
proof -
  obtain conf g' where c: "config_new addr = Some (Inr conf)"
    "Join (ho_moved ho) (ho_le ho) (ho_ltr ho) net (RegisterNotifier (gossiper_new conf ord indet id) True True) peer = Some (Inr g')"
    "h = alive now (HybridRunner_new ho no_one g')"
    using assms by (auto simp: program_main_def Let_def rbind_Inr_iff split: option.splits sum.splits)
  obtain host port where "Split peer '':'' = Some [host, port]"
    using assms(2) by (auto simp: valid_peer_def split: option.splits list.splits)
  then obtain g where g: "start_member conf ord indet id = Inr g"
    "g' = g \<or> syncState (ho_moved ho) (ho_le ho) (ho_ltr ho) (net host port) g = Inr g'"
    using c(2) by (auto simp: Join_def start_member_def rbind_Inr_iff split: if_splits sum.splits)
  have "\<exists>req resp. sync_request (ho_le ho) (ho_ltr ho) g = Inr req \<and> net host port req = Some resp \<and> sync_response (ho_moved ho) (ho_le ho) g req resp = Inr g'"
    if "syncState (ho_moved ho) (ho_le ho) (ho_ltr ho) (net host port) g = Inr g'"
    using that by (auto simp: syncState_def rbind_Inr_iff of_option_def split: option.splits)
  then have "h = alive now (HybridRunner_new ho no_one g) \<or>
     (\<exists>host port req resp g'. sync_request (ho_le ho) (ho_ltr ho) g = Inr req \<and> net host port req = Some resp \<and>
       sync_response (ho_moved ho) (ho_le ho) g req resp = Inr g' \<and> h = alive now (HybridRunner_new ho no_one g'))"
    using g(2) c(3) by blast
  then show thesis using that c(1) g(1) by blast
qed

section \<open>Serving a request\<close>

text \<open>A session of a node goes on with what its peer has sent.\<close>

lemma completion_length: "case completion_of inp s of Failed \<Rightarrow> True | Completed data \<Rightarrow> length data = wanted s"
  by (simp add: completion_of_def)

lemma session_event_run:
  assumes "backed L sy nw c" "i < length (sy_nodes sy)" "sy_nodes sy ! i = Running ho h conns" "k < length (sv_sessions (hy_tcp h))"
    "sv_sessions (hy_tcp h) ! k = s" "s_op s \<noteq> Ended" "conns ! k = (req, inp)"
  obtains h' nw' c' g s' where
    "session_step (handleHeader (ho_le ho)) (handleBody (ho_moved ho) (ho_le ho) (ho_ltr ho) (ho_freed ho)) (ho_header ho) (ho_reread ho)
       (hy_member h, s) (completion_of inp s) = Inr (g, s')"
    "sv_sessions (hy_tcp h') = (sv_sessions (hy_tcp h))[k := s']" "hy_member h' = g"
    "sys_step sy (after_event sy i ho h' (conns[k := (req, drop (wanted s) inp)]))"
    "backed L (after_event sy i ho h' (conns[k := (req, drop (wanted s) inp)])) nw' c'"
proof -
  let ?e = "Session_event k (completion_of inp s)"
  have ok: "event_ok (hy_tcp h) ?e" using assms(4-6) completion_length[where inp = inp and s = s] by (auto split: completion.splits)
  then have d: "delivers sy h conns (H_tcp ?e) (conns[k := (req, drop (wanted s) inp)])" using assms(5,7) by (simp add: Let_def)
  obtain h' nw' c' where h': "hybrid_step ho h (H_tcp ?e) = Inr h'"
    "sys_step sy (after_event sy i ho h' (conns[k := (req, drop (wanted s) inp)]))"
    "backed L (after_event sy i ho h' (conns[k := (req, drop (wanted s) inp)])) nw' c'"
    by (rule tcp_event_run[OF assms(1-3) d])
  have ok': "event_ok ((hy_tcp h)\<lparr>sv_state := hy_member h\<rparr>) ?e" using ok by (simp only: event_ok_state)
  obtain g s' where "session_step (handleHeader (ho_le ho)) (handleBody (ho_moved ho) (ho_le ho) (ho_ltr ho) (ho_freed ho)) (ho_header ho) (ho_reread ho)
       (hy_member h, s) (completion_of inp s) = Inr (g, s')" "sv_sessions (hy_tcp h') = (sv_sessions (hy_tcp h))[k := s']" "hy_member h' = g"
    using h'(1) assms(5) by (simp only: hybrid_step.simps tcp_event_step_def ok' if_True) (auto simp: rbind_Inr_iff)
  then show thesis using that h'(2,3) by blast
qed

text \<open>A connection on which a member's request arrives is accepted.\<close>

definition some_junk :: "bytes \<times> bytes" where
  "some_junk = (replicate buff_size 0, replicate buff_size 0)"

lemma accept_run:
  assumes "backed L sy nw c" "i < length (sy_nodes sy)" "sy_nodes sy ! i = Running ho h conns" "req \<in> set (sy_requests sy)"
  obtains h' nw' c' where "sv_sessions (hy_tcp h') = sv_sessions (hy_tcp h) @ [new_session some_junk]"
    "sys_step sy (after_event sy i ho h' (conns @ [(req, req)]))" "backed L (after_event sy i ho h' (conns @ [(req, req)])) nw' c'"
proof -
  let ?e = "Accepted some_junk"
  have t: "sv_accepting (hy_tcp h)" "sv_header_size (hy_tcp h) = of_nat HEADER_SIZE"
    using backedD(1)[OF assms(1,2)] assms(3) by (simp_all add: wired_def tcp_sound_def)
  then have ok: "event_ok (hy_tcp h) ?e" by (simp add: some_junk_def)
  then have d: "delivers sy h conns (H_tcp ?e) (conns @ [(req, req)])" using assms(4) by auto
  obtain h' nw' c' where h': "hybrid_step ho h (H_tcp ?e) = Inr h'" "sys_step sy (after_event sy i ho h' (conns @ [(req, req)]))"
    "backed L (after_event sy i ho h' (conns @ [(req, req)])) nw' c'"
    by (rule tcp_event_run[OF assms(1-3) d])
  have "event_ok ((hy_tcp h)\<lparr>sv_state := hy_member h\<rparr>) ?e" using ok by (simp only: event_ok_state)
  then have "sv_sessions (hy_tcp h') = sv_sessions (hy_tcp h) @ [new_session some_junk]"
    using h'(1) t(2) by (auto simp: tcp_event_step_def on_accept_def doAccept_def new_session_def)
  then show thesis using that h'(2,3) by blast
qed

lemma request_message:
  assumes "backed L sy nw c" "req \<in> set (sy_requests sy)"
  obtains j msgs where "(j, req) \<in> set (nt_requests nw)" "sync_message req msgs"
proof -
  have b: "carried sy nw" "conveyed nw c" using assms(1) by (simp_all add: backed_def realises_def implements_def)
  have "req \<in> snd ` set (nt_requests nw)" using b(1) assms(2) by (auto simp: carried_def)
  then obtain j where j: "(j, req) \<in> set (nt_requests nw)" by force
  then have "syncs c req" using b(2) unfolding conveyed_def by blast
  then show thesis using that[OF j] unfolding syncs_def by blast
qed

text \<open>The header announces the body that follows.\<close>

lemma request_complete:
  assumes "sync_message req msgs" "header_read ho junk req = Inr s"
  shows "HEADER_SIZE \<le> length req" "wanted s \<le> length (drop HEADER_SIZE req)"
proof -
  obtain body where r: "req = wire_header \<lparr>h_Type = TYPE_SYNCSTATE, h_Body_length = of_nat (length body)\<rparr> @ body"
    "length body + 8 \<le> buff_size"
    using assms(1) unfolding sync_message_def by blast
  let ?h = "\<lparr>h_Type = TYPE_SYNCSTATE, h_Body_length = of_nat (length body)\<rparr>"
  have d: "length (wire_header ?h) = HEADER_SIZE" by (simp add: HEADER_SIZE_def)
  then have t: "take HEADER_SIZE req = wire_header ?h" "drop HEADER_SIZE req = body" by (simp_all add: r(1))
  show "HEADER_SIZE \<le> length req" using d by (simp add: r(1))
  note s0 = sync_session(2,4)[OF r(2), where junk = junk, folded new_session_def]
  have "s_header_size (new_session junk) = of_nat HEADER_SIZE" by (simp add: new_session_def Go_def doReadHeader_def Session_new_def)
  then have "s = (received (wire_header ?h) (new_session junk))\<lparr>s_op := Reading_body ?h\<rparr>"
    using assms(2) s0(1,2) by (simp add: header_read_def doReadBody_def t)
  then show "wanted s \<le> length (drop HEADER_SIZE req)" using sync_session(5,6)[OF r(2)] by (simp add: wanted_def t)
qed

text \<open>The answer is the member's table, and whoever reads it knows that member.\<close>

lemma serves_table:
  assumes "implements nw c" "fits L (nt_members nw)" "i < length (nt_members nw)" "(j, req) \<in> set (nt_requests nw)"
    "length (snd junk) = buff_size" "member_serves id le ltr (!) fresh id junk req (nt_members nw ! i) = Inr (resp, g, s)"
  shows "sync_message resp (node_table g)"
proof -
  have c: "cluster_step\<^sup>*\<^sup>* no_members c" "cl_members c = nt_members nw" "conveyed nw c"
    using assms(1) by (simp_all add: implements_def)
  obtain msgs where m: "sync_message req msgs" "set msgs \<subseteq> set (cl_wire c)"
    using c(3) assms(4) unfolding conveyed_def syncs_def by blast
  obtain h where h: "rfold (\<lambda>g. merge_state g True) (nt_members nw ! i) msgs = Inr h" by (rule implements_merges[OF assms(1,3) m(2)])
  have "table_ok h" using merged_table_ok(2)[of c L i msgs True h] c(1,2) assms(2,3) m(2) h by simp
  moreover have "list_all sendable msgs" using wire_sendable[OF c(1) _ m(2)] assms(2) c(2) by simp
  ultimately obtain resp' s' where r: "member_serves id le ltr (!) fresh id junk req (nt_members nw ! i) = Inr (resp', h, s')"
    "sync_message resp' (node_table h)"
    using member_serves_merge[OF m(1) _ h _ assms(5)] by blast
  then show ?thesis using assms(6) by simp
qed

lemma own_entry:
  assumes "calm g"
  obtains st where "st \<in> set (node_table g)" "ns_Name st = g_name g" "ns_State st = STATE_ALIVE" "0 < ns_Dominant st"
proof -
  have g: "ev_inv g" "quiet_table g" "positive g" using assms by (simp_all add: calm_def unsuspecting_def)
  obtain st where st: "g_find g (g_name g) = Some st" "ns_State st \<noteq> STATE_DEAD" using lists_self[OF g(1)] by (auto simp: lists_def)
  have inv: "g_inv g" using ev_inv_g_inv[OF g(1)] .
  then have "ns_State st = STATE_ALIVE" "ns_Name st = g_name g"
    using st g(2) by (auto simp: quiet_table_def g_inv_def proper_state_def)
  moreover have "st \<in> set (node_table g)" using node_table_find st(1) inv unfolding g_inv_def by blast
  moreover have "0 < ns_Dominant st" using g(3) st(1) by (simp add: positive_def)
  ultimately show thesis using that by blast
qed

lemma answer_learns:
  assumes "implements nw c" "fits L (nt_members nw)" "i < length (nt_members nw)" "(req, resp) \<in> set (nt_responses nw)"
    "sync_message resp (node_table g0)" "list_all sendable (node_table g0)" "calm g0" "sync_response id le (nt_members nw ! i) req resp = Inr g"
  shows "getNodeState g (g_name g0) \<noteq> None"
proof -
  have c: "cluster_step\<^sup>*\<^sup>* no_members c" "cl_members c = nt_members nw" "conveyed nw c"
    using assms(1) by (simp_all add: implements_def)
  have "syncs c req" using c(3) assms(4) unfolding conveyed_def by blast
  then have "HEADER_SIZE \<le> length req" by (auto simp: syncs_def sync_message_def HEADER_SIZE_def)
  then have "rfold (\<lambda>g. merge_state g False) (nt_members nw ! i) (node_table g0) = Inr g"
    using sync_response_merge[OF assms(5,6)] assms(8) by simp
  moreover obtain st where st: "st \<in> set (node_table g0)" "ns_Name st = g_name g0" "ns_State st = STATE_ALIVE" "0 < ns_Dominant st"
    by (rule own_entry[OF assms(7)])
  moreover have "ev_inv (nt_members nw ! i)" using cluster_ev_inv[OF c(1)] assms(3) c(2) by simp
  ultimately have "learnt g st" using merge_learns by blast
  then show ?thesis using st(2) by (auto simp: learnt_def)
qed

text \<open>So a node that runs can answer any request: it accepts a connection and reads the header, and then the body.\<close>

lemma answers_nth:
  assumes "k < length (sv_sessions (hy_tcp h))" "length conns = length (sv_sessions (hy_tcp h))"
    "s_op (sv_sessions (hy_tcp h) ! k) = Writing resp" "fst (conns ! k) = req"
  shows "(req, resp) \<in> set (answers_of h conns)"
proof -
  have "(sv_sessions (hy_tcp h) ! k, conns ! k) \<in> set (zip (sv_sessions (hy_tcp h)) conns)"
    using assms(1,2) by (auto simp: set_zip)
  moreover have "(req, resp) \<in> set (answer_op (fst (conns ! k)) (s_op (sv_sessions (hy_tcp h) ! k)))" using assms(3,4) by simp
  ultimately show ?thesis by (auto simp: answers_of_def split_beta intro!: bexI)
qed

lemma header_run:
  assumes "backed L sy nw c" "i < length (sy_nodes sy)" "sy_nodes sy ! i = Running ho h conns" "req \<in> set (sy_requests sy)"
  obtains sy' h' nw' c' s where "sys_step\<^sup>*\<^sup>* sy sy'" "backed L sy' nw' c'" "sy_requests sy' = sy_requests sy"
    "sy_nodes sy' = (sy_nodes sy)[i := Running ho h' (conns @ [(req, drop HEADER_SIZE req)])]"
    "sv_sessions (hy_tcp h') = sv_sessions (hy_tcp h) @ [s]" "header_read ho some_junk req = Inr s"
proof -
  let ?K = "length (sv_sessions (hy_tcp h))" and ?s0 = "new_session some_junk"
  have K: "length conns = ?K"
    using backedD(1)[OF assms(1,2)] assms(3) by (auto simp: wired_def tcp_sound_def dest: list_all2_lengthD)
  obtain msgs where msgs: "sync_message req msgs" by (rule request_message[OF assms(1,4)])
  obtain h1 n1 c1 where s1: "sv_sessions (hy_tcp h1) = sv_sessions (hy_tcp h) @ [?s0]"
    "sys_step sy (after_event sy i ho h1 (conns @ [(req, req)]))" (is "sys_step sy ?y1")
    "backed L (after_event sy i ho h1 (conns @ [(req, req)])) n1 c1" by (rule accept_run[OF assms])
  obtain h2 n2 c2 g2 s where s2: "session_step (handleHeader (ho_le ho)) (handleBody (ho_moved ho) (ho_le ho) (ho_ltr ho) (ho_freed ho)) (ho_header ho)
      (ho_reread ho) (hy_member h1, ?s0) (completion_of req ?s0) = Inr (g2, s)"
    "sv_sessions (hy_tcp h2) = (sv_sessions (hy_tcp h1))[?K := s]"
    "sys_step ?y1 (after_event ?y1 i ho h2 ((conns @ [(req, req)])[?K := (req, drop (wanted ?s0) req)]))" (is "sys_step _ ?y2")
    "backed L (after_event ?y1 i ho h2 ((conns @ [(req, req)])[?K := (req, drop (wanted ?s0) req)])) n2 c2"
    by (rule session_event_run[OF s1(3), of i ho h1 "conns @ [(req, req)]" ?K ?s0 req req]) (use assms(2) s1(1) K in \<open>simp_all add: nth_append\<close>)
  have conns: "(conns @ [(req, req)])[?K := (req, drop (wanted ?s0) req)] = conns @ [(req, drop HEADER_SIZE req)]" by (simp add: K[symmetric])
  have "HEADER_SIZE \<le> length req" using msgs by (auto simp: sync_message_def HEADER_SIZE_def)
  then have "header_read ho some_junk req = Inr s" using s2(1) by (auto simp: completion_of_def header_read_def rbind_Inr_iff)
  moreover have "sys_step\<^sup>*\<^sup>* sy ?y2" using s1(2) s2(3) by (meson converse_rtranclp_into_rtranclp r_into_rtranclp)
  moreover have "sy_nodes ?y2 = (sy_nodes sy)[i := Running ho h2 (conns @ [(req, drop HEADER_SIZE req)])]"
    by (simp only: after_event_simps conns list_update_overwrite)
  ultimately show thesis using that[of ?y2 n2 c2 h2 s] s1(1) s2(2,4) by simp
qed

lemma body_run:
  assumes "backed L sy nw c" "i < length (sy_nodes sy)" "req \<in> set (sy_requests sy)"
    "sy_nodes sy ! i = Running ho h (conns @ [(req, drop HEADER_SIZE req)])" "sv_sessions (hy_tcp h) = ss @ [s]"
    "header_read ho some_junk req = Inr s"
  obtains sy' h' conns' nw' c' resp where "sys_step sy sy'" "backed L sy' nw' c'" "sy_nodes sy' = (sy_nodes sy)[i := Running ho h' conns']"
    "(req, resp) \<in> set (sy_responses sy')" "sync_message resp (node_table (hy_member h'))"
proof -
  let ?K = "length ss" and ?conns = "conns @ [(req, drop HEADER_SIZE req)]"
  note b = backedD[OF assms(1,2)]
  have h: "nt_members nw ! i = hy_member h" "host_ok ho" using b(1) assms(4) by (simp_all add: wired_def)
  then have ho: "ho_moved ho = id" "ho_freed ho = (!)" "ho_reread ho = id" by (simp_all add: host_ok_def)
  have K: "length conns = ?K" using b(1) assms(4,5) by (auto simp: wired_def tcp_sound_def dest: list_all2_lengthD)
  obtain j msgs where msgs: "(j, req) \<in> set (nt_requests nw)" "sync_message req msgs" by (rule request_message[OF assms(1,3)])
  have len: "HEADER_SIZE \<le> length req" using msgs(2) by (auto simp: sync_message_def HEADER_SIZE_def)
  obtain header where op: "s_op s = Reading_body header" using header_read_op[OF assms(6)] by blast
  obtain h' nw' c' g s' where s': "session_step (handleHeader (ho_le ho)) (handleBody (ho_moved ho) (ho_le ho) (ho_ltr ho) (ho_freed ho)) (ho_header ho)
      (ho_reread ho) (hy_member h, s) (completion_of (drop HEADER_SIZE req) s) = Inr (g, s')"
    "sv_sessions (hy_tcp h') = (sv_sessions (hy_tcp h))[?K := s']" "hy_member h' = g"
    "sys_step sy (after_event sy i ho h' (?conns[?K := (req, drop (wanted s) (drop HEADER_SIZE req))]))" (is "sys_step sy ?sy'")
    "backed L (after_event sy i ho h' (?conns[?K := (req, drop (wanted s) (drop HEADER_SIZE req))])) nw' c'"
    by (rule session_event_run[OF assms(1,2,4), of ?K s req "drop HEADER_SIZE req"]) (use assms(5) K op in \<open>simp_all add: nth_append\<close>)
  let ?conns' = "?conns[?K := (req, drop (wanted s) (drop HEADER_SIZE req))]"
  have c: "completion_of (drop HEADER_SIZE req) s = Completed (take (wanted s) (drop HEADER_SIZE req))"
    using request_complete(2)[OF msgs(2) assms(6)] by (simp add: completion_of_def)
  then obtain resp where resp: "s_op s' = Writing resp" using s'(1) op by (auto simp: rbind_Inr_iff Let_def doWriteResponse_def)
  have "member_serves id (ho_le ho) (ho_ltr ho) (!) (ho_header ho) id some_junk req (nt_members nw ! i) = Inr (resp, g, s'\<lparr>s_op := Ended\<rparr>)"
    using session_parts[OF assms(6) len s'(1)] c resp by (simp add: member_serves_def new_session_def ho h(1))
  then have "sync_message resp (node_table g)" by (rule serves_table[OF b(5,6,2) msgs(1), rotated]) (simp add: some_junk_def)
  moreover have "(req, resp) \<in> set (answers_of h' ?conns')"
    by (rule answers_nth[of ?K]) (use assms(5) s'(2) resp K in \<open>simp_all add: nth_append\<close>)
  ultimately show thesis using that[of ?sy' nw' c' h' ?conns' resp] s'(3-5) by simp
qed

lemma alive_member: "hy_member (alive now (HybridRunner_new ho no_one g)) = g"
  by (simp add: alive_def Run_servers_def AddTicker_def HybridRunner_new_def)

text \<open>So a node that waits can read the answer of a node that runs.\<close>

lemma join_run:
  assumes "sys_step\<^sup>*\<^sup>* no_system sy" "backed L sy nw c" "i < length (sy_nodes sy)" "sy_nodes sy ! i = Running ho h conns"
    "j < length (sy_nodes sy)" "sy_nodes sy ! j = Joining ho' g req"
  obtains sy' h' conns' h2 where "sys_step\<^sup>*\<^sup>* sy sy'" "sy_nodes sy' = (sy_nodes sy)[i := Running ho h' conns', j := Running ho' h2 []]"
    "getNodeState (hy_member h2) (g_name (hy_member h')) \<noteq> None"
proof -
  have req: "req \<in> set (sy_requests sy)" using system_asked[OF assms(1)] assms(5,6) unfolding asked_def by (metis nth_mem)
  obtain y2 h2 n2 c2 s where y2: "sys_step\<^sup>*\<^sup>* sy y2" "backed L y2 n2 c2" "sy_requests y2 = sy_requests sy"
    "sy_nodes y2 = (sy_nodes sy)[i := Running ho h2 (conns @ [(req, drop HEADER_SIZE req)])]"
    "sv_sessions (hy_tcp h2) = sv_sessions (hy_tcp h) @ [s]" "header_read ho some_junk req = Inr s"
    by (rule header_run[OF assms(2-4) req])
  have i2: "i < length (sy_nodes y2)" "req \<in> set (sy_requests y2)" "sy_nodes y2 ! i = Running ho h2 (conns @ [(req, drop HEADER_SIZE req)])"
    using assms(3) req y2(3,4) by simp_all
  obtain y3 h3 conns3 n3 c3 resp where y3: "sys_step y2 y3" "backed L y3 n3 c3" "sy_nodes y3 = (sy_nodes y2)[i := Running ho h3 conns3]"
    "(req, resp) \<in> set (sy_responses y3)" "sync_message resp (node_table (hy_member h3))"
    by (rule body_run[OF y2(2) i2 y2(5,6)])
  have i: "i < length (sy_nodes y3)" "sy_nodes y3 ! i = Running ho h3 conns3" using y3(3) y2(4) assms(3) by simp_all
  have "i \<noteq> j" using assms(4,6) by auto
  then have j: "j < length (sy_nodes y3)" "sy_nodes y3 ! j = Joining ho' g req" using y3(3) y2(4) assms(5,6) by simp_all
  note b = backedD[OF y3(2) j(1)] and bi = backedD[OF y3(2) i(1)]
  have stored: "(req, resp) \<in> set (nt_responses n3)" using b(4) y3(4) by (auto simp: carried_def)
  have mv: "ho_moved ho' = id" using b(1) j(2) by (simp add: host_ok_def)
  have "is_ok (sync_response id (ho_le ho') (nt_members n3 ! j) req resp)" by (rule answer_ok[OF b(5,6,2) stored])
  moreover have m: "nt_members n3 ! j = g" "nt_members n3 ! i = hy_member h3" using b(1) bi(1) i(2) j(2) by simp_all
  ultimately obtain g' where g': "sync_response (ho_moved ho') (ho_le ho') g req resp = Inr g'" by (auto simp: is_ok_iff mv)
  have c3: "cluster_step\<^sup>*\<^sup>* no_members c3" "cl_members c3 = nt_members n3" using b(5) by (simp_all add: implements_def)
  have h3: "hy_member h3 \<in> set (cl_members c3)" unfolding c3(2) m(2)[symmetric] using bi(2) by (rule nth_mem)
  have "list_all sendable (node_table (hy_member h3))" using cluster_table_ok[OF c3(1) _ h3] b(6) c3(2) by (simp add: table_ok_def)
  moreover have "calm (hy_member h3)" using cluster_run_calm[OF c3(1) no_members_calm] h3 by (simp add: cluster_calm_def)
  ultimately have known: "getNodeState g' (g_name (hy_member h3)) \<noteq> None" using answer_learns[OF b(5,6,2) stored y3(5)] g' m(1) mv by simp
  let ?h4 = "alive 0 (HybridRunner_new ho' undefined g')"
  let ?y4 = "y3\<lparr>sy_nodes := (sy_nodes y3)[j := Running ho' ?h4 []]\<rparr>"
  have "sys_step y3 ?y4" by (rule Sys_joins[OF j y3(4) g'])
  then have "sys_step\<^sup>*\<^sup>* sy ?y4" using y2(1) y3(1) by (meson rtranclp.rtrancl_into_rtrancl)
  then show thesis using known by (intro that[of ?y4 h3 conns3 ?h4]) (simp_all add: y2(4) y3(3) alive_member)
qed

section \<open>An example\<close>

text \<open>Node \<open>a\<close> runs, node \<open>b\<close> asks to join, and is let in.\<close>

lemma system_confs:
  assumes "sys_step\<^sup>*\<^sup>* no_system sy" "sys_step\<^sup>*\<^sup>* sy sy'"
  shows "\<exists>confs. map g_conf (sy_members sy') = map g_conf (sy_members sy) @ confs"
proof -
  obtain nw where nw: "realises sy nw" by (rule system_realises[OF assms(1)])
  obtain nw' where "net_step\<^sup>*\<^sup>* nw nw'" "realises sy' nw'" using system.run_sim[OF assms(2) nw] by blast
  then show ?thesis using net_confs[of nw nw'] nw by (simp add: realises_def)
qed

lemma ex_waiting:
  obtains sy h req where "sys_step\<^sup>*\<^sup>* no_system sy" "map g_conf (sy_members sy) = [ex_conf, ex_conf_b]"
    "sy_nodes sy ! 0 = Running ex_ho (h :: nat HybridRunner) []" "sy_nodes sy ! 1 = Joining ex_ho (sy_members sy ! 1) req" "sy_requests sy = [req]"
proof -
  obtain a b where m: "start_member ex_conf (#) 0 id = Inr a" "start_member ex_conf_b (#) 0 id = Inr b" by (rule ex_net_states)
  have confs: "g_conf a = ex_conf" "g_conf b = ex_conf_b"
    using start_member_setup[OF order_ok_Cons m(1)] start_member_setup[OF order_ok_Cons m(2)] by simp_all
  let ?c1 = "no_members\<lparr>cl_members := [a]\<rparr>" and ?c2 = "no_members\<lparr>cl_members := [a, b]\<rparr>"
  have "cluster_step no_members ?c1" using Starts[OF order_ok_Cons m(1), of no_members] by (simp add: no_members_def)
  moreover have "cluster_step ?c1 ?c2" using Starts[OF order_ok_Cons m(2), of ?c1] by (simp add: no_members_def)
  ultimately have "cluster_step\<^sup>*\<^sup>* no_members ?c2" by (meson converse_rtranclp_into_rtranclp r_into_rtranclp)
  moreover have "fits 50 (cl_members ?c2)" by (rule ex_fits) (simp add: confs)
  ultimately have "table_ok b" by (rule cluster_table_ok) simp
  then obtain req where req: "sync_request (ho_le ex_ho) (ho_ltr ex_ho) b = Inr req" by (rule sync_request_ok)
  have ho: "host_ok ex_ho" by (simp add: host_ok_def ex_ho_def)
  let ?h = "alive 0 (HybridRunner_new ex_ho (0 :: nat) a)"
  let ?s1 = "no_system\<lparr>sy_nodes := [Running ex_ho ?h []]\<rparr>"
  let ?s2 = "no_system\<lparr>sy_nodes := [Running ex_ho ?h [], Joining ex_ho b req], sy_requests := [req]\<rparr>"
  have "sys_step no_system ?s1" using Sys_alone[OF order_ok_Cons ho m(1), of no_system 0 0] by (simp add: no_system_def)
  moreover have "sys_step ?s1 ?s2" using Sys_asks[OF order_ok_Cons ho m(2) req, of ?s1] by (simp add: no_system_def)
  ultimately have "sys_step\<^sup>*\<^sup>* no_system ?s2" by (meson converse_rtranclp_into_rtranclp r_into_rtranclp)
  then show thesis by (rule that) (simp_all add: sy_members_def alive_member confs)
qed

lemma ex_joined_system:
  obtains sy h conns h2 where "sys_step\<^sup>*\<^sup>* no_system sy" "map g_conf (sy_members sy) = [ex_conf, ex_conf_b]"
    "sy_nodes sy = [Running ex_ho (h :: nat HybridRunner) conns, Running ex_ho h2 []]"
    "getNodeState (hy_member h2) (g_name (hy_member h)) \<noteq> None"
proof -
  obtain sy :: "nat system" and h req where sy: "sys_step\<^sup>*\<^sup>* no_system sy" "map g_conf (sy_members sy) = [ex_conf, ex_conf_b]"
    "sy_nodes sy ! 0 = Running ex_ho h []" "sy_nodes sy ! 1 = Joining ex_ho (sy_members sy ! 1) req" by (rule ex_waiting)
  obtain nw c where b: "backed 50 sy nw c" by (rule system_backed[OF sy(1) ex_fits[OF sy(2)]])
  have "length (sy_nodes sy) = 2" using arg_cong[OF sy(2), of length] by (simp add: sy_members_def)
  then have l: "0 < length (sy_nodes sy)" "1 < length (sy_nodes sy)" "sy_nodes sy = [sy_nodes sy ! 0, sy_nodes sy ! 1]"
    by (auto simp: numeral_2_eq_2 length_Suc_conv)
  obtain sy' h' conns' h2 where sy': "sys_step\<^sup>*\<^sup>* sy sy'" "sy_nodes sy' = (sy_nodes sy)[0 := Running ex_ho h' conns', 1 := Running ex_ho h2 []]"
    "getNodeState (hy_member h2) (g_name (hy_member h')) \<noteq> None"
    by (rule join_run[OF sy(1) b l(1) sy(3) l(2) sy(4)])
  have n: "sy_nodes sy' = [Running ex_ho h' conns', Running ex_ho h2 []]" using sy'(2) by (subst (asm) l(3)) simp
  obtain cs where cs: "map g_conf (sy_members sy') = [ex_conf, ex_conf_b] @ cs" using system_confs[OF sy(1) sy'(1)] unfolding sy(2) by blast
  have "cs = []" using arg_cong[OF cs, of length] n by (simp add: sy_members_def)
  then show thesis using that[OF rtranclp_trans[OF sy(1) sy'(1)] _ n sy'(3)] cs by simp
qed

section \<open>Properties\<close>

text \<open>
  (C4) The whole stack implements the cluster. Every run of nodes, each with its TCP server and sessions, its UDP server, its
  tickers and the clients of its probes, on hosts of their own, with events in any order and a network that loses, repeats,
  delays and misdelivers, is a run of the cluster of the theory \<open>Cluster\<close> with the same members, as long as their names
  and addresses leave room in the buffers. So what holds of every cluster, say that nothing is invented, holds of every system.
\<close>

theorem system_refines_cluster:
  assumes "sys_step\<^sup>*\<^sup>* no_system sy" "fits L (sy_members sy)"
  shows "\<exists>c. cluster_step\<^sup>*\<^sup>* no_members c \<and> cl_members c = sy_members sy"
proof -
  obtain nw c where b: "backed L sy nw c" by (rule system_backed[OF assms])
  then show ?thesis by (auto simp: backed_def implements_def realises_def)
qed

theorem system_refines_cluster_witness:
  "\<exists>sy h conns h2 c. sys_step\<^sup>*\<^sup>* no_system sy \<and> sy_nodes sy = [Running ex_ho (h :: nat HybridRunner) conns, Running ex_ho h2 []] \<and>
    getNodeState (hy_member h2) (g_name (hy_member h)) \<noteq> None \<and> cluster_step\<^sup>*\<^sup>* no_members c \<and> cl_members c = sy_members sy"
proof -
  obtain sy :: "nat system" and h conns h2 where sy: "sys_step\<^sup>*\<^sup>* no_system sy" "map g_conf (sy_members sy) = [ex_conf, ex_conf_b]"
    "sy_nodes sy = [Running ex_ho h conns, Running ex_ho h2 []]" "getNodeState (hy_member h2) (g_name (hy_member h)) \<noteq> None"
    by (rule ex_joined_system)
  from system_refines_cluster[OF sy(1) ex_fits[OF sy(2)]] sy show ?thesis by blast
qed



text \<open>
  (C6) A node that waits in \<^verbatim>\<open>Join\<close> can be let in. In every system as above in which some node runs, the system can go on so
  that this node accepts a connection, reads the request of the one that waits, and answers; and the one that waits then runs and
  knows the node that has let it in. All other nodes are as before.
\<close>

theorem system_joins:
  assumes "sys_step\<^sup>*\<^sup>* no_system sy" "fits L (sy_members sy)" "i < length (sy_nodes sy)" "sy_nodes sy ! i = Running ho h conns"
    "j < length (sy_nodes sy)" "sy_nodes sy ! j = Joining ho' g req"
  shows "\<exists>sy' h' conns' h2. sys_step\<^sup>*\<^sup>* sy sy' \<and> sy_nodes sy' = (sy_nodes sy)[i := Running ho h' conns', j := Running ho' h2 []] \<and>
    getNodeState (hy_member h2) (g_name (hy_member h')) \<noteq> None"
proof -
  obtain nw c where b: "backed L sy nw c" by (rule system_backed[OF assms(1,2)])
  show ?thesis by (rule join_run[OF assms(1) b assms(3-6)]) blast
qed

theorem system_joins_witness:
  "\<exists>(sy :: nat system) g req sy' h' conns' h2. sys_step\<^sup>*\<^sup>* no_system sy \<and> sy_nodes sy ! 1 = Joining ex_ho g req \<and> sys_step\<^sup>*\<^sup>* sy sy' \<and>
    sy_nodes sy' = (sy_nodes sy)[0 := Running ex_ho h' conns', 1 := Running ex_ho h2 []] \<and>
    getNodeState (hy_member h2) (g_name (hy_member h')) \<noteq> None"
proof -
  obtain sy :: "nat system" and h req where sy: "sys_step\<^sup>*\<^sup>* no_system sy" "map g_conf (sy_members sy) = [ex_conf, ex_conf_b]"
    "sy_nodes sy ! 0 = Running ex_ho h []" "sy_nodes sy ! 1 = Joining ex_ho (sy_members sy ! 1) req" by (rule ex_waiting)
  have l: "0 < length (sy_nodes sy)" "1 < length (sy_nodes sy)" using arg_cong[OF sy(2), of length] by (simp_all add: sy_members_def)
  from system_joins[OF sy(1) ex_fits[OF sy(2)] l(1) sy(3) l(2) sy(4)] sy(1,4) show ?thesis by blast
qed

end
