(* ===== verification/Flat_Verifier.thy ===== *)
theory Flat_Verifier
  imports Packets
begin

text \<open>
  \<^verbatim>\<open>class Verifier\<close> and the verifying half of \<^verbatim>\<open>class Table\<close> of \<^verbatim>\<open>src/thirdparty/flatbuffers/flatbuffers.h\<close>, and the \<^verbatim>\<open>Verify\<close>
  functions of \<^verbatim>\<open>src/src/message/message_generated.h\<close>. The program never calls them: what arrives is read
  as it is. They are modelled because they say which buffers it would be safe to read.

  The verifier reads the memory it verifies, so a check can fault itself. It returns whether it succeeded, and
  the verifier with its counters.
\<close>

section \<open>The verifier\<close>

record Verifier =
  vf_buf :: nat
  vf_end :: nat
  vf_depth :: nat
  vf_max_depth :: nat
  vf_num_tables :: nat
  vf_max_tables :: nat

definition Verifier_new :: "nat \<Rightarrow> nat \<Rightarrow> Verifier" where
  "Verifier_new buf buf_len =
     \<lparr>vf_buf = buf, vf_end = buf + buf_len, vf_depth = 0, vf_max_depth = 64, vf_num_tables = 0, vf_max_tables = 1000000\<rparr>"

type_synonym check = "Verifier \<Rightarrow> (bool \<times> Verifier) result"

text \<open>The operator \<^verbatim>\<open>&&\<close> over a chain of checks: what follows a check that fails is not evaluated.\<close>

fun checks :: "check list \<Rightarrow> check" where
  "checks [] v = Inr (True, v)"
| "checks (c # cs) v = rbind (c v) (\<lambda>(ok, v'). if ok then checks cs v' else Inr (False, v'))"

definition pure_check :: "(Verifier \<Rightarrow> bool) \<Rightarrow> check" where
  "pure_check p v = Inr (p v, v)"

text \<open>Positions are integers here: a vtable may seem to lie before the start of memory.\<close>

definition Verify_range :: "int \<Rightarrow> nat \<Rightarrow> Verifier \<Rightarrow> bool" where
  "Verify_range elem elem_len v \<longleftrightarrow>
     elem_len \<le> vf_end v - vf_buf v \<and> int (vf_buf v) \<le> elem \<and> elem \<le> int (vf_end v) - int elem_len"

definition VerifyComplexity :: check where
  "VerifyComplexity v =
     (let v' = v\<lparr>vf_depth := vf_depth v + 1, vf_num_tables := vf_num_tables v + 1\<rparr>
      in Inr (vf_depth v' \<le> vf_max_depth v' \<and> vf_num_tables v' \<le> vf_max_tables v', v'))"

definition Verifier_EndTable :: check where
  "Verifier_EndTable v = Inr (True, v\<lparr>vf_depth := vf_depth v - 1\<rparr>)"

text \<open>\<^verbatim>\<open>VerifyVector\<close> with the end it computes.\<close>

definition VerifyVector :: "bytes \<Rightarrow> nat \<Rightarrow> nat \<Rightarrow> Verifier \<Rightarrow> (bool \<times> nat) result" where
  "VerifyVector mem vec elem_size v =
     (if \<not> Verify_range (int vec) 4 v then Inr (False, 0)
      else
        rbind (ReadScalar mem vec :: u32 result) (\<lambda>size.
          let byte_size = 4 + elem_size * unat size
          in Inr (Verify_range (int vec) byte_size v, vec + byte_size)))"

text \<open>\<^verbatim>\<open>Verify\<close> of a vector of offsets and of a string; both may be null.\<close>

definition Verify_Vector :: "bytes \<Rightarrow> nat option \<Rightarrow> check" where
  "Verify_Vector mem q v =
     (case q of
        None \<Rightarrow> Inr (True, v)
      | Some vec \<Rightarrow> rbind (VerifyVector mem vec 4 v) (\<lambda>(ok, _). Inr (ok, v)))"

definition Verify_String :: "bytes \<Rightarrow> nat option \<Rightarrow> check" where
  "Verify_String mem q v =
     (case q of
        None \<Rightarrow> Inr (True, v)
      | Some s \<Rightarrow>
          rbind (VerifyVector mem s 1 v) (\<lambda>(ok, e).
            if ok \<and> Verify_range (int e) 1 v then rbind (ReadScalar mem e :: u8 result) (\<lambda>b. Inr (b = 0, v))
            else Inr (False, v)))"

definition VerifyTable :: "(nat \<Rightarrow> check) \<Rightarrow> nat option \<Rightarrow> check" where
  "VerifyTable verify q v = (case q of None \<Rightarrow> Inr (True, v) | Some p \<Rightarrow> verify p v)"

definition VerifyVectorOfTables :: "bytes \<Rightarrow> (nat \<Rightarrow> check) \<Rightarrow> nat option \<Rightarrow> check" where
  "VerifyVectorOfTables mem verify q v =
     (case q of
        None \<Rightarrow> Inr (True, v)
      | Some vec \<Rightarrow>
          rbind (vec_size mem vec) (\<lambda>n.
            checks (map (\<lambda>i v. rbind (vec_Get mem vec i) (\<lambda>p. verify p v)) [0..<unat n]) v))"

section \<open>Tables\<close>

definition VerifyTableStart :: "bytes \<Rightarrow> nat \<Rightarrow> check" where
  "VerifyTableStart mem p v =
     (if \<not> Verify_range (int p) 4 v then Inr (False, v)
      else
        rbind (ReadScalar mem p :: u32 result) (\<lambda>soff.
          let vtable = int p - sint soff
          in checks
               [VerifyComplexity, pure_check (Verify_range vtable 2),
                \<lambda>v. rbind (ReadScalar mem (nat vtable) :: u16 result) (\<lambda>n. Inr (Verify_range vtable (unat n) v, v))] v))"

text \<open>\<open>sz\<close> is the \<^verbatim>\<open>sizeof(T)\<close> of \<^verbatim>\<open>VerifyField<T>\<close>.\<close>

definition VerifyField :: "bytes \<Rightarrow> nat \<Rightarrow> nat \<Rightarrow> nat \<Rightarrow> check" where
  "VerifyField mem p sz field v =
     rbind (GetOptionalFieldOffset mem p field) (\<lambda>off.
       Inr (off = 0 \<or> Verify_range (int (p + unat off)) sz v, v))"

text \<open>A check of what the pointer in a field leads to.\<close>

definition pointee :: "bytes \<Rightarrow> nat \<Rightarrow> nat \<Rightarrow> (nat option \<Rightarrow> check) \<Rightarrow> check" where
  "pointee mem p field verify v = rbind (GetPointer mem p field) (\<lambda>q. verify q v)"

definition VerifyBuffer :: "bytes \<Rightarrow> (nat \<Rightarrow> check) \<Rightarrow> check" where
  "VerifyBuffer mem verify v =
     (if \<not> Verify_range (int (vf_buf v)) 4 v then Inr (False, v)
      else rbind (ReadScalar mem (vf_buf v) :: u32 result) (\<lambda>r. verify (vf_buf v + unat r) v))"

section \<open>The generated code\<close>

definition Node_Verify :: "bytes \<Rightarrow> nat \<Rightarrow> check" where
  "Node_Verify mem p =
     checks [VerifyTableStart mem p, VerifyField mem p 4 4, pointee mem p 4 (Verify_String mem),
       VerifyField mem p 4 6, pointee mem p 6 (Verify_String mem), VerifyField mem p 2 8, Verifier_EndTable]"

definition NodeState_Verify :: "bytes \<Rightarrow> nat \<Rightarrow> check" where
  "NodeState_Verify mem p =
     checks [VerifyTableStart mem p, VerifyField mem p 4 4, pointee mem p 4 (VerifyTable (Node_Verify mem)),
       VerifyField mem p 1 6, VerifyField mem p 8 8, VerifyField mem p 4 10, pointee mem p 10 (Verify_String mem),
       VerifyField mem p 8 12, Verifier_EndTable]"

definition NodeStates_Verify :: "bytes \<Rightarrow> nat \<Rightarrow> check" where
  "NodeStates_Verify mem p =
     checks [VerifyTableStart mem p, VerifyField mem p 4 4, pointee mem p 4 (Verify_Vector mem),
       pointee mem p 4 (VerifyVectorOfTables mem (NodeState_Verify mem)), Verifier_EndTable]"

definition Ping_Verify :: "bytes \<Rightarrow> nat \<Rightarrow> check" where
  "Ping_Verify mem p =
     checks [VerifyTableStart mem p, VerifyField mem p 8 4, VerifyField mem p 4 6, pointee mem p 6 (Verify_String mem),
       Verifier_EndTable]"

definition IndirectPing_Verify :: "bytes \<Rightarrow> nat \<Rightarrow> check" where
  "IndirectPing_Verify mem p =
     checks [VerifyTableStart mem p, VerifyField mem p 8 4, VerifyField mem p 4 6, pointee mem p 6 (VerifyTable (Node_Verify mem)),
       Verifier_EndTable]"

definition Pong_Verify :: "bytes \<Rightarrow> nat \<Rightarrow> check" where
  "Pong_Verify mem p = checks [VerifyTableStart mem p, VerifyField mem p 8 4, Verifier_EndTable]"

definition VerifyNodeStatesBuffer :: "bytes \<Rightarrow> check" where
  "VerifyNodeStatesBuffer mem = VerifyBuffer mem (NodeStates_Verify mem)"

text \<open>Whether the \<open>n\<close> bytes at \<open>p\<close> pass a check.\<close>

definition passes :: "check \<Rightarrow> nat \<Rightarrow> nat \<Rightarrow> bool result" where
  "passes c p n = rbind (c (Verifier_new p n)) (\<lambda>(ok, _). Inr ok)"

section \<open>What is verified can be read\<close>

text \<open>A check only counts; and a check that succeeds inside the region \<open>mem\<close> tells what can be read there.\<close>

definition keeps :: "check \<Rightarrow> bool" where
  "keeps c \<longleftrightarrow> (\<forall>v ok v'. c v = Inr (ok, v') \<longrightarrow> vf_end v' = vf_end v)"

definition succeeds :: "bytes \<Rightarrow> check \<Rightarrow> bool" where
  "succeeds mem c \<longleftrightarrow> (\<exists>v v'. vf_end v \<le> length mem \<and> c v = Inr (True, v'))"

named_theorems keeps

lemma keeps_checks [keeps]: "(\<And>c. c \<in> set cs \<Longrightarrow> keeps c) \<Longrightarrow> keeps (checks cs)"
proof (induction cs)
  case (Cons c cs)
  then have "keeps c" "keeps (checks cs)" by simp_all
  then show ?case unfolding keeps_def by (fastforce simp: rbind_Inr_iff split: if_splits)
qed (simp add: keeps_def)

lemma keeps_base [keeps]:
  "keeps VerifyComplexity" "keeps (pure_check q)" "keeps Verifier_EndTable" "keeps (VerifyField mem p sz field)"
  "keeps (Verify_Vector mem o1)" "keeps (Verify_String mem o1)"
  "(\<And>p. keeps (verify p)) \<Longrightarrow> keeps (VerifyTable verify o1)" "(\<And>o1. keeps (check o1)) \<Longrightarrow> keeps (pointee mem p field check)"
  by (auto simp: keeps_def VerifyComplexity_def pure_check_def Verifier_EndTable_def VerifyField_def Verify_Vector_def Verify_String_def
      VerifyTable_def pointee_def rbind_Inr_iff Let_def split: option.splits if_splits)

lemma keeps_start [keeps]: "keeps (VerifyTableStart mem p)"
proof -
  have "keeps (\<lambda>v. rbind (ReadScalar mem q :: u16 result) (\<lambda>n. Inr (Verify_range w (unat n) v, v)))" for q w
    by (auto simp: keeps_def rbind_Inr_iff)
  then have "keeps (checks [VerifyComplexity, pure_check (Verify_range w 2),
      \<lambda>v. rbind (ReadScalar mem q :: u16 result) (\<lambda>n. Inr (Verify_range w (unat n) v, v))])" for q w
    by (intro keeps_checks) (auto intro: keeps)
  then show ?thesis unfolding keeps_def VerifyTableStart_def Let_def by (auto simp: rbind_Inr_iff simp del: checks.simps)
qed

lemma keeps_tables [keeps]:
  assumes "\<And>p. keeps (verify p)"
  shows "keeps (VerifyVectorOfTables mem verify o1)"
proof -
  have "keeps (\<lambda>v. rbind (vec_Get mem vec i) (\<lambda>p. verify p v))" for vec i
    using assms by (auto simp: keeps_def rbind_Inr_iff)
  then have "keeps (checks (map (\<lambda>i v. rbind (vec_Get mem vec i) (\<lambda>p. verify p v)) is))" for vec "is" by (intro keeps_checks) auto
  then show ?thesis unfolding keeps_def VerifyVectorOfTables_def by (auto simp: rbind_Inr_iff split: option.splits)
qed

lemma keeps_generated [keeps]:
  "keeps (Node_Verify mem p)" "keeps (NodeState_Verify mem p)" "keeps (NodeStates_Verify mem p)" "keeps (Ping_Verify mem p)"
  "keeps (Pong_Verify mem p)" "keeps (IndirectPing_Verify mem p)"
proof -
  show n: "keeps (Node_Verify mem p)" for p unfolding Node_Verify_def by (intro keeps_checks) (auto intro!: keeps)
  show s: "keeps (NodeState_Verify mem p)" for p unfolding NodeState_Verify_def by (intro keeps_checks) (auto intro!: keeps n)
  show "keeps (NodeStates_Verify mem p)" unfolding NodeStates_Verify_def by (intro keeps_checks) (auto intro!: keeps s)
  show "keeps (Ping_Verify mem p)" "keeps (Pong_Verify mem p)" "keeps (IndirectPing_Verify mem p)"
    unfolding Ping_Verify_def Pong_Verify_def IndirectPing_Verify_def by (intro keeps_checks; auto intro!: keeps n)+
qed

lemma succeeds_checks:
  assumes "succeeds mem (checks cs)" "\<And>c. c \<in> set cs \<Longrightarrow> keeps c" "c \<in> set cs"
  shows "succeeds mem c"
proof -
  obtain v v' where "vf_end v \<le> length mem" "checks cs v = Inr (True, v')" using assms(1) by (auto simp: succeeds_def)
  then show ?thesis
    using assms(2,3)
  proof (induction cs arbitrary: v)
    case (Cons a cs)
    obtain v1 where v1: "a v = Inr (True, v1)" "checks cs v1 = Inr (True, v')"
      using Cons.prems(2) by (auto simp: rbind_Inr_iff split: if_splits)
    have "keeps a" using Cons.prems(3) by simp
    then have "vf_end v1 \<le> length mem" using v1(1) Cons.prems(1) unfolding keeps_def by metis
    then show ?case
      using Cons.IH[OF _ v1(2)] Cons.prems(1,3,4) v1(1) by (cases "c = a") (auto simp: succeeds_def)
  qed simp
qed

lemma range_le: "Verify_range (int a) n v \<Longrightarrow> vf_end v \<le> m \<Longrightarrow> a + n \<le> m"
  by (auto simp: Verify_range_def)

lemma succeeds_field:
  assumes "succeeds mem (VerifyField mem p sz field)"
  obtains off where "GetOptionalFieldOffset mem p field = Inr off" "off = 0 \<or> p + unat off + sz \<le> length mem"
proof -
  obtain v v' where v: "vf_end v \<le> length mem" "VerifyField mem p sz field v = Inr (True, v')"
    using assms by (auto simp: succeeds_def)
  then obtain off where "GetOptionalFieldOffset mem p field = Inr off" "off = 0 \<or> Verify_range (int (p + unat off)) sz v"
    by (auto simp: VerifyField_def rbind_Inr_iff)
  then show thesis using range_le[OF _ v(1)] that by blast
qed

lemma ReadScalar_in: "p + sizeof TYPE('a::len word) \<le> length mem \<Longrightarrow> is_ok (ReadScalar mem p :: 'a word result)"
  by (simp add: ReadScalar_def buf_read_def is_ok_def)

lemma succeeds_GetField:
  assumes "succeeds mem (VerifyField mem p (sizeof TYPE('a::len word)) field)"
  shows "is_ok (GetField mem p field (d :: 'a word))"
proof -
  obtain off where "GetOptionalFieldOffset mem p field = Inr off" "off = 0 \<or> p + unat off + sizeof TYPE('a word) \<le> length mem"
    using succeeds_field[OF assms] .
  then show ?thesis using ReadScalar_in[where 'a = 'a and p = "p + unat off"] by (auto simp: GetField_def is_ok_def)
qed

lemma succeeds_pointee:
  assumes "succeeds mem (pointee mem p field verify)"
  obtains q where "GetPointer mem p field = Inr q" "succeeds mem (verify q)"
  using assms by (auto simp: succeeds_def pointee_def rbind_Inr_iff)

lemma succeeds_str:
  assumes "succeeds mem (Verify_String mem q)"
  shows "is_ok (deref (str mem) q)"
proof (cases q)
  case None
  then show ?thesis by (simp add: deref_def is_ok_def)
next
  case (Some s)
  obtain v v' where v: "vf_end v \<le> length mem" "Verify_String mem q v = Inr (True, v')"
    using assms by (auto simp: succeeds_def)
  then obtain e where e: "VerifyVector mem s 1 v = Inr (True, e)" "Verify_range (int e) 1 v" "ReadScalar mem e = Inr (0 :: u8)"
    using Some by (auto simp: Verify_String_def rbind_Inr_iff split: if_splits)
  have "s + 4 \<le> e" using e(1) by (auto simp: VerifyVector_def rbind_Inr_iff Let_def split: if_splits)
  moreover have "e < length mem" using e(2) v(1) by (auto simp: Verify_range_def)
  moreover have "mem ! e = 0"
    using e(3) \<open>e < length mem\<close> by (simp add: ReadScalar_def buf_read_def Cons_nth_drop_Suc[symmetric])
  ultimately have "0 \<in> set (drop (s + 4) mem)" by (auto simp: in_set_conv_nth intro!: exI[of _ "e - (s + 4)"])
  then show ?thesis using Some by (simp add: deref_def str_def Let_def is_ok_def)
qed

lemma succeeds_tables:
  assumes "succeeds mem (VerifyVectorOfTables mem verify (Some vec))" "\<And>p. keeps (verify p)"
  obtains n where "vec_size mem vec = Inr n" "\<And>i. i < unat n \<Longrightarrow> \<exists>p. vec_Get mem vec i = Inr p \<and> succeeds mem (verify p)"
proof -
  let ?c = "\<lambda>i v. rbind (vec_Get mem vec i) (\<lambda>p. verify p v)"
  obtain v v' n where v: "vf_end v \<le> length mem" "vec_size mem vec = Inr n" "checks (map ?c [0..<unat n]) v = Inr (True, v')"
    using assms(1) by (auto simp: succeeds_def VerifyVectorOfTables_def rbind_Inr_iff)
  then have s: "succeeds mem (checks (map ?c [0..<unat n]))" by (auto simp: succeeds_def)
  have k: "keeps c" if "c \<in> set (map ?c [0..<unat n])" for c
    using that assms(2) by (auto simp: keeps_def rbind_Inr_iff)
  have "succeeds mem (?c i)" if "i < unat n" for i using that by (intro succeeds_checks[OF s k]) auto
  then show thesis using v(2) that by (fastforce simp: succeeds_def rbind_Inr_iff)
qed

lemma rmap_is_ok: "(\<And>x. x \<in> set xs \<Longrightarrow> is_ok (f x)) \<Longrightarrow> is_ok (rmap f xs)"
  by (induction xs) (auto simp: is_ok_iff rbind_Inr_iff)

lemma is_ok_rbind: "is_ok m \<Longrightarrow> (\<And>x. is_ok (f x)) \<Longrightarrow> is_ok (rbind m f)"
  by (auto simp: is_ok_iff rbind_Inr_iff)

lemma is_ok_Inr: "is_ok (Inr x)"
  by (simp add: is_ok_def)

lemma is_ok_deref: "(\<And>a. q = Some a \<Longrightarrow> is_ok (rd a)) \<Longrightarrow> is_ok (deref rd q)"
  by (auto simp: deref_def is_ok_Inr intro: is_ok_rbind split: option.split)

lemma succeeds_deref:
  assumes "succeeds mem (pointee mem p field verify)" "\<And>q. succeeds mem (verify q) \<Longrightarrow> is_ok (deref rd q)"
  shows "is_ok (rbind (GetPointer mem p field) (deref rd))"
  using assms(1)
proof (rule succeeds_pointee)
  fix q assume "GetPointer mem p field = Inr q" "succeeds mem (verify q)"
  then show ?thesis using assms(2)[of q] by simp
qed

lemma Node_readable:
  assumes "succeeds mem (Node_Verify mem p)"
  shows "is_ok (Node_at mem p)"
proof -
  have s: "succeeds mem c" if "c \<in> set [VerifyTableStart mem p, VerifyField mem p 4 4, pointee mem p 4 (Verify_String mem),
       VerifyField mem p 4 6, pointee mem p 6 (Verify_String mem), VerifyField mem p 2 8, Verifier_EndTable]" for c
    by (rule succeeds_checks[OF assms[unfolded Node_Verify_def] _ that]) (auto intro: keeps)
  have port: "is_ok (GetField mem p 8 (0 :: i16))" using succeeds_GetField[where 'a = 16, of mem p 8] s by simp
  have str: "is_ok (rbind (GetPointer mem p f) (deref (str mem)))" if "f \<in> {4, 6}" for f
    using that s by (intro succeeds_deref[OF _ succeeds_str]) auto
  show ?thesis unfolding Node_at_def
    by (rule is_ok_rbind[OF str[of 4]] is_ok_rbind[OF str[of 6]] is_ok_rbind[OF port] is_ok_Inr insertI1 insertI2)+
qed

lemma node_pointee_readable:
  assumes "succeeds mem (pointee mem p field (VerifyTable (Node_Verify mem)))"
  shows "is_ok (rbind (GetPointer mem p field) (deref (Node_at mem)))"
proof (rule succeeds_deref[OF assms])
  show "is_ok (deref (Node_at mem) q)" if "succeeds mem (VerifyTable (Node_Verify mem) q)" for q
    using that Node_readable by (intro is_ok_deref) (simp add: succeeds_def VerifyTable_def)
qed

lemma NodeState_readable:
  assumes "succeeds mem (NodeState_Verify mem p)"
  shows "is_ok (NodeState_at mem p)"
proof -
  have s: "succeeds mem c" if "c \<in> set [VerifyTableStart mem p, VerifyField mem p 4 4, pointee mem p 4 (VerifyTable (Node_Verify mem)),
       VerifyField mem p 1 6, VerifyField mem p 8 8, VerifyField mem p 4 10, pointee mem p 10 (Verify_String mem),
       VerifyField mem p 8 12, Verifier_EndTable]" for c
    by (rule succeeds_checks[OF assms[unfolded NodeState_Verify_def] _ that]) (auto intro: keeps)
  have f: "is_ok (GetField mem p 6 (0 :: u8))" "is_ok (GetField mem p 8 (0 :: u64))" "is_ok (GetField mem p 12 (0 :: u64))"
    using succeeds_GetField[where 'a = 8, of mem p 6] succeeds_GetField[where 'a = 64, of mem p] s by simp_all
  have str: "is_ok (rbind (GetPointer mem p 10) (deref (str mem)))" by (rule succeeds_deref[OF s succeeds_str]) simp_all
  have node: "is_ok (rbind (GetPointer mem p 4) (deref (Node_at mem)))" by (rule node_pointee_readable[OF s]) simp
  show ?thesis unfolding NodeState_at_def
    by (rule is_ok_rbind[OF node] is_ok_rbind[OF str] is_ok_rbind[OF f(1)] is_ok_rbind[OF f(2)] is_ok_rbind[OF f(3)] is_ok_Inr)+
qed

lemma NodeStates_readable:
  assumes "succeeds mem (NodeStates_Verify mem p)"
  shows "is_ok (NodeStates_at mem p)"
proof -
  have s: "succeeds mem c" if "c \<in> set [VerifyTableStart mem p, VerifyField mem p 4 4, pointee mem p 4 (Verify_Vector mem),
       pointee mem p 4 (VerifyVectorOfTables mem (NodeState_Verify mem)), Verifier_EndTable]" for c
    by (rule succeeds_checks[OF assms[unfolded NodeStates_Verify_def] _ that]) (auto intro: keeps)
  have "is_ok (deref (nodes_at mem) q)" if q: "succeeds mem (VerifyVectorOfTables mem (NodeState_Verify mem) q)" for q
  proof (rule is_ok_deref)
    fix vec assume "q = Some vec"
    then obtain n where n: "vec_size mem vec = Inr n"
      "\<And>i. i < unat n \<Longrightarrow> \<exists>p. vec_Get mem vec i = Inr p \<and> succeeds mem (NodeState_Verify mem p)"
      using succeeds_tables[of mem "NodeState_Verify mem" vec] q keeps_generated(2) by metis
    have "is_ok (rbind (vec_Get mem vec i) (NodeState_at mem))" if "i \<in> set [0..<unat n]" for i
      using n(2)[of i] that NodeState_readable by auto
    then show "is_ok (nodes_at mem vec)" unfolding nodes_at_def n(1) rbind_simps by (rule rmap_is_ok)
  qed
  then have nodes: "is_ok (rbind (GetPointer mem p 4) (deref (nodes_at mem)))"
    using s by (intro succeeds_deref[where verify = "VerifyVectorOfTables mem (NodeState_Verify mem)"]) simp_all
  show ?thesis unfolding NodeStates_at_def by (rule is_ok_rbind[OF nodes] is_ok_Inr)+
qed

lemma Ping_Pong_readable:
  "succeeds mem (Ping_Verify mem p) \<Longrightarrow> is_ok (Ping_at mem p)"
  "succeeds mem (Pong_Verify mem p) \<Longrightarrow> is_ok (Pong_at mem p)"
  "succeeds mem (IndirectPing_Verify mem p) \<Longrightarrow> is_ok (IndirectPing_at mem p)"
proof -
  assume a: "succeeds mem (Ping_Verify mem p)"
  have s: "succeeds mem c" if "c \<in> set [VerifyTableStart mem p, VerifyField mem p 8 4, VerifyField mem p 4 6,
      pointee mem p 6 (Verify_String mem), Verifier_EndTable]" for c
    by (rule succeeds_checks[OF a[unfolded Ping_Verify_def] _ that]) (auto intro: keeps)
  have seq: "is_ok (GetField mem p 4 (0 :: u64))" using succeeds_GetField[where 'a = 64, of mem p 4] s by simp
  have frm: "is_ok (rbind (GetPointer mem p 6) (deref (str mem)))" by (rule succeeds_deref[OF s succeeds_str]) simp_all
  show "is_ok (Ping_at mem p)" unfolding Ping_at_def by (rule is_ok_rbind[OF seq] is_ok_rbind[OF frm] is_ok_Inr)+
next
  assume a: "succeeds mem (Pong_Verify mem p)"
  have "succeeds mem (VerifyField mem p 8 4)"
    by (rule succeeds_checks[OF a[unfolded Pong_Verify_def]]) (auto intro: keeps)
  then have seq: "is_ok (GetField mem p 4 (0 :: u64))" using succeeds_GetField[where 'a = 64, of mem p 4] by simp
  show "is_ok (Pong_at mem p)" unfolding Pong_at_def by (rule is_ok_rbind[OF seq] is_ok_Inr)+
next
  assume a: "succeeds mem (IndirectPing_Verify mem p)"
  have s: "succeeds mem c" if "c \<in> set [VerifyTableStart mem p, VerifyField mem p 8 4, VerifyField mem p 4 6,
      pointee mem p 6 (VerifyTable (Node_Verify mem)), Verifier_EndTable]" for c
    by (rule succeeds_checks[OF a[unfolded IndirectPing_Verify_def] _ that]) (auto intro: keeps)
  have seq: "is_ok (GetField mem p 4 (0 :: u64))" using succeeds_GetField[where 'a = 64, of mem p 4] s by simp
  have target: "is_ok (rbind (GetPointer mem p 6) (deref (Node_at mem)))" by (rule node_pointee_readable[OF s]) simp
  show "is_ok (IndirectPing_at mem p)" unfolding IndirectPing_at_def by (rule is_ok_rbind[OF seq] is_ok_rbind[OF target] is_ok_Inr)+
qed

lemma buffer_readable:
  assumes "passes (VerifyBuffer mem verify) p n = Inr True" "p + n \<le> length mem"
    "\<And>a. succeeds mem (verify a) \<Longrightarrow> is_ok (rd a)"
  shows "is_ok (rbind (GetRoot mem p) rd)"
proof -
  obtain v where v: "VerifyBuffer mem verify (Verifier_new p n) = Inr (True, v)" using assms(1) by (auto simp: passes_def rbind_Inr_iff)
  then obtain r :: u32 where r: "ReadScalar mem p = Inr r" "verify (p + unat r) (Verifier_new p n) = Inr (True, v)"
    by (auto simp: VerifyBuffer_def Verifier_new_def rbind_Inr_iff split: if_splits)
  then have "succeeds mem (verify (p + unat r))"
    unfolding succeeds_def using assms(2)
    by (intro exI[of _ "Verifier_new p n"] exI[of _ v] conjI) (simp_all add: Verifier_new_def)
  then show ?thesis using assms(3) r(1) by (simp add: GetRoot_def)
qed

section \<open>What is written can be verified\<close>

text \<open>The verifier of a buffer \<open>b\<close> that lies in memory after \<open>pre\<close>.\<close>

definition covers :: "bytes \<Rightarrow> bytes \<Rightarrow> Verifier \<Rightarrow> bool" where
  "covers pre b v \<longleftrightarrow> vf_buf v = length pre \<and> vf_end v = length pre + length b"

definition counted :: "nat \<Rightarrow> Verifier \<Rightarrow> Verifier" where
  "counted k v = v\<lparr>vf_num_tables := vf_num_tables v + k\<rparr>"

lemma counted_simps [simp]:
  "covers pre b (counted k v) = covers pre b v" "vf_depth (counted k v) = vf_depth v" "vf_max_depth (counted k v) = vf_max_depth v"
  "vf_num_tables (counted k v) = vf_num_tables v + k" "vf_max_tables (counted k v) = vf_max_tables v"
  "counted i (counted k v) = counted (k + i) v" "counted 0 v = v"
  by (simp_all add: covers_def counted_def)

lemma range_has:
  assumes "has b o1 bs" "covers pre b v" "k \<le> length bs"
  shows "Verify_range (int (pos (length pre) b o1)) k v"
  using has_le[OF assms(1)] assms(2,3) by (auto simp: Verify_range_def covers_def pos_def)

text \<open>A table has been entered: one level deeper, one table more.\<close>

definition entered :: "Verifier \<Rightarrow> Verifier" where
  "entered v = v\<lparr>vf_depth := vf_depth v + 1, vf_num_tables := vf_num_tables v + 1\<rparr>"

lemma entered_simps [simp]:
  "covers pre b (entered v) = covers pre b v" "vf_depth (entered v) = vf_depth v + 1" "vf_max_depth (entered v) = vf_max_depth v"
  "vf_num_tables (entered v) = vf_num_tables v + 1" "vf_max_tables (entered v) = vf_max_tables v"
  "Verifier_EndTable (counted k (entered v)) = Inr (True, counted (Suc k) v)"
  "Verifier_EndTable (entered v) = Inr (True, counted 1 v)"
  by (simp_all add: covers_def entered_def counted_def Verifier_EndTable_def)

definition room :: "nat \<Rightarrow> nat \<Rightarrow> Verifier \<Rightarrow> bool" where
  "room d k v \<longleftrightarrow> vf_depth v + d \<le> vf_max_depth v \<and> vf_num_tables v + k \<le> vf_max_tables v"

lemma start_ok:
  assumes "table_at b o1 n fs" "length b < max_size" "n < 100" "covers pre b v" "room 1 1 v"
  shows "VerifyTableStart (pre @ b @ post) (pos (length pre) b o1) v = Inr (True, entered v)"
proof -
  let ?m = "pre @ b @ post" and ?p = "pos (length pre) b o1"
  obtain vo vt where t: "has b o1 (le_bytes 4 (of_nat vo - of_nat o1 :: u32))" "has b vo vt" "length vt = 4 + 2 * n"
    "take 2 vt = le_bytes 2 (of_nat (4 + 2 * n) :: u16)"
    using assms(1) unfolding table_at_def by blast
  have le: "vo \<le> length b" "o1 \<le> length b" using has_le t(1,2) by blast+
  then have "vo < 2 ^ 31" "o1 < 2 ^ 31" using assms(2) by (auto simp: max_size_def)
  then have w: "int ?p - sint (of_nat vo - of_nat o1 :: u32) = int (pos (length pre) b vo)"
    using le by (simp add: sint_diff pos_def of_nat_diff)
  have sz: "ReadScalar ?m (pos (length pre) b vo) = Inr (of_nat (4 + 2 * n) :: u16)"
    using read_slot[OF t(2), of 0 "of_nat (4 + 2 * n)" pre post] t(3,4) by (simp add: slot_def)
  have u: "unat (of_nat (4 + 2 * n) :: u16) = 4 + 2 * n" using assms(3) by (simp only: unat_of_nat) simp
  have so: "ReadScalar ?m ?p = Inr (of_nat vo - of_nat o1 :: u32)" using read_has(3)[OF t(1)] .
  have r: "Verify_range (int ?p) 4 v" using range_has[OF t(1) assms(4)] by simp
  have r': "Verify_range (int (pos (length pre) b vo)) k (entered v)" if "k \<le> 4 + 2 * n" for k
    using range_has[OF t(2)] assms(4) t(3) that by simp
  have c: "VerifyComplexity v = Inr (True, entered v)"
    using assms(5) by (simp add: VerifyComplexity_def entered_def room_def Let_def)
  have "\<not> \<not> Verify_range (int ?p) 4 v" using r by simp
  then show ?thesis
    unfolding VerifyTableStart_def so rbind_simps Let_def w checks.simps c pure_check_def nat_int sz u
    using r'[of 2] r'[of "4 + 2 * n"] by simp
qed

fun field_size :: "field \<Rightarrow> nat" where
  "field_size (Scalar bs) = length bs"
| "field_size (Ref _) = 4"

lemma field_ok:
  assumes "table_at b o1 n fs" "length b < max_size" "n < 100" "k < n" "covers pre b v"
    "\<And>c. map_of fs (4 + 2 * k) = Some c \<Longrightarrow> field_size c = sz"
  shows "VerifyField (pre @ b @ post) (pos (length pre) b o1) sz (4 + 2 * k) v = Inr (True, v)"
proof (cases "map_of fs (4 + 2 * k)")
  case None
  then show ?thesis using field_offset_table[OF assms(1-4), of pre post] by (simp add: VerifyField_def)
next
  case (Some c)
  then obtain d where d: "GetOptionalFieldOffset (pre @ b @ post) (pos (length pre) b o1) (4 + 2 * k) = Inr (of_nat d)"
    "0 < d" "d < 2 ^ 16" "d < o1" "holds b (o1 - d) c"
    using field_offset_table[OF assms(1-4), of pre post] by auto
  have "o1 \<le> length b" using assms(1) by (auto simp: table_at_def dest: has_le)
  then have q: "pos (length pre) b (o1 - d) = pos (length pre) b o1 + d" using d(4) by (simp add: pos_def)
  have "\<exists>bs. has b (o1 - d) bs \<and> sz \<le> length bs" using d(5) assms(6)[OF Some] by (cases c) auto
  then have "Verify_range (int (pos (length pre) b o1 + d)) sz v" using range_has[OF _ assms(5)] q by metis
  moreover have u: "unat (of_nat d :: u16) = d" using unat_offset[OF d(2,3)] by simp
  ultimately show ?thesis unfolding VerifyField_def d(1) rbind_simps u by simp
qed

lemma string_ok:
  assumes "str_at b o1 s" "length b < max_size" "covers pre b v"
  shows "Verify_String (pre @ b @ post) (Some (pos (length pre) b o1)) v = Inr (True, v)"
proof -
  let ?m = "pre @ b @ post" and ?p = "pos (length pre) b o1"
  have h: "has b o1 (le_bytes 4 (of_nat (length s) :: u32) @ map of_char s @ [0])" using assms(1) by (simp only: str_at_def)
  note le = has_le[OF h]
  have u: "unat (of_nat (length s) :: u32) = length s"
    using le assms(2) by (simp only: unat_of_nat) (simp add: max_size_def)
  have "has b o1 (le_bytes 4 (of_nat (length s) :: u32))" using has_take[OF h, of 4] by simp
  then have sz: "ReadScalar ?m ?p = Inr (of_nat (length s) :: u32)" by (rule read_has(3))
  have r: "Verify_range (int ?p) k v" if "k \<le> 5 + length s" for k using range_has[OF h assms(3), of k] that by simp
  have z: "has b (o1 - (4 + length s)) (le_bytes (Suc 0) (0 :: u8))"
    using has_drop[OF h, of "4 + length s"] by (simp add: le_bytes_def)
  have q: "pos (length pre) b (o1 - (4 + length s)) = ?p + (4 + length s)" using le by (intro pos_move[OF h]) simp
  have "ReadScalar ?m (?p + (4 + length s)) = Inr (0 :: u8)" using read_has(1)[OF z, of pre post] q by simp
  moreover have "Verify_range (int (?p + (4 + length s))) 1 v" using range_has[OF z assms(3), of 1] q by simp
  moreover have "VerifyVector ?m ?p 1 v = Inr (True, ?p + (4 + length s))"
    using sz u r[of 4] r[of "4 + length s"] by (simp add: VerifyVector_def Let_def)
  ultimately show ?thesis by (simp add: Verify_String_def)
qed

lemma pointee_ok:
  assumes "table_at b o1 n fs" "length b < max_size" "n < 100" "k < n" "map_of fs (4 + 2 * k) = Some (Ref t)"
  shows "pointee (pre @ b @ post) (pos (length pre) b o1) (4 + 2 * k) verify v = verify (Some (pos (length pre) b t)) v"
  using GetPointer_table[OF assms] by (simp add: pointee_def)

lemma scalar_field_size [simp]:
  "map_of (scalar_field i (e :: 'a::len word)) j = Some c \<Longrightarrow> field_size c = sizeof TYPE('a word)"
  by (auto simp: scalar_field_def split: if_splits)

lemma Node_ok:
  assumes "node_tree b o1 name ip port" "length b < max_size" "covers pre b v" "room 1 1 v"
  shows "Node_Verify (pre @ b @ post) (pos (length pre) b o1) v = Inr (True, counted 1 v)"
proof -
  let ?m = "pre @ b @ post" and ?p = "pos (length pre) b o1"
  obtain n i where t: "table_at b o1 3 (node_fields n i port)" "str_at b n name" "str_at b i ip"
    using assms(1) by (auto simp: node_tree_def)
  have c: "covers pre b (entered v)" using assms(3) by simp
  have "VerifyTableStart ?m ?p v = Inr (True, entered v)" using start_ok[OF t(1) assms(2) _ assms(3,4)] by simp
  moreover have "VerifyField ?m ?p 4 4 (entered v) = Inr (True, entered v)" "VerifyField ?m ?p 4 6 (entered v) = Inr (True, entered v)"
    "VerifyField ?m ?p 2 8 (entered v) = Inr (True, entered v)"
    using field_ok[OF t(1) assms(2) _ _ c, of 0 4 post] field_ok[OF t(1) assms(2) _ _ c, of 1 4 post]
      field_ok[OF t(1) assms(2) _ _ c, of 2 2 post]
    by (auto simp: node_fields_def scalar_field_def split: if_splits)
  moreover have "pointee ?m ?p 4 (Verify_String ?m) (entered v) = Inr (True, entered v)"
    "pointee ?m ?p 6 (Verify_String ?m) (entered v) = Inr (True, entered v)"
    using pointee_ok[OF t(1) assms(2), of 0 n pre post] pointee_ok[OF t(1) assms(2), of 1 i pre post]
      string_ok[OF t(2) assms(2) c] string_ok[OF t(3) assms(2) c]
    by (simp_all add: node_fields_def scalar_field_def)
  ultimately show ?thesis by (simp add: Node_Verify_def)
qed

definition state_field_size :: "nat \<Rightarrow> nat" where
  "state_field_size k = (if k = 0 \<or> k = 3 then 4 else if k = 1 then 1 else 8)"

lemma state_sizes:
  assumes "map_of (state_fields nd st dominant fr ts) (4 + 2 * k) = Some c" "k < 5"
  shows "field_size c = state_field_size k"
  using map_of_SomeD[OF assms(1)] assms(2)
  by (auto simp: state_fields_def scalar_field_def state_field_size_def split: if_splits)

lemma NodeState_ok:
  assumes "state_tree b o1 s" "length b < max_size" "covers pre b v" "room 2 2 v"
  shows "NodeState_Verify (pre @ b @ post) (pos (length pre) b o1) v = Inr (True, counted 2 v)"
proof -
  let ?m = "pre @ b @ post" and ?p = "pos (length pre) b o1"
  obtain nd fr name ip port frm st where
    t: "table_at b o1 5 (state_fields nd st (fs_dominant s) fr (fs_timeStamp s))" "node_tree b nd name ip port" "str_at b fr frm"
    using assms(1) unfolding state_tree_def by blast
  have c: "covers pre b (entered v)" "covers pre b (counted 1 (entered v))" using assms(3) by simp_all
  have r: "room 1 1 v" "room 1 1 (entered v)" using assms(4) by (simp_all add: room_def)
  have "VerifyTableStart ?m ?p v = Inr (True, entered v)" using start_ok[OF t(1) assms(2) _ assms(3) r(1)] by simp
  moreover have f: "VerifyField ?m ?p 4 4 w = Inr (True, w)" "VerifyField ?m ?p (Suc 0) 6 w = Inr (True, w)"
    "VerifyField ?m ?p 8 8 w = Inr (True, w)" "VerifyField ?m ?p 4 10 w = Inr (True, w)" "VerifyField ?m ?p 8 12 w = Inr (True, w)"
    if "covers pre b w" for w
  proof -
    have "VerifyField ?m ?p (state_field_size k) (4 + 2 * k) w = Inr (True, w)" if "k < 5" for k
      by (rule field_ok[OF t(1) assms(2) _ that \<open>covers pre b w\<close>]) (simp, rule state_sizes[OF _ that])
    from this[of 0] this[of 1] this[of 2] this[of 3] this[of 4] show "VerifyField ?m ?p 4 4 w = Inr (True, w)"
      "VerifyField ?m ?p (Suc 0) 6 w = Inr (True, w)" "VerifyField ?m ?p 8 8 w = Inr (True, w)"
      "VerifyField ?m ?p 4 10 w = Inr (True, w)" "VerifyField ?m ?p 8 12 w = Inr (True, w)"
      by (simp_all add: state_field_size_def)
  qed
  moreover have "pointee ?m ?p 4 (VerifyTable (Node_Verify ?m)) (entered v) = Inr (True, counted 1 (entered v))"
    using pointee_ok[OF t(1) assms(2), of 0 nd pre post] Node_ok[OF t(2) assms(2) c(1) r(2)]
    by (simp add: state_fields_def scalar_field_def VerifyTable_def)
  moreover have "pointee ?m ?p 10 (Verify_String ?m) w = Inr (True, w)" if "covers pre b w" for w
    using pointee_ok[OF t(1) assms(2), of 3 fr pre post] string_ok[OF t(3) assms(2) that]
    by (simp add: state_fields_def scalar_field_def)
  ultimately show ?thesis using c by (simp add: NodeState_Verify_def numeral_2_eq_2)
qed

text \<open>A vector of tables.\<close>

lemma checks_counted:
  assumes "\<And>i w. i < n \<Longrightarrow> covers pre b w \<Longrightarrow> room 2 2 w \<Longrightarrow> c i w = Inr (True, counted 2 w)" "covers pre b v" "room 2 (2 * n) v"
  shows "checks (map c [0..<n]) v = Inr (True, counted (2 * n) v)"
  using assms
proof (induction n arbitrary: c v)
  case (Suc n)
  have up: "[0..<Suc n] = 0 # map Suc [0..<n]" by (simp add: map_Suc_upt upt_conv_Cons)
  have "c 0 v = Inr (True, counted 2 v)" using Suc.prems by (simp add: room_def)
  moreover have "checks (map (\<lambda>i. c (Suc i)) [0..<n]) (counted 2 v) = Inr (True, counted (2 * n) (counted 2 v))"
    using Suc.prems by (intro Suc.IH) (simp_all add: room_def)
  ultimately show ?case by (simp add: up comp_def del: upt_Suc)
qed simp

lemma NodeStates_ok:
  assumes "table_at b o1 1 [(4, Ref vec)]" "vec_at b vec offs" "list_all2 (state_tree b) offs ss" "length b < max_size"
    "length offs < 2 ^ 32" "covers pre b v" "room 3 (1 + 2 * length offs) v"
  shows "\<exists>w. NodeStates_Verify (pre @ b @ post) (pos (length pre) b o1) v = Inr (True, w)"
proof -
  let ?m = "pre @ b @ post" and ?p = "pos (length pre) b o1" and ?q = "pos (length pre) b vec"
  have c: "covers pre b (entered v)" using assms(6) by simp
  have r: "room 1 1 v" "room 2 (2 * length offs) (entered v)" using assms(7) by (simp_all add: room_def)
  have u: "unat (of_nat (length offs) :: u32) = length offs" using assms(5) by (simp only: unat_of_nat) simp
  have len: "length offs = length ss" using assms(3) by (rule list_all2_lengthD)
  have sz: "vec_size ?m ?q = Inr (of_nat (length offs))" using vec_size_at[OF assms(2,4)] .
  have head: "has b vec (le_bytes 4 (of_nat (length offs) :: u32))" using assms(2) by (simp add: vec_at_def)
  have 1: "VerifyTableStart ?m ?p v = Inr (True, entered v)" using start_ok[OF assms(1,4) _ assms(6) r(1)] by simp
  have 2: "VerifyField ?m ?p 4 4 (entered v) = Inr (True, entered v)"
    using field_ok[OF assms(1,4) _ _ c, of 0 4 post] by simp
  have "Verify_range (int ?q) (4 + 4 * length offs) (entered v)"
  proof (cases "length offs")
    case 0
    then show ?thesis using range_has[OF head c, of 4] by simp
  next
    case (Suc k)
    then obtain x :: u32 where "has b (vec - 4 - 4 * k) (le_bytes 4 x)" using assms(2) by (auto simp: vec_at_def)
    from has_le[OF this] has_le[OF head] Suc c show ?thesis
      by (auto simp: Verify_range_def covers_def pos_def)
  qed
  then have "VerifyVector ?m ?q 4 (entered v) = Inr (True, ?q + (4 + 4 * length offs))"
    using range_has[OF head c, of 4] sz u by (simp add: VerifyVector_def vec_size_def Let_def)
  then have 3: "pointee ?m ?p 4 (Verify_Vector ?m) (entered v) = Inr (True, entered v)"
    using pointee_ok[OF assms(1,4), of 0 vec pre post] by (simp add: Verify_Vector_def)
  have "rbind (vec_Get ?m ?q i) (\<lambda>p. NodeState_Verify ?m p w) = Inr (True, counted 2 w)"
    if "i < length offs" "covers pre b w" "room 2 2 w" for i w
    using vec_Get_at[OF assms(2,5) that(1), of pre post] NodeState_ok[OF list_all2_nthD[OF assms(3) that(1)] assms(4) that(2,3), of post]
    by simp
  then have "checks (map (\<lambda>i w. rbind (vec_Get ?m ?q i) (\<lambda>p. NodeState_Verify ?m p w)) [0..<length offs]) (entered v) =
      Inr (True, counted (2 * length offs) (entered v))"
    using c r(2) by (rule checks_counted)
  then have 4: "pointee ?m ?p 4 (VerifyVectorOfTables ?m (NodeState_Verify ?m)) (entered v) = Inr (True, counted (2 * length offs) (entered v))"
    using pointee_ok[OF assms(1,4), of 0 vec pre post] sz u by (simp add: VerifyVectorOfTables_def)
  show ?thesis using 1 2 3 4 by (simp add: NodeStates_Verify_def)
qed

lemma buffer_ok:
  assumes "holds b (length b) (Ref rt)" "\<And>v. v = Verifier_new (length pre) (length b) \<Longrightarrow>
    \<exists>w. verify (pos (length pre) b rt) v = Inr (True, w)"
  shows "passes (VerifyBuffer (pre @ b @ post) verify) (length pre) (length b) = Inr True"
proof -
  let ?v = "Verifier_new (length pre) (length b)"
  obtain r :: u32 where r: "has b (length b) (le_bytes 4 r)" "unat r + rt = length b" using assms(1) by auto
  have c: "covers pre b ?v" by (simp add: covers_def Verifier_new_def)
  have "Verify_range (int (vf_buf ?v)) 4 ?v" using range_has[OF r(1) c, of 4] by (simp add: pos_def Verifier_new_def)
  moreover have "ReadScalar (pre @ b @ post) (vf_buf ?v) = Inr r" using read_has(3)[OF r(1), of pre post] by (simp add: pos_def Verifier_new_def)
  moreover have "vf_buf ?v + unat r = pos (length pre) b rt" using r(2) by (auto simp: pos_def Verifier_new_def)
  moreover obtain w where "verify (pos (length pre) b rt) ?v = Inr (True, w)" using assms(2)[OF refl] by blast
  ultimately show ?thesis by (simp add: passes_def VerifyBuffer_def)
qed

lemma new_room: "d \<le> 64 \<Longrightarrow> k \<le> 1000000 \<Longrightarrow> room d k (Verifier_new p n)"
  by (simp add: room_def Verifier_new_def)

lemma new_covers: "covers pre b (Verifier_new (length pre) (length b))"
  by (simp add: covers_def Verifier_new_def)

lemma sent_states_verify:
  assumes "list_all encodable nss" "msg_size nss + 4 * length nss + 400 \<le> max_size" "2 * length nss < 1000000"
  shows "\<exists>bs. encode_states ltr nss = Inr bs \<and>
    (\<forall>pre post. passes (VerifyNodeStatesBuffer (pre @ bs @ post)) (length pre) (length bs) = Inr True)"
proof (rule encode_states_layout[OF assms(1,2)])
  fix bs rt v offs
  assume l: "encode_states ltr nss = Inr bs" "holds bs (length bs) (Ref rt)" "table_at bs rt 1 [(4, Ref v)]" "vec_at bs v offs"
    "list_all2 (state_tree bs) offs (map (\<lambda>ns. wire ns (printed_port ns)) nss)" "length bs < max_size" "length offs < 2 ^ 32"
  have "length offs = length nss" using list_all2_lengthD[OF l(5)] by simp
  then have "room 3 (1 + 2 * length offs) (Verifier_new p n)" for p n using assms(3) by (intro new_room) simp_all
  then have "\<exists>w. NodeStates_Verify (pre @ bs @ post) (pos (length pre) bs rt) (Verifier_new (length pre) (length bs)) = Inr (True, w)" for pre post
    using NodeStates_ok[OF l(3-7) new_covers] by blast
  then have "passes (VerifyNodeStatesBuffer (pre @ bs @ post)) (length pre) (length bs) = Inr True" for pre post
    unfolding VerifyNodeStatesBuffer_def by (intro buffer_ok[OF l(2)]) simp
  then show ?thesis using l(1) by blast
qed

lemma sent_pong_verifies:
  "\<exists>bs. encode_pong seqNo = Inr bs \<and>
    (\<forall>pre post. passes (VerifyBuffer (pre @ bs @ post) (Pong_Verify (pre @ bs @ post))) (length pre) (length bs) = Inr True)"
proof (rule encode_pong_layout[of seqNo])
  fix bs rt
  assume l: "encode_pong seqNo = Inr bs" "holds bs (length bs) (Ref rt)" "table_at bs rt 1 (scalar_field 4 seqNo)" "length bs < max_size"
  have "\<exists>w. Pong_Verify (pre @ bs @ post) (pos (length pre) bs rt) (Verifier_new (length pre) (length bs)) = Inr (True, w)" for pre post
  proof -
    let ?v = "Verifier_new (length pre) (length bs)"
    have "VerifyField (pre @ bs @ post) (pos (length pre) bs rt) 8 4 (entered ?v) = Inr (True, entered ?v)"
      using field_ok[OF l(3,4), of 0 pre "entered ?v" 8 post] new_covers by (simp add: scalar_field_def split: if_splits)
    moreover have "VerifyTableStart (pre @ bs @ post) (pos (length pre) bs rt) ?v = Inr (True, entered ?v)"
      by (rule start_ok[OF l(3,4) _ new_covers new_room]) simp_all
    ultimately show ?thesis by (simp add: Pong_Verify_def)
  qed
  then have "passes (VerifyBuffer (pre @ bs @ post) (Pong_Verify (pre @ bs @ post))) (length pre) (length bs) = Inr True" for pre post
    by (intro buffer_ok[OF l(2)]) simp
  then show ?thesis using l(1) by blast
qed

lemma ping_sizes:
  "map_of (ping_fields seqNo fr) 4 = Some c \<Longrightarrow> field_size c = 8" "map_of (ping_fields seqNo fr) 6 = Some c \<Longrightarrow> field_size c = 4"
  by (auto dest!: map_of_SomeD simp: ping_fields_def scalar_field_def split: if_splits)

lemma sent_ping_verifies:
  assumes "no_null name" "length name + 200 \<le> max_size"
  shows "\<exists>bs. encode_ping seqNo name = Inr bs \<and>
    (\<forall>pre post. passes (VerifyBuffer (pre @ bs @ post) (Ping_Verify (pre @ bs @ post))) (length pre) (length bs) = Inr True)"
proof (rule encode_ping_layout[OF assms, of seqNo])
  fix bs rt fr
  assume l: "encode_ping seqNo name = Inr bs" "holds bs (length bs) (Ref rt)" "table_at bs rt 2 (ping_fields seqNo fr)"
    "str_at bs fr name" "length bs < max_size"
  have "\<exists>w. Ping_Verify (pre @ bs @ post) (pos (length pre) bs rt) (Verifier_new (length pre) (length bs)) = Inr (True, w)" for pre post
  proof -
    let ?v = "Verifier_new (length pre) (length bs)"
    have c: "covers pre bs (entered ?v)" using new_covers by simp
    have "VerifyField (pre @ bs @ post) (pos (length pre) bs rt) 8 4 (entered ?v) = Inr (True, entered ?v)"
      "VerifyField (pre @ bs @ post) (pos (length pre) bs rt) 4 6 (entered ?v) = Inr (True, entered ?v)"
      using field_ok[OF l(3,5) _ _ c, of 0 8 post] field_ok[OF l(3,5) _ _ c, of 1 4 post] ping_sizes[of seqNo fr]
      by simp_all
    moreover have "pointee (pre @ bs @ post) (pos (length pre) bs rt) 6 (Verify_String (pre @ bs @ post)) (entered ?v) = Inr (True, entered ?v)"
      using pointee_ok[OF l(3,5), of 1 fr pre post] string_ok[OF l(4,5) c] by (simp add: ping_fields_def scalar_field_def)
    moreover have "VerifyTableStart (pre @ bs @ post) (pos (length pre) bs rt) ?v = Inr (True, entered ?v)"
      by (rule start_ok[OF l(3,5) _ new_covers new_room]) simp_all
    ultimately show ?thesis by (simp add: Ping_Verify_def)
  qed
  then have "passes (VerifyBuffer (pre @ bs @ post) (Ping_Verify (pre @ bs @ post))) (length pre) (length bs) = Inr True" for pre post
    by (intro buffer_ok[OF l(2)]) simp
  then show ?thesis using l(1) by blast
qed

section \<open>Properties\<close>

text \<open>
  (C22) The verifier is sound for the reader: when the \<open>n\<close> bytes at \<open>p\<close> pass the generated verification of a message, all of the
  message can be read without an access outside the memory that holds them, whatever the bytes are.
\<close>

theorem verified_is_readable:
  assumes "p + n \<le> length mem"
  shows "(passes (VerifyNodeStatesBuffer mem) p n = Inr True \<longrightarrow> (\<exists>m. GetNodeStates mem p = Inr m)) \<and>
    (passes (VerifyBuffer mem (NodeState_Verify mem)) p n = Inr True \<longrightarrow> (\<exists>m. decode_state mem p = Inr m)) \<and>
    (passes (VerifyBuffer mem (Ping_Verify mem)) p n = Inr True \<longrightarrow> (\<exists>m. decode_ping mem p = Inr m)) \<and>
    (passes (VerifyBuffer mem (Pong_Verify mem)) p n = Inr True \<longrightarrow> (\<exists>m. decode_pong mem p = Inr m)) \<and>
    (passes (VerifyBuffer mem (IndirectPing_Verify mem)) p n = Inr True \<longrightarrow> (\<exists>m. rbind (GetRoot mem p) (IndirectPing_at mem) = Inr m))"
  unfolding VerifyNodeStatesBuffer_def GetNodeStates_def decode_state_def decode_ping_def decode_pong_def is_ok_iff[symmetric]
  by (intro conjI impI; erule buffer_readable[OF _ assms])
    (simp_all add: NodeStates_readable NodeState_readable Ping_Pong_readable)

theorem verified_is_readable_witness:
  "\<exists>bs m. passes (VerifyNodeStatesBuffer ([1, 2, 3] @ bs @ [4])) 3 (length bs) = Inr True \<and> GetNodeStates ([1, 2, 3] @ bs @ [4]) 3 = Inr m"
proof -
  have size: "msg_size ex_states + 4 * length ex_states + 400 \<le> max_size" "2 * length ex_states < 1000000"
    by (simp_all add: ex_states_def ex_msg_def msg_size_def ns_size_def max_size_def)
  have "list_all encodable ex_states" using ex_states_sendable sendable_encodable by (auto simp: list_all_iff)
  then obtain bs where bs: "passes (VerifyNodeStatesBuffer ([1, 2, 3] @ bs @ [4])) (length ([1, 2, 3] :: bytes)) (length bs) = Inr True"
    using sent_states_verify[OF _ size, of True] by blast
  then have v: "passes (VerifyNodeStatesBuffer ([1, 2, 3] @ bs @ [4])) 3 (length bs) = Inr True" by (simp add: numeral_3_eq_3)
  from verified_is_readable[of 3 "length bs" "[1, 2, 3] @ bs @ [4]"] v show ?thesis by auto
qed

text \<open>
  (C23) What a member sends passes the verification, wherever the receiver puts it: encoded node states, as long as their tables are no more
  than the verifier allows, pings and pongs.
\<close>

theorem sent_messages_verify:
  assumes "list_all sendable nss" "msg_size nss + 4 * length nss + 400 \<le> max_size" "2 * length nss < 1000000"
    "no_null name" "length name + 200 \<le> max_size"
  shows "\<exists>states ping pong. encode_states ltr nss = Inr states \<and> encode_ping seqNo name = Inr ping \<and> encode_pong seqNo = Inr pong \<and>
    (\<forall>pre post. passes (VerifyNodeStatesBuffer (pre @ states @ post)) (length pre) (length states) = Inr True \<and>
       passes (VerifyBuffer (pre @ ping @ post) (Ping_Verify (pre @ ping @ post))) (length pre) (length ping) = Inr True \<and>
       passes (VerifyBuffer (pre @ pong @ post) (Pong_Verify (pre @ pong @ post))) (length pre) (length pong) = Inr True)"
proof -
  have "list_all encodable nss" using assms(1) sendable_encodable by (auto simp: list_all_iff)
  from sent_states_verify[OF this assms(2,3), of ltr] sent_ping_verifies[OF assms(4,5), of seqNo] sent_pong_verifies[of seqNo]
  show ?thesis by blast
qed

theorem sent_messages_verify_witness:
  "\<exists>states pong. encode_states False ex_states = Inr states \<and> encode_pong 7 = Inr pong \<and>
    passes (VerifyNodeStatesBuffer states) 0 (length states) = Inr True \<and> passes (VerifyBuffer pong (Pong_Verify pong)) 0 (length pong) = Inr True"
proof -
  have size: "msg_size ex_states + 4 * length ex_states + 400 \<le> max_size" "2 * length ex_states < 1000000"
    by (simp_all add: ex_states_def ex_msg_def msg_size_def ns_size_def max_size_def)
  have "no_null ''10.0.0.1:7''" "length ''10.0.0.1:7'' + 200 \<le> max_size" by (simp_all add: no_null_def max_size_def)
  from sent_messages_verify[OF ex_states_sendable size this, of False 7] obtain states pong where
    s: "encode_states False ex_states = Inr states" "encode_pong 7 = Inr pong"
    "\<forall>pre post. passes (VerifyNodeStatesBuffer (pre @ states @ post)) (length pre) (length states) = Inr True"
    "\<forall>pre post. passes (VerifyBuffer (pre @ pong @ post) (Pong_Verify (pre @ pong @ post))) (length pre) (length pong) = Inr True"
    by blast
  show ?thesis using s(1,2) s(3)[rule_format, of "[]" "[]"] s(4)[rule_format, of "[]" "[]"] by auto
qed

lemma far_root: "(le_word [255, 255, 255, 127] :: u32) = 2147483647"
  by (simp add: push_bit_of_1) 

lemma read_outside: "length mem < p + sizeof TYPE('a::len word) \<Longrightarrow> (ReadScalar mem p :: 'a word result) = Inl OutOfBounds"
  by (simp add: ReadScalar_def buf_read_def)

text \<open>
  (C35) Four bytes crash any member. The program verifies nothing: a synchronisation request with this body makes \<^verbatim>\<open>handleBody\<close>
  read two gigabytes past the start of its buffer, whatever the member's state and whatever else is in the buffer. The
  verifier would have rejected the four bytes.
\<close>

theorem unverified_message_crashes:
  assumes "length rest < 2 ^ 31 - 1"
  shows "handleBody moved le ltr freed g TYPE_SYNCSTATE ([255, 255, 255, 127] @ rest) sz out n = Inl OutOfBounds \<and>
    passes (VerifyNodeStatesBuffer ([255, 255, 255, 127] @ rest)) 0 4 = Inr False"
proof -
  let ?m = "[255, 255, 255, 127] @ rest :: bytes"
  have r: "ReadScalar ?m 0 = Inr (2147483647 :: u32)" using far_root by (simp add: ReadScalar_def buf_read_def)
  then have root: "GetRoot ?m 0 = Inr 2147483647" by (simp add: GetRoot_def)
  have "(ReadScalar ?m 2147483647 :: u32 result) = Inl OutOfBounds" using assms by (intro read_outside) simp
  then have "GetNodeStates ?m 0 = Inl OutOfBounds"
    unfolding GetNodeStates_def root by (simp add: NodeStates_at_def GetPointer_def GetOptionalFieldOffset_def)
  then have "handleBody moved le ltr freed g TYPE_SYNCSTATE ?m sz out n = Inl OutOfBounds"
    by (simp add: handleBody_def TYPE_SYNCSTATE_def TYPE_PING_def)
  moreover have "passes (VerifyNodeStatesBuffer ?m) 0 4 = Inr False"
    using r by (simp add: passes_def VerifyNodeStatesBuffer_def VerifyBuffer_def Verifier_new_def Verify_range_def NodeStates_Verify_def
        VerifyTableStart_def)
  ultimately show ?thesis ..
qed

theorem unverified_message_crashes_witness:
  "handleBody (\<lambda>_. ex_msg [] 0 STATE_DEAD) True True (\<lambda>_ _. 0) (gossiper_new ex_conf (#) 0 id) TYPE_SYNCSTATE ([255, 255, 255, 127] @ replicate 65532 0) 4 [] 65536 = Inl OutOfBounds"
  using unverified_message_crashes[of "replicate 65532 0" "\<lambda>_. ex_msg [] 0 STATE_DEAD" True True "\<lambda>_ _. 0" "gossiper_new ex_conf (#) 0 id" 4 "[]" 65536] by simp

text \<open>
  The verifier has a gap of its own: it checks that a vtable fits, but not that its size is even, so the read of a last field
  can go one byte past a buffer that ends with its vtable.
\<close>

lemma verifier_overreads:
  "passes (VerifyNodeStatesBuffer [4, 0, 0, 0, 252, 255, 255, 255, 5, 0, 8, 0, 4]) 0 13 = Inl OutOfBounds"
proof -
  let ?m = "[4, 0, 0, 0, 252, 255, 255, 255, 5, 0, 8, 0, 4] :: bytes"
  have "ReadScalar ?m 0 = Inr (4 :: u32)" "ReadScalar ?m 4 = Inr (- 4 :: u32)" "ReadScalar ?m 8 = Inr (5 :: u16)"
    "ReadScalar ?m 12 = (Inl OutOfBounds :: u16 result)"
    by (simp_all add: ReadScalar_def buf_read_def)
  then show ?thesis
    by (simp add: passes_def VerifyNodeStatesBuffer_def VerifyBuffer_def Verifier_new_def Verify_range_def NodeStates_Verify_def
        VerifyTableStart_def VerifyComplexity_def pure_check_def VerifyField_def GetOptionalFieldOffset_def Let_def)
qed

end
