(* ===== verification/Echo.thy ===== *)
theory Echo
  imports Asio Utils "HOL-Library.Sublist"
begin

text \<open>
  The example \<^verbatim>\<open>src/examples/timer.cpp\<close>: an echo server on TCP, and a timer of two seconds on the same \<^verbatim>\<open>io_service\<close>.
\<close>

section \<open>Sessions\<close>

text \<open>\<open>es_received\<close> and \<open>es_sent\<close> are the bytes that have come in and gone out through the session's socket.\<close>

datatype echo_op = Awaiting | Echoing bytes | Over

record echo_session =
  es_data :: bytes
  es_op :: echo_op
  es_received :: bytes
  es_sent :: bytes

definition max_length :: nat where
  "max_length = 1024"

definition do_read :: "echo_session \<Rightarrow> echo_session" where
  "do_read s = s\<lparr>es_op := Awaiting\<rparr>"

definition do_write :: "nat \<Rightarrow> echo_session \<Rightarrow> echo_session" where
  "do_write len s = s\<lparr>es_op := Echoing (take len (es_data s))\<rparr>"

text \<open>\<open>junk\<close> is what the uninitialised array holds.\<close>

definition start :: "bytes \<Rightarrow> echo_session" where
  "start junk = do_read \<lparr>es_data = junk, es_op = Over, es_received = [], es_sent = []\<rparr>"

text \<open>
  The completion handlers. A read delivers some bytes, a write all of its buffer; on an error, after which a write may have got
  some bytes out, the handler does nothing and the session is destroyed.
\<close>

datatype echo_completion = Read_some bytes | Read_failed | Wrote | Write_failed nat

fun echo_session_step :: "echo_session \<Rightarrow> echo_completion \<Rightarrow> echo_session" where
  "echo_session_step s (Read_some data) =
     (if es_op s = Awaiting \<and> length data \<le> max_length
      then do_write (length data) (s\<lparr>es_data := data @ drop (length data) (es_data s), es_received := es_received s @ data\<rparr>)
      else s)"
| "echo_session_step s Read_failed = (if es_op s = Awaiting then s\<lparr>es_op := Over\<rparr> else s)"
| "echo_session_step s Wrote =
     (case es_op s of Echoing data \<Rightarrow> do_read (s\<lparr>es_sent := es_sent s @ data\<rparr>) | _ \<Rightarrow> s)"
| "echo_session_step s (Write_failed n) =
     (case es_op s of Echoing data \<Rightarrow> s\<lparr>es_op := Over, es_sent := es_sent s @ take n data\<rparr> | _ \<Rightarrow> s)"

section \<open>The server and main\<close>

text \<open>\<open>ec_printed\<close> lists the times at which the handler of the timer has printed its line.\<close>

record echo_server =
  ec_now :: nat
  ec_accepting :: bool
  ec_sessions :: "echo_session list"
  ec_timer :: "unit steady_timer"
  ec_queue :: "unit list"
  ec_printed :: "nat list"

definition do_accept :: "echo_server \<Rightarrow> echo_server" where
  "do_accept sv = sv\<lparr>ec_accepting := True\<rparr>"

definition echo_server_new :: "nat \<Rightarrow> echo_server" where
  "echo_server_new now =
     do_accept \<lparr>ec_now = now, ec_accepting = False, ec_sessions = [], ec_timer = timer_new, ec_queue = [], ec_printed = []\<rparr>"

definition echo_accepted :: "bytes option \<Rightarrow> echo_server \<Rightarrow> echo_server" where
  "echo_accepted connection sv =
     do_accept (case connection of
         Some junk \<Rightarrow> sv\<lparr>ec_sessions := ec_sessions sv @ [start junk]\<rparr>
       | None \<Rightarrow> sv)"

text \<open>\<^verbatim>\<open>std::atoi\<close>: no number is 0; a value that is no \<^verbatim>\<open>int\<close> is undefined.\<close>

definition atoi :: "string \<Rightarrow> int result" where
  "atoi s = (case stoi s of Inl InvalidArgument \<Rightarrow> Inr 0 | r \<Rightarrow> r)"

text \<open>
  \<open>binds\<close> says to which ports the host lets the acceptor bind; it throws at the others. \<^verbatim>\<open>main\<close> returns a status, or it waits
  for the \<^verbatim>\<open>io_service\<close>, which has the accept to wait for.
\<close>

datatype echo_main_result = Returned int | Serving echo_server

definition echo_main :: "(i16 \<Rightarrow> bool) \<Rightarrow> nat \<Rightarrow> string list \<Rightarrow> echo_main_result result" where
  "echo_main binds now argv =
     (if length argv \<noteq> 2 then Inr (Returned 1)
      else
        rbind (atoi (argv ! 1)) (\<lambda>port.
          if \<not> binds (word_of_int port) then Inr (Returned 0)
          else
            let sv = echo_server_new now;
                (tm, posted) = expires_from_now now 2000 (ec_timer sv)
            in Inr (Serving (sv\<lparr>ec_timer := async_wait () tm, ec_queue := ec_queue sv @ posted\<rparr>))))"

datatype echo_event =
    Echo_accepted "bytes option"
  | Echo_completion nat echo_completion
  | Echo_elapse nat
  | Echo_fire
  | Echo_run

fun echo_step :: "echo_server \<Rightarrow> echo_event \<Rightarrow> echo_server result" where
  "echo_step sv (Echo_accepted connection) =
     Inr (if ec_accepting sv then echo_accepted connection (sv\<lparr>ec_accepting := False\<rparr>) else sv)"
| "echo_step sv (Echo_completion i c) =
     Inr (if i < length (ec_sessions sv)
          then sv\<lparr>ec_sessions := (ec_sessions sv)[i := echo_session_step (ec_sessions sv ! i) c]\<rparr> else sv)"
| "echo_step sv (Echo_elapse d) = Inr (sv\<lparr>ec_now := ec_now sv + d\<rparr>)"
| "echo_step sv Echo_fire =
     (let (tm, posted) = timer_fire (ec_now sv) (ec_timer sv)
      in Inr (sv\<lparr>ec_timer := tm, ec_queue := ec_queue sv @ posted\<rparr>))"
| "echo_step sv Echo_run =
     (case ec_queue sv of
        [] \<Rightarrow> Inr sv
      | _ # q \<Rightarrow> Inr (sv\<lparr>ec_queue := q, ec_printed := ec_printed sv @ [ec_now sv]\<rparr>))"

section \<open>The invariant\<close>

definition echoes :: "echo_session \<Rightarrow> bool" where
  "echoes s \<longleftrightarrow>
     (case es_op s of
        Awaiting \<Rightarrow> es_sent s = es_received s
      | Echoing data \<Rightarrow> es_sent s @ data = es_received s
      | Over \<Rightarrow> prefix (es_sent s) (es_received s))"

lemma echoes_prefix: "echoes s \<Longrightarrow> prefix (es_sent s) (es_received s)"
  by (cases "es_op s") (auto simp: echoes_def dest: sym intro: prefixI)

lemma echoes_start: "echoes (start junk)"
  by (simp add: echoes_def start_def do_read_def)

lemma echoes_step:
  assumes "echoes s"
  shows "echoes (echo_session_step s c)"
proof (cases c)
  case (Read_some data)
  then show ?thesis using assms by (cases "es_op s") (simp_all add: echoes_def do_write_def)
next
  case Read_failed
  then show ?thesis using assms by (cases "es_op s") (simp_all add: echoes_def)
next
  case Wrote
  then show ?thesis using assms by (cases "es_op s") (simp_all add: echoes_def do_read_def)
next
  case (Write_failed n)
  show ?thesis
  proof (cases "es_op s")
    case (Echoing data)
    then have "es_received s = es_sent s @ data" using assms by (simp add: echoes_def)
    then show ?thesis using Write_failed Echoing by (simp add: echoes_def take_is_prefix)
  qed (use assms Write_failed in \<open>simp_all add: echoes_def\<close>)
qed

definition echo_inv :: "nat \<Rightarrow> echo_server \<Rightarrow> bool" where
  "echo_inv due sv \<longleftrightarrow> ec_accepting sv \<and> list_all echoes (ec_sessions sv) \<and> tm_expiry (ec_timer sv) = Some due \<and>
     length (tm_waits (ec_timer sv)) + length (ec_queue sv) + length (ec_printed sv) = 1 \<and>
     (ec_queue sv \<noteq> [] \<longrightarrow> due \<le> ec_now sv) \<and> list_all (\<lambda>t. due \<le> t) (ec_printed sv)"

lemma echo_step_inv:
  assumes "echo_inv due sv" "echo_step sv e = Inr sv'"
  shows "echo_inv due sv'"
proof (cases e)
  case (Echo_accepted connection)
  then show ?thesis using assms
    by (auto simp: echo_inv_def echo_accepted_def do_accept_def echoes_start split: option.splits)
next
  case (Echo_completion i c)
  show ?thesis
  proof (cases "i < length (ec_sessions sv)")
    case True
    then have "echoes (echo_session_step (ec_sessions sv ! i) c)" using assms(1) by (simp add: echo_inv_def list_all_length echoes_step)
    moreover have "list_all echoes (ec_sessions sv)" using assms(1) by (simp add: echo_inv_def)
    ultimately have "list_all echoes ((ec_sessions sv)[i := echo_session_step (ec_sessions sv ! i) c])"
      unfolding list_all_iff by (blast dest: set_update_subset_insert[THEN subsetD])
    then show ?thesis using assms Echo_completion True by (auto simp: echo_inv_def)
  qed (use assms Echo_completion in simp)
next
  case (Echo_elapse d)
  then show ?thesis using assms by (auto simp: echo_inv_def)
next
  case Echo_fire
  then show ?thesis using assms by (auto simp: echo_inv_def timer_simps split: if_splits)
next
  case Echo_run
  then show ?thesis using assms by (auto simp: echo_inv_def split: list.splits)
qed

interpretation echo: total_machine echo_step "echo_inv due" "\<lambda>_. True" for due
proof
  show "is_ok (echo_step sv e)" for sv e by (cases e) (auto split: list.splits prod.splits)
qed (rule echo_step_inv)

lemma echo_main_inv: "echo_main binds now argv = Inr (Serving sv) \<Longrightarrow> echo_inv (now + 2000) sv"
  by (auto simp: echo_main_def rbind_Inr_iff Let_def echo_server_new_def do_accept_def echo_inv_def timer_simps timer_new_def
      split: if_splits)

section \<open>Properties\<close>

text \<open>
  (C40) The example server echoes. In every run of it, each session has sent back a prefix of what it has received, and all of
  it whenever it waits for more; the server always accepts; and the line of the timer is printed at most
  once, two seconds after the start or later.
\<close>

theorem echo_server_echoes:
  assumes "echo_main binds now argv = Inr (Serving sv0)" "rfold echo_step sv0 es = Inr sv"
  shows "ec_accepting sv \<and>
    (\<forall>s \<in> set (ec_sessions sv). prefix (es_sent s) (es_received s) \<and> (es_op s = Awaiting \<longrightarrow> es_sent s = es_received s)) \<and>
    length (ec_printed sv) \<le> 1 \<and> (\<forall>t \<in> set (ec_printed sv). now + 2000 \<le> t)"
proof -
  have "echo_inv (now + 2000) sv"
    using echo.run_inv[OF echo_main_inv[OF assms(1)] _ assms(2)] by (simp add: list_all_iff)
  moreover have "es_op s = Awaiting \<longrightarrow> es_sent s = es_received s" if "echoes s" for s
    using that by (cases "es_op s") (simp_all add: echoes_def)
  ultimately show ?thesis using echoes_prefix by (auto simp: echo_inv_def list_all_iff)
qed

theorem echo_server_echoes_witness:
  "\<exists>sv0 sv. echo_main (\<lambda>_. True) 5 [''echo'', ''7''] = Inr (Serving sv0) \<and>
    rfold echo_step sv0 [Echo_accepted (Some (replicate 1024 0)), Echo_completion 0 (Read_some [1, 2]), Echo_elapse 2500, Echo_fire,
      Echo_completion 0 Wrote, Echo_run, Echo_completion 0 (Read_some [3, 4]), Echo_completion 0 (Write_failed 1)] = Inr sv \<and>
    map es_sent (ec_sessions sv) = [[1, 2, 3]] \<and> ec_printed sv = [2505] \<and> ec_accepting sv"
proof -
  let ?es = "[Echo_accepted (Some (replicate 1024 0)), Echo_completion 0 (Read_some [1, 2]), Echo_elapse 2500, Echo_fire,
      Echo_completion 0 Wrote, Echo_run, Echo_completion 0 (Read_some [3, 4]), Echo_completion 0 (Write_failed 1)]"
  have port: "atoi ''7'' = Inr 7" by code_simp
  obtain sv0 where sv0: "echo_main (\<lambda>_. True) 5 [''echo'', ''7''] = Inr (Serving sv0)"
    "sv0 = (let sv = echo_server_new 5; (tm, posted) = expires_from_now 5 2000 (ec_timer sv)
            in sv\<lparr>ec_timer := async_wait () tm, ec_queue := ec_queue sv @ posted\<rparr>)"
    using port by (simp add: echo_main_def Let_def split: prod.splits)
  obtain sv where sv: "rfold echo_step sv0 ?es = Inr sv" "map es_sent (ec_sessions sv) = [[1, 2, 3]]" "ec_printed sv = [2505]"
    by (simp add: sv0(2) echo_server_new_def do_accept_def timer_new_def timer_simps echo_accepted_def start_def do_read_def
        do_write_def max_length_def Let_def)
  have "ec_accepting sv" using echo_server_echoes[OF sv0(1) sv(1)] by (elim conjE)
  with sv0(1) sv show ?thesis by (intro exI[of _ sv0] exI[of _ sv] conjI)
qed

end
