(* ===== verification/Blocking.thy ===== *)
theory Blocking
  imports Asio Config
begin

text \<open>
  \<^verbatim>\<open>class tcp::BlockingClient\<close> of \<^verbatim>\<open>src/src/network/tcp/blocking_client.hpp\<close>, with the queue of its own \<^verbatim>\<open>io_service\<close>. A
  blocking operation starts an asynchronous one and runs handlers until that one's has run, while the
  persistent actor \<^verbatim>\<open>check_deadline\<close> closes the socket when the deadline has passed. \<open>bc_ec\<close> is the variable \<^verbatim>\<open>ec\<close> of the
  operation: \<open>None\<close> for \<^verbatim>\<open>would_block\<close>, else whether it succeeded. An operation that does not return on the given
  events has the value \<open>None\<close>. The bytes are left out; the theory \<open>Packets\<close> has them.
\<close>

section \<open>The client\<close>

datatype bc_handler = On_check_deadline | On_done bool

record BlockingClient =
  bc_now :: nat
  bc_open :: bool
  bc_deadline :: "unit steady_timer"
  bc_queue :: "bc_handler list"
  bc_pending :: bool
  bc_ec :: "bool option"

definition posted_checks :: "unit list \<Rightarrow> bc_handler list" where
  "posted_checks = map (\<lambda>_. On_check_deadline)"

definition socket_close :: "BlockingClient \<Rightarrow> BlockingClient" where
  "socket_close c =
     c\<lparr>bc_open := False, bc_pending := False,
       bc_queue := bc_queue c @ (if bc_pending c then [On_done False] else [])\<rparr>"

definition check_deadline :: "BlockingClient \<Rightarrow> BlockingClient" where
  "check_deadline c =
     (let c1 = (if expired (bc_now c) (bc_deadline c) then
                  let c0 = socket_close c; (tm, posted) = expires_at None (bc_deadline c0)
                  in c0\<lparr>bc_deadline := tm, bc_queue := bc_queue c0 @ posted_checks posted\<rparr>
                else c)
      in c1\<lparr>bc_deadline := async_wait () (bc_deadline c1)\<rparr>)"

definition BlockingClient_new :: "nat \<Rightarrow> BlockingClient" where
  "BlockingClient_new now =
     check_deadline
       \<lparr>bc_now = now, bc_open = False, bc_deadline = fst (expires_at None timer_new), bc_queue = [],
        bc_pending = False, bc_ec = Some True\<rparr>"

definition set_timeout :: "int \<Rightarrow> BlockingClient \<Rightarrow> BlockingClient" where
  "set_timeout timeout c =
     (if timeout > 0 then
        let (tm, posted) = expires_from_now (bc_now c) (nat timeout) (bc_deadline c)
        in c\<lparr>bc_deadline := tm, bc_queue := bc_queue c @ posted_checks posted\<rparr>
      else c)"

text \<open>Starting an operation: \<^verbatim>\<open>async_connect\<close> opens the socket, the others fail on a closed one.\<close>

definition start_op :: "bool \<Rightarrow> int \<Rightarrow> BlockingClient \<Rightarrow> BlockingClient" where
  "start_op opens timeout c =
     (let c1 = (set_timeout timeout c)\<lparr>bc_ec := None\<rparr>
      in if opens then c1\<lparr>bc_open := True, bc_pending := True\<rparr>
         else if bc_open c1 then c1\<lparr>bc_pending := True\<rparr>
         else c1\<lparr>bc_queue := bc_queue c1 @ [On_done False]\<rparr>)"

fun bc_run_handler :: "bc_handler \<Rightarrow> BlockingClient \<Rightarrow> BlockingClient" where
  "bc_run_handler On_check_deadline c = check_deadline c"
| "bc_run_handler (On_done ok) c = c\<lparr>bc_ec := Some ok\<rparr>"

text \<open>Time passes; the expired timer posts its handler; the operation completes; \<^verbatim>\<open>run_one\<close> runs a handler.\<close>

datatype bc_event = B_elapse nat | B_fire | B_complete bool | B_run

fun bc_step :: "BlockingClient \<Rightarrow> bc_event \<Rightarrow> BlockingClient" where
  "bc_step c (B_elapse d) = c\<lparr>bc_now := bc_now c + d\<rparr>"
| "bc_step c B_fire =
     (let (tm, posted) = timer_fire (bc_now c) (bc_deadline c)
      in c\<lparr>bc_deadline := tm, bc_queue := bc_queue c @ posted_checks posted\<rparr>)"
| "bc_step c (B_complete ok) =
     (if bc_pending c then c\<lparr>bc_pending := False, bc_queue := bc_queue c @ [On_done ok]\<rparr> else c)"
| "bc_step c B_run =
     (case bc_queue c of [] \<Rightarrow> c | h # hs \<Rightarrow> bc_run_handler h (c\<lparr>bc_queue := hs\<rparr>))"

text \<open>The loop \<^verbatim>\<open>do run_one while (ec == would_block)\<close>.\<close>

fun await :: "BlockingClient \<Rightarrow> bc_event list \<Rightarrow> (BlockingClient \<times> bc_event list) option" where
  "await c [] = (if bc_ec c = None then None else Some (c, []))"
| "await c (e # es) = (if bc_ec c = None then await (bc_step c e) es else Some (c, e # es))"

text \<open>\<open>resolves\<close> says whether the resolver finds the host; it throws otherwise.\<close>

definition Connect :: "bool \<Rightarrow> int \<Rightarrow> BlockingClient \<Rightarrow> bc_event list \<Rightarrow> (BlockingClient result \<times> bc_event list) option" where
  "Connect resolves timeout c es =
     (if \<not> resolves then Some (Inl SystemError, es)
      else
        case await (start_op True timeout c) es of
          None \<Rightarrow> None
        | Some (c', es') \<Rightarrow> Some (if bc_ec c' = Some False \<or> \<not> bc_open c' then Inl SystemError else Inr c', es'))"

definition ReadFull :: "int \<Rightarrow> BlockingClient \<Rightarrow> bc_event list \<Rightarrow> (BlockingClient result \<times> bc_event list) option" where
  "ReadFull timeout c es =
     (case await (start_op False timeout c) es of
        None \<Rightarrow> None
      | Some (c', es') \<Rightarrow> Some (if bc_ec c' = Some False then Inl SystemError else Inr c', es'))"

definition Write :: "int \<Rightarrow> BlockingClient \<Rightarrow> bc_event list \<Rightarrow> (BlockingClient result \<times> bc_event list) option" where
  "Write timeout c es =
     (case await (start_op False timeout c) es of
        None \<Rightarrow> None
      | Some (c', es') \<Rightarrow> Some (if bc_ec c' = Some False then Inl SystemError else Inr c', es'))"

definition Close :: "BlockingClient \<Rightarrow> BlockingClient" where
  "Close c =
     (let (tm, posted) = timer_cancel (bc_deadline c)
      in socket_close (c\<lparr>bc_deadline := tm, bc_queue := bc_queue c @ posted_checks posted\<rparr>))"

section \<open>The actor and the operation\<close>

definition checks :: "BlockingClient \<Rightarrow> nat" where
  "checks c = length (tm_waits (bc_deadline c)) + length (filter (\<lambda>h. h = On_check_deadline) (bc_queue c))"

definition dones :: "BlockingClient \<Rightarrow> nat" where
  "dones c = (if bc_pending c then 1 else 0) + length (filter (\<lambda>h. h \<noteq> On_check_deadline) (bc_queue c))"

text \<open>One \<^verbatim>\<open>check_deadline\<close> waits or is queued, and one completion exactly while the operation blocks.\<close>

definition bc_inv :: "BlockingClient \<Rightarrow> bool" where
  "bc_inv c \<longleftrightarrow> checks c = 1 \<and> dones c = (if bc_ec c = None then 1 else 0)"

lemma posted_checks_filter [simp]:
  "filter (\<lambda>h. h = On_check_deadline) (posted_checks us) = posted_checks us"
  "filter (\<lambda>h. h \<noteq> On_check_deadline) (posted_checks us) = []" "length (posted_checks us) = length us"
  "list_all (\<lambda>h. h = On_check_deadline) (posted_checks us)"
  by (simp_all add: posted_checks_def filter_map o_def list_all_iff)

lemma check_deadline_counts:
  "checks (check_deadline c) = Suc (checks c)" "dones (check_deadline c) = dones c" "bc_ec (check_deadline c) = bc_ec c"
  by (simp_all add: check_deadline_def socket_close_def timer_simps checks_def dones_def Let_def)

lemma start_op_inv: "bc_inv c \<Longrightarrow> bc_ec c \<noteq> None \<Longrightarrow> bc_inv (start_op opens timeout c)"
  by (auto simp: bc_inv_def start_op_def set_timeout_def timer_simps checks_def dones_def Let_def)

lemma bc_new_inv: "bc_inv (BlockingClient_new now)"
  by (simp add: bc_inv_def BlockingClient_new_def check_deadline_counts)
    (simp add: checks_def dones_def check_deadline_def timer_simps timer_new_def)

lemma bc_step_inv:
  assumes "bc_inv c" "bc_ec c = None"
  shows "bc_inv (bc_step c e)"
proof (cases e)
  case B_run
  show ?thesis
  proof (cases "bc_queue c")
    case (Cons h hs)
    then have q: "checks c = checks (c\<lparr>bc_queue := hs\<rparr>) + (if h = On_check_deadline then 1 else 0)"
      "dones c = dones (c\<lparr>bc_queue := hs\<rparr>) + (if h = On_check_deadline then 0 else 1)"
      by (auto simp: checks_def dones_def)
    show ?thesis
    proof (cases h)
      case (On_done ok)
      with q assms Cons B_run show ?thesis by (simp add: bc_inv_def) (simp add: checks_def dones_def)
    qed (use q assms Cons B_run in \<open>simp add: bc_inv_def check_deadline_counts\<close>)
  qed (use assms B_run in simp)
qed (use assms in \<open>auto simp: bc_inv_def checks_def dones_def timer_simps Let_def split: option.splits\<close>)

section \<open>With a deadline\<close>

lemma await_append:
  assumes "await c es = None"
  shows "await c (es @ es') = await (foldl bc_step c es) es'"
  using assms by (induction es arbitrary: c) (auto split: if_splits)

lemma await_None_inv:
  assumes "await c es = None" "bc_inv c"
  shows "bc_inv (foldl bc_step c es) \<and> bc_ec (foldl bc_step c es) = None"
  using assms by (induction es arbitrary: c) (auto simp: bc_step_inv split: if_splits)

text \<open>The timer is armed, or the operation is no longer pending.\<close>

definition guarded :: "BlockingClient \<Rightarrow> bool" where
  "guarded c \<longleftrightarrow> (\<exists>e. tm_expiry (bc_deadline c) = Some e) \<or> \<not> bc_pending c"

lemma start_op_guarded: "timeout > 0 \<Longrightarrow> guarded (start_op opens timeout c)"
  by (auto simp: guarded_def start_op_def set_timeout_def timer_simps Let_def)

lemma bc_step_guarded: "guarded c \<Longrightarrow> guarded (bc_step c e)"
proof (cases e)
  case B_run
  assume "guarded c"
  with B_run show ?thesis
    by (cases "bc_queue c"; cases "hd (bc_queue c)")
      (auto simp: guarded_def check_deadline_def socket_close_def timer_simps Let_def)
qed (auto simp: guarded_def timer_simps Let_def)

lemma foldl_guarded: "guarded c \<Longrightarrow> guarded (foldl bc_step c es)"
  by (induction es arbitrary: c) (auto simp: bc_step_guarded)

lemma two_runs:
  assumes "bc_inv c" "bc_ec c = None" "\<not> bc_pending c \<or> tm_waits (bc_deadline c) = [] \<and> expired (bc_now c) (bc_deadline c)"
  shows "await c [B_run, B_run] \<noteq> None"
proof (cases "bc_queue c")
  case Nil
  then show ?thesis using assms by (auto simp: bc_inv_def checks_def dones_def)
next
  case (Cons h hs)
  show ?thesis
  proof (cases h)
    case (On_done ok)
    then show ?thesis using assms(2) Cons by simp
  next
    case On_check_deadline
    have no: "filter (\<lambda>h. h = On_check_deadline) hs = []" using assms(1) Cons On_check_deadline
      by (auto simp: bc_inv_def checks_def)
    show ?thesis
    proof (cases hs)
      case (Cons h' hs')
      then obtain ok where "h' = On_done ok" using no by (cases h') auto
      with Cons \<open>bc_queue c = h # hs\<close> On_check_deadline assms(2) show ?thesis
        by (simp add: check_deadline_def socket_close_def timer_simps Let_def split: option.splits)
    next
      case Nil
      then have "bc_pending c" using assms(1,2) \<open>bc_queue c = h # hs\<close> On_check_deadline
        by (auto simp: bc_inv_def dones_def split: if_splits)
      with assms(2,3) Nil \<open>bc_queue c = h # hs\<close> On_check_deadline show ?thesis
        by (simp add: check_deadline_def socket_close_def timer_simps posted_checks_def Let_def split: option.splits)
    qed
  qed
qed

lemma guarded_returns:
  assumes "bc_inv c" "bc_ec c = None" "guarded c"
  shows "\<exists>es. (\<forall>ok. B_complete ok \<notin> set es) \<and> await c es \<noteq> None"
proof (cases "bc_pending c")
  case False
  then show ?thesis using two_runs[OF assms(1,2)] by (intro exI[of _ "[B_run, B_run]"]) simp
next
  case True
  then obtain e where e: "tm_expiry (bc_deadline c) = Some e" using assms(3) by (auto simp: guarded_def)
  let ?c = "bc_step (bc_step c (B_elapse e)) B_fire"
  have "bc_inv ?c" "bc_ec ?c = None"
    using bc_step_inv[of "bc_step c (B_elapse e)" B_fire] bc_step_inv[OF assms(1,2), of "B_elapse e"] assms(2)
    by (auto simp: Let_def split: prod.splits)
  then have "await ?c [B_run, B_run] \<noteq> None"
    by (rule two_runs) (use e in \<open>simp add: timer_simps\<close>)
  then have "await c [B_elapse e, B_fire, B_run, B_run] \<noteq> None" using assms(2) by simp
  then show ?thesis by (intro exI[of _ "[B_elapse e, B_fire, B_run, B_run]"]) simp
qed

section \<open>Without one\<close>

definition stuck :: "BlockingClient \<Rightarrow> bool" where
  "stuck c \<longleftrightarrow> tm_expiry (bc_deadline c) = None \<and> bc_pending c \<and> bc_ec c = None \<and>
     list_all (\<lambda>h. h = On_check_deadline) (bc_queue c)"

lemma bc_step_stuck: "stuck c \<Longrightarrow> (\<forall>ok. e \<noteq> B_complete ok) \<Longrightarrow> stuck (bc_step c e)"
  by (cases e; cases "bc_queue c")
    (auto simp: stuck_def check_deadline_def timer_simps Let_def)

lemma stuck_blocks: "stuck c \<Longrightarrow> (\<forall>ok. B_complete ok \<notin> set es) \<Longrightarrow> await c es = None"
proof (induction es arbitrary: c)
  case Nil
  then show ?case by (simp add: stuck_def)
next
  case (Cons e es)
  then have "stuck (bc_step c e)" by (intro bc_step_stuck) auto
  with Cons show ?case by (auto simp: stuck_def)
qed

section \<open>Properties\<close>

text \<open>
  (C27) A timeout bounds every operation. Connecting, reading and writing with a timeout on a client that is not
  in an operation return whatever the peer does: if some events leave the operation blocked,
  the deadline and two more handlers make it return, without any completion by the peer.
\<close>

theorem deadline_ends_operation:
  assumes "bc_inv c" "bc_ec c \<noteq> None" "timeout > 0" "await (start_op opens timeout c) es = None"
  shows "\<exists>es'. (\<forall>ok. B_complete ok \<notin> set es') \<and> await (start_op opens timeout c) (es @ es') \<noteq> None"
proof -
  let ?c = "foldl bc_step (start_op opens timeout c) es"
  have "bc_inv ?c \<and> bc_ec ?c = None" using await_None_inv[OF assms(4) start_op_inv[OF assms(1,2)]] .
  moreover have "guarded ?c" using foldl_guarded[OF start_op_guarded[OF assms(3)]] .
  ultimately show ?thesis using guarded_returns await_append[OF assms(4)] by auto
qed

theorem deadline_ends_operation_witness:
  "\<exists>es'. (\<forall>ok. B_complete ok \<notin> set es') \<and>
    await (start_op True 300 (BlockingClient_new 5)) ([B_elapse 10, B_run] @ es') \<noteq> None"
  by (rule deadline_ends_operation[OF bc_new_inv])
    (simp_all add: start_op_def set_timeout_def BlockingClient_new_def check_deadline_def timer_simps timer_new_def
      posted_checks_def Let_def)

text \<open>
  (C38) The configured timeout is none. Every configuration has \<^verbatim>\<open>Sync_state_timeout_\<close> 0, so \<^verbatim>\<open>syncState\<close> connects without a
  deadline: as long as the peer does not complete the connection, \<^verbatim>\<open>Connect\<close>, and with it \<^verbatim>\<open>Join\<close>, never returns, however
  much time passes.
\<close>

theorem silent_peer_blocks:
  assumes "config_new addr = Some (Inr conf)" "\<forall>ok. B_complete ok \<notin> set es"
  shows "Connect True (sint (conf_Sync_state_timeout conf)) (BlockingClient_new now) es = None"
proof -
  have "conf_Sync_state_timeout conf = 0"
    using assms(1) by (auto simp: config_new_def split: option.splits if_splits sum.splits)
  moreover have "stuck (start_op True 0 (BlockingClient_new now))"
    by (simp add: stuck_def start_op_def set_timeout_def BlockingClient_new_def check_deadline_def timer_simps timer_new_def)
  ultimately show ?thesis using stuck_blocks[OF _ assms(2)] by (simp add: Connect_def)
qed

theorem silent_peer_blocks_witness:
  "\<exists>conf. config_new (''10.0.0.1'' @ '':'' @ to_string 7) = Some (Inr conf) \<and>
    Connect True (sint (conf_Sync_state_timeout conf)) (BlockingClient_new 0) [B_elapse 100000, B_fire, B_run, B_run] = None"
proof -
  obtain conf where "config_new (''10.0.0.1'' @ '':'' @ to_string 7) = Some (Inr conf)"
    using config_new_addr[of "''10.0.0.1''" 7] by auto
  with silent_peer_blocks[OF this, of "[B_elapse 100000, B_fire, B_run, B_run]" 0] show ?thesis by auto
qed

end
