(* ===== verification/Tcp_Client.thy ===== *)
theory Tcp_Client
  imports Asio "HOL-Library.Sublist"
begin

text \<open>
  \<^verbatim>\<open>class tcp::AsyncClient\<close> of \<^verbatim>\<open>src/src/network/tcp/async_client.hpp\<close>, with the queue of its \<^verbatim>\<open>io_service\<close>. The
  constructor connects to the endpoints of the resolved host one after the other, each with a
  deadline of a second; \<open>'p\<close> are the endpoints. As in the other clients the handler of the timer looks at the expiry
  time and not at its error code. \<open>ta_tried\<close> are the endpoints tried so far, the last one first.
\<close>

section \<open>The client\<close>

datatype 'p async_op = Connecting "'p list" | Writing_op | Reading_op

datatype 'p async_handler = On_timer | On_connect bool "'p list" | On_write bool | On_read bool

record 'p TcpAsyncClient =
  ta_now :: nat
  ta_stopped :: bool
  ta_open :: bool
  ta_deadline :: "unit steady_timer"
  ta_pending :: "'p async_op list"
  ta_queue :: "'p async_handler list"
  ta_tried :: "'p list"
  ta_connected :: "'p option"

fun op_handler :: "bool \<Rightarrow> 'p async_op \<Rightarrow> 'p async_handler" where
  "op_handler ok (Connecting eps) = On_connect ok eps"
| "op_handler ok Writing_op = On_write ok"
| "op_handler ok Reading_op = On_read ok"

definition post_timers :: "unit list \<Rightarrow> 'p TcpAsyncClient \<Rightarrow> 'p TcpAsyncClient" where
  "post_timers us c = c\<lparr>ta_queue := ta_queue c @ map (\<lambda>_. On_timer) us\<rparr>"

text \<open>\<^verbatim>\<open>socket_.close()\<close> ends the pending operations with an error.\<close>

definition close_socket :: "'p TcpAsyncClient \<Rightarrow> 'p TcpAsyncClient" where
  "close_socket c =
     c\<lparr>ta_open := False, ta_pending := [], ta_queue := ta_queue c @ map (op_handler False) (ta_pending c)\<rparr>"

definition cancel_timer :: "'p TcpAsyncClient \<Rightarrow> 'p TcpAsyncClient" where
  "cancel_timer c =
     (let (tm, posted) = timer_cancel (ta_deadline c) in post_timers posted (c\<lparr>ta_deadline := tm\<rparr>))"

definition async_Close :: "'p TcpAsyncClient \<Rightarrow> 'p TcpAsyncClient" where
  "async_Close c = cancel_timer (close_socket (c\<lparr>ta_stopped := True\<rparr>))"

definition arm_timer :: "int \<Rightarrow> 'p TcpAsyncClient \<Rightarrow> 'p TcpAsyncClient" where
  "arm_timer timeout c =
     (let (tm, posted) = expires_at (Some (nat (int (ta_now c) + timeout))) (ta_deadline c)
      in post_timers posted (c\<lparr>ta_deadline := async_wait () tm\<rparr>))"

definition startConnect :: "'p list \<Rightarrow> 'p TcpAsyncClient \<Rightarrow> 'p TcpAsyncClient" where
  "startConnect eps c =
     (case eps of
        [] \<Rightarrow> async_Close c
      | ep # _ \<Rightarrow>
          let c1 = arm_timer 1000 c
          in c1\<lparr>ta_open := True, ta_pending := ta_pending c1 @ [Connecting eps], ta_tried := ep # ta_tried c1\<rparr>)"

text \<open>\<^verbatim>\<open>connect\<close>, and the constructor; \<open>endpoints\<close> is what the resolver returns for the host.\<close>

definition tcp_connect :: "'p list \<Rightarrow> 'p TcpAsyncClient \<Rightarrow> 'p TcpAsyncClient" where
  [simp]: "tcp_connect endpoints c = startConnect endpoints c"

definition TcpAsyncClient_new :: "nat \<Rightarrow> 'p list \<Rightarrow> 'p TcpAsyncClient" where
  "TcpAsyncClient_new now endpoints =
     tcp_connect endpoints
       \<lparr>ta_now = now, ta_stopped = False, ta_open = False, ta_deadline = timer_new, ta_pending = [],
        ta_queue = [], ta_tried = [], ta_connected = None\<rparr>"

definition handleConnect :: "bool \<Rightarrow> 'p list \<Rightarrow> 'p TcpAsyncClient \<Rightarrow> 'p TcpAsyncClient" where
  "handleConnect ok eps c =
     (if ta_stopped c then c
      else if \<not> ta_open c then startConnect (tl eps) c
      else if \<not> ok then startConnect (tl eps) (close_socket c)
      else cancel_timer (c\<lparr>ta_connected := Some (hd eps)\<rparr>))"

text \<open>\<^verbatim>\<open>handleWrite\<close> and \<^verbatim>\<open>handleRead\<close> are the same.\<close>

definition handleIo :: "bool \<Rightarrow> 'p TcpAsyncClient \<Rightarrow> 'p TcpAsyncClient" where
  "handleIo ok c =
     (if ta_stopped c then c
      else let c1 = cancel_timer c in if ok then c1 else async_Close c1)"

definition tcp_checkDeadline :: "'p TcpAsyncClient \<Rightarrow> 'p TcpAsyncClient" where
  "tcp_checkDeadline c =
     (if ta_stopped c then c
      else if expired (ta_now c) (ta_deadline c) then close_socket c else c)"

definition start_io :: "'p async_op \<Rightarrow> int \<Rightarrow> 'p TcpAsyncClient \<Rightarrow> 'p TcpAsyncClient" where
  "start_io op timeout c =
     (let c1 = (if timeout \<noteq> 0 then arm_timer timeout c else c)
      in if ta_open c1 then c1\<lparr>ta_pending := ta_pending c1 @ [op]\<rparr>
         else c1\<lparr>ta_queue := ta_queue c1 @ [op_handler False op]\<rparr>)"

definition async_Write :: "int \<Rightarrow> 'p TcpAsyncClient \<Rightarrow> 'p TcpAsyncClient" where
  "async_Write timeout c = start_io Writing_op timeout c"

definition async_ReadFull :: "int \<Rightarrow> 'p TcpAsyncClient \<Rightarrow> 'p TcpAsyncClient" where
  "async_ReadFull timeout c = start_io Reading_op timeout c"

fun async_run :: "'p async_handler \<Rightarrow> 'p TcpAsyncClient \<Rightarrow> 'p TcpAsyncClient" where
  "async_run On_timer c = tcp_checkDeadline c"
| "async_run (On_connect ok eps) c = handleConnect ok eps c"
| "async_run (On_write ok) c = handleIo ok c"
| "async_run (On_read ok) c = handleIo ok c"

text \<open>Time and the operations of the socket go on, handlers run, and the user writes, reads and closes.\<close>

datatype async_event =
    A_elapse nat
  | A_fire
  | A_complete nat bool
  | A_run
  | A_write int
  | A_read int
  | A_close

definition drop_nth :: "nat \<Rightarrow> 'a list \<Rightarrow> 'a list" where
  "drop_nth i xs = take i xs @ drop (Suc i) xs"

fun async_step :: "'p TcpAsyncClient \<Rightarrow> async_event \<Rightarrow> 'p TcpAsyncClient result" where
  "async_step c (A_elapse d) = Inr (c\<lparr>ta_now := ta_now c + d\<rparr>)"
| "async_step c A_fire =
     (let (tm, posted) = timer_fire (ta_now c) (ta_deadline c)
      in Inr (post_timers posted (c\<lparr>ta_deadline := tm\<rparr>)))"
| "async_step c (A_complete i ok) =
     (if i < length (ta_pending c)
      then Inr (c\<lparr>ta_pending := drop_nth i (ta_pending c), ta_queue := ta_queue c @ [op_handler ok (ta_pending c ! i)]\<rparr>)
      else Inr c)"
| "async_step c A_run =
     (case ta_queue c of [] \<Rightarrow> Inr c | h # hs \<Rightarrow> Inr (async_run h (c\<lparr>ta_queue := hs\<rparr>)))"
| "async_step c (A_write timeout) = Inr (async_Write timeout c)"
| "async_step c (A_read timeout) = Inr (async_ReadFull timeout c)"
| "async_step c A_close = Inr (async_Close c)"

section \<open>The order of the attempts\<close>

text \<open>The endpoints of each attempt that has not been concluded.\<close>

definition attempts :: "'p TcpAsyncClient \<Rightarrow> 'p list list" where
  "attempts c =
     concat (map (\<lambda>op. case op of Connecting eps \<Rightarrow> [eps] | _ \<Rightarrow> []) (ta_pending c)) @
     concat (map (\<lambda>h. case h of On_connect _ eps \<Rightarrow> [eps] | _ \<Rightarrow> []) (ta_queue c))"

definition connect_inv :: "'p list \<Rightarrow> 'p TcpAsyncClient \<Rightarrow> bool" where
  "connect_inv endpoints c \<longleftrightarrow>
     (\<exists>rest. endpoints = rev (ta_tried c) @ rest \<and> length (attempts c) \<le> 1 \<and>
        (\<forall>eps \<in> set (attempts c). ta_tried c \<noteq> [] \<and> eps = hd (ta_tried c) # rest)) \<and>
     (\<forall>p. ta_connected c = Some p \<longrightarrow> ta_tried c \<noteq> [] \<and> p = hd (ta_tried c) \<and> attempts c = []) \<and>
     (ta_connected c = None \<and> \<not> ta_stopped c \<longrightarrow> attempts c \<noteq> []) \<and>
     (ta_stopped c \<longrightarrow> \<not> ta_open c \<and> ta_pending c = [])"

lemma op_handler_attempt: "(case op_handler ok op of On_connect _ eps \<Rightarrow> [eps] | _ \<Rightarrow> []) =
    (case op of Connecting eps \<Rightarrow> [eps] | _ \<Rightarrow> [])"
  by (cases op) simp_all

lemma attempts_frame [simp]:
  "attempts (post_timers us c) = attempts c"
  "attempts (c\<lparr>ta_deadline := tm\<rparr>) = attempts c" "attempts (c\<lparr>ta_stopped := b\<rparr>) = attempts c"
  "attempts (c\<lparr>ta_connected := p\<rparr>) = attempts c" "attempts (c\<lparr>ta_now := n\<rparr>) = attempts c"
  by (simp_all add: attempts_def post_timers_def o_def)

lemma attempts_close [simp]: "set (attempts (close_socket c)) = set (attempts c)" "length (attempts (close_socket c)) = length (attempts c)"
  by (auto simp: attempts_def close_socket_def o_def op_handler_attempt)

lemma attempts_close_Nil [simp]: "attempts (close_socket c) = [] \<longleftrightarrow> attempts c = []"
  using attempts_close(2)[of c] by (metis length_0_conv)

lemma post_timers_frame [simp]:
  "ta_tried (post_timers us c) = ta_tried c" "ta_connected (post_timers us c) = ta_connected c"
  "ta_stopped (post_timers us c) = ta_stopped c" "ta_open (post_timers us c) = ta_open c"
  "ta_pending (post_timers us c) = ta_pending c"
  by (simp_all add: post_timers_def)

lemma timer_frame [simp]:
  "attempts (cancel_timer c) = attempts c" "ta_tried (cancel_timer c) = ta_tried c" "ta_connected (cancel_timer c) = ta_connected c"
  "ta_stopped (cancel_timer c) = ta_stopped c" "ta_open (cancel_timer c) = ta_open c" "ta_pending (cancel_timer c) = ta_pending c"
  "attempts (arm_timer t c) = attempts c" "ta_tried (arm_timer t c) = ta_tried c" "ta_connected (arm_timer t c) = ta_connected c"
  "ta_stopped (arm_timer t c) = ta_stopped c" "ta_open (arm_timer t c) = ta_open c" "ta_pending (arm_timer t c) = ta_pending c"
  by (simp_all add: cancel_timer_def arm_timer_def timer_simps)

lemma close_frame [simp]:
  "ta_tried (close_socket c) = ta_tried c" "ta_connected (close_socket c) = ta_connected c"
  "ta_stopped (close_socket c) = ta_stopped c" "\<not> ta_open (close_socket c)" "ta_pending (close_socket c) = []"
  by (simp_all add: close_socket_def)

lemma connect_inv_same:
  assumes "connect_inv endpoints c" "set (attempts c') = set (attempts c)" "length (attempts c') = length (attempts c)"
    "ta_tried c' = ta_tried c" "ta_connected c' = ta_connected c" "ta_stopped c \<longrightarrow> ta_stopped c'"
    "ta_stopped c' \<longrightarrow> \<not> ta_open c' \<and> ta_pending c' = []"
  shows "connect_inv endpoints c'"
proof -
  have "attempts c' = [] \<longleftrightarrow> attempts c = []" using assms(2) by (metis set_empty)
  with assms have "ta_connected c' = None \<and> \<not> ta_stopped c' \<longrightarrow> attempts c' \<noteq> []" by (auto simp: connect_inv_def)
  with \<open>attempts c' = [] \<longleftrightarrow> attempts c = []\<close> assms show ?thesis by (simp add: connect_inv_def)
qed

lemma async_Close_inv: "connect_inv endpoints c \<Longrightarrow> connect_inv endpoints (async_Close c)"
  by (rule connect_inv_same[of _ c]) (simp_all add: async_Close_def)

lemma close_socket_inv: "connect_inv endpoints c \<Longrightarrow> connect_inv endpoints (close_socket c)"
  by (rule connect_inv_same[of _ c]) simp_all

lemma startConnect_inv:
  assumes "endpoints = rev (ta_tried c) @ rest" "attempts c = []"
    "ta_connected c = None" "\<not> ta_stopped c"
  shows "connect_inv endpoints (startConnect rest c)"
proof (cases rest)
  case Nil
  have "attempts (async_Close c) = []" using assms(2) by (simp add: async_Close_def)
  then show ?thesis using Nil assms by (simp add: startConnect_def connect_inv_def) (simp add: async_Close_def)
next
  case (Cons ep eps)
  have "attempts ((arm_timer 1000 c)\<lparr>ta_open := True, ta_pending := ta_pending (arm_timer 1000 c) @ [Connecting rest],
      ta_tried := ep # ta_tried (arm_timer 1000 c)\<rparr>) = [rest]"
    using timer_frame(7)[of 1000 c] assms(2) by (simp add: attempts_def del: concat_eq_Nil_conv)
  with Cons assms show ?thesis by (auto simp: startConnect_def connect_inv_def Let_def)
qed

lemma queue_attempts:
  assumes "ta_queue c = h # hs"
  shows "set (attempts c) = set (attempts (c\<lparr>ta_queue := hs\<rparr>)) \<union> (case h of On_connect _ eps \<Rightarrow> {eps} | _ \<Rightarrow> {})"
    "length (attempts c) = length (attempts (c\<lparr>ta_queue := hs\<rparr>)) + (case h of On_connect _ eps \<Rightarrow> 1 | _ \<Rightarrow> 0)"
  using assms by (cases h; auto simp: attempts_def)+

lemma handleConnect_inv:
  assumes "connect_inv endpoints c" "ta_queue c = On_connect ok eps # hs"
  shows "connect_inv endpoints (handleConnect ok eps (c\<lparr>ta_queue := hs\<rparr>))"
proof -
  let ?c = "c\<lparr>ta_queue := hs\<rparr>"
  note q = queue_attempts[OF assms(2)]
  have none: "attempts ?c = []" using q(2) assms(1) by (auto simp: connect_inv_def)
  obtain rest where r: "endpoints = rev (ta_tried c) @ rest" "ta_tried c \<noteq> []" "eps = hd (ta_tried c) # rest"
    using assms(1) q(1) by (auto simp: connect_inv_def)
  have "attempts c \<noteq> []" using q(1) by auto
  then have con: "ta_connected c = None" using assms(1) by (cases "ta_connected c") (auto simp: connect_inv_def)
  have stop: "ta_stopped c \<longrightarrow> \<not> ta_open c \<and> ta_pending c = []" using assms(1) by (simp_all add: connect_inv_def)
  have close: "attempts (close_socket ?c) = []" using none by simp
  have "connect_inv endpoints ?c" if "ta_stopped c" using r con stop none that by (auto simp: connect_inv_def)
  moreover have "connect_inv endpoints (startConnect rest ?c)" if "\<not> ta_stopped c"
    using startConnect_inv[of endpoints ?c rest] r(1) none con that by simp
  moreover have "connect_inv endpoints (startConnect rest (close_socket ?c))" if "\<not> ta_stopped c"
    using startConnect_inv[of endpoints "close_socket ?c" rest] r(1) close con that by simp
  moreover have "connect_inv endpoints (cancel_timer (?c\<lparr>ta_connected := Some (hd eps)\<rparr>))" if "\<not> ta_stopped c"
    using r none that by (auto simp: connect_inv_def)
  ultimately show ?thesis using r(3) by (simp add: handleConnect_def)
qed

lemma start_io_inv:
  assumes "connect_inv endpoints c" "op = Writing_op \<or> op = Reading_op"
  shows "connect_inv endpoints (start_io op timeout c)"
proof -
  let ?c = "if timeout \<noteq> 0 then arm_timer timeout c else c"
  have "attempts (start_io op timeout c) = attempts ?c"
    using assms(2) by (auto simp: start_io_def attempts_def Let_def)
  then have "attempts (start_io op timeout c) = attempts c" by simp
  with assms(1) show ?thesis
    by (intro connect_inv_same[OF assms(1)]) (auto simp: start_io_def Let_def connect_inv_def)
qed

lemma complete_attempts:
  assumes "i < length (ta_pending c)"
  shows "set (attempts (c\<lparr>ta_pending := drop_nth i (ta_pending c), ta_queue := ta_queue c @ [op_handler ok (ta_pending c ! i)]\<rparr>)) =
      set (attempts c)"
    "length (attempts (c\<lparr>ta_pending := drop_nth i (ta_pending c), ta_queue := ta_queue c @ [op_handler ok (ta_pending c ! i)]\<rparr>)) =
      length (attempts c)"
proof -
  have p: "ta_pending c = take i (ta_pending c) @ ta_pending c ! i # drop (Suc i) (ta_pending c)"
    using assms by (rule id_take_nth_drop)
  let ?f = "\<lambda>op :: 'a async_op. case op of Connecting eps \<Rightarrow> [eps] | _ \<Rightarrow> []"
  have "concat (map ?f (ta_pending c)) =
      concat (map ?f (take i (ta_pending c))) @ ?f (ta_pending c ! i) @ concat (map ?f (drop (Suc i) (ta_pending c)))"
    by (subst p) simp
  then show "set (attempts (c\<lparr>ta_pending := drop_nth i (ta_pending c), ta_queue := ta_queue c @ [op_handler ok (ta_pending c ! i)]\<rparr>)) =
      set (attempts c)"
    "length (attempts (c\<lparr>ta_pending := drop_nth i (ta_pending c), ta_queue := ta_queue c @ [op_handler ok (ta_pending c ! i)]\<rparr>)) =
      length (attempts c)"
    by (simp_all only: attempts_def) (auto simp: drop_nth_def op_handler_attempt)
qed

lemma async_step_inv:
  assumes "connect_inv endpoints c" "async_step c e = Inr c'"
  shows "connect_inv endpoints c'"
proof (cases e)
  case (A_complete i ok)
  show ?thesis
  proof (cases "i < length (ta_pending c)")
    case True
    let ?c = "c\<lparr>ta_pending := drop_nth i (ta_pending c), ta_queue := ta_queue c @ [op_handler ok (ta_pending c ! i)]\<rparr>"
    have "c' = ?c" using assms(2) A_complete True by simp
    moreover have "connect_inv endpoints ?c"
      using complete_attempts[OF True] assms(1) True by (intro connect_inv_same[OF assms(1)]) (auto simp: connect_inv_def)
    ultimately show ?thesis by simp
  qed (use assms A_complete in simp)
next
  case A_run
  show ?thesis
  proof (cases "ta_queue c")
    case (Cons h hs)
    let ?c = "c\<lparr>ta_queue := hs\<rparr>"
    have c': "c' = async_run h ?c" using assms(2) A_run Cons by simp
    show ?thesis
    proof (cases h)
      case (On_connect ok eps)
      then show ?thesis using c' handleConnect_inv[OF assms(1), of ok eps hs] Cons by simp
    next
      case On_timer
      then have "connect_inv endpoints ?c"
        using assms(1) queue_attempts[OF Cons] by (intro connect_inv_same[OF assms(1)]) (auto simp: connect_inv_def)
      then show ?thesis using c' On_timer close_socket_inv by (auto simp: tcp_checkDeadline_def)
    next
      case (On_write ok)
      then have i: "connect_inv endpoints ?c"
        using assms(1) queue_attempts[OF Cons] by (intro connect_inv_same[OF assms(1)]) (auto simp: connect_inv_def)
      have "connect_inv endpoints (cancel_timer ?c)" by (rule connect_inv_same[OF i]) (use i in \<open>auto simp: connect_inv_def\<close>)
      then show ?thesis using c' On_write i async_Close_inv by (auto simp: handleIo_def Let_def)
    next
      case (On_read ok)
      then have i: "connect_inv endpoints ?c"
        using assms(1) queue_attempts[OF Cons] by (intro connect_inv_same[OF assms(1)]) (auto simp: connect_inv_def)
      have "connect_inv endpoints (cancel_timer ?c)" by (rule connect_inv_same[OF i]) (use i in \<open>auto simp: connect_inv_def\<close>)
      then show ?thesis using c' On_read i async_Close_inv by (auto simp: handleIo_def Let_def)
    qed
  qed (use assms A_run in simp)
next
  case A_fire
  with assms(2) have "c' = post_timers (snd (timer_fire (ta_now c) (ta_deadline c)))
      (c\<lparr>ta_deadline := fst (timer_fire (ta_now c) (ta_deadline c))\<rparr>)" by (simp split: prod.splits)
  then show ?thesis using assms(1) by (simp add: connect_inv_def)
next
  case (A_elapse d)
  with assms show ?thesis by (auto simp: connect_inv_def)
qed (use assms in \<open>auto simp: async_Write_def async_ReadFull_def async_Close_inv start_io_inv\<close>)

interpretation connecting: fallible_machine async_step "connect_inv endpoints" "\<lambda>_. True" for endpoints
  by standard (rule async_step_inv)

lemma connect_inv_attempts:
  assumes "connect_inv endpoints c" "ta_connected c = None" "\<not> ta_stopped c"
  shows "ta_tried c \<noteq> [] \<and> attempts c = [drop (length (ta_tried c) - 1) endpoints]"
proof -
  obtain rest where r: "endpoints = rev (ta_tried c) @ rest" "length (attempts c) \<le> 1"
    "\<forall>eps \<in> set (attempts c). ta_tried c \<noteq> [] \<and> eps = hd (ta_tried c) # rest" "attempts c \<noteq> []"
    using assms by (auto simp: connect_inv_def)
  then obtain eps where eps: "attempts c = [eps]" by (cases "attempts c") auto
  with r(3) have "ta_tried c \<noteq> []" "eps = hd (ta_tried c) # rest" by simp_all
  moreover have "drop (length (ta_tried c) - 1) endpoints = hd (ta_tried c) # rest" if "ta_tried c \<noteq> []"
    using that r(1) by (cases "ta_tried c") simp_all
  ultimately show ?thesis using eps by simp
qed

section \<open>A client nobody uses\<close>

text \<open>The events other than calls by the user; without these the client stops only when no endpoint is left.\<close>

fun by_user :: "async_event \<Rightarrow> bool" where
  "by_user (A_write _) \<longleftrightarrow> True"
| "by_user (A_read _) \<longleftrightarrow> True"
| "by_user A_close \<longleftrightarrow> True"
| "by_user _ \<longleftrightarrow> False"

fun connects :: "'p async_op \<Rightarrow> bool" where
  "connects (Connecting _) \<longleftrightarrow> True"
| "connects _ \<longleftrightarrow> False"

fun connecting_handler :: "'p async_handler \<Rightarrow> bool" where
  "connecting_handler On_timer \<longleftrightarrow> True"
| "connecting_handler (On_connect _ _) \<longleftrightarrow> True"
| "connecting_handler _ \<longleftrightarrow> False"

definition unused_inv :: "'p list \<Rightarrow> 'p TcpAsyncClient \<Rightarrow> bool" where
  "unused_inv endpoints c \<longleftrightarrow> connect_inv endpoints c \<and> list_all connects (ta_pending c) \<and>
     list_all connecting_handler (ta_queue c) \<and> (ta_stopped c \<longrightarrow> rev (ta_tried c) = endpoints)"

lemma connecting_op_handler [simp]: "connecting_handler (op_handler ok op) \<longleftrightarrow> connects op"
  by (cases op) simp_all

lemma connecting_frame [simp]:
  "list_all connecting_handler (ta_queue (post_timers us c)) \<longleftrightarrow> list_all connecting_handler (ta_queue c)"
  "list_all connecting_handler (ta_queue (cancel_timer c)) \<longleftrightarrow> list_all connecting_handler (ta_queue c)"
  "list_all connecting_handler (ta_queue (arm_timer t c)) \<longleftrightarrow> list_all connecting_handler (ta_queue c)"
  "list_all connecting_handler (ta_queue (close_socket c)) \<longleftrightarrow>
     list_all connecting_handler (ta_queue c) \<and> list_all connects (ta_pending c)"
  by (auto simp: post_timers_def cancel_timer_def arm_timer_def close_socket_def list.pred_map o_def list_all_iff[of "\<lambda>_. True"] split: prod.splits)

lemma async_Close_frame [simp]:
  "ta_tried (async_Close c) = ta_tried c" "ta_pending (async_Close c) = []" "ta_stopped (async_Close c)"
  "list_all connecting_handler (ta_queue (async_Close c)) \<longleftrightarrow>
     list_all connecting_handler (ta_queue c) \<and> list_all connects (ta_pending c)"
  by (simp_all add: async_Close_def)

lemma startConnect_unused:
  assumes "list_all connects (ta_pending c)" "list_all connecting_handler (ta_queue c)" "\<not> ta_stopped c"
    "endpoints = rev (ta_tried c) @ rest"
  shows "list_all connects (ta_pending (startConnect rest c)) \<and> list_all connecting_handler (ta_queue (startConnect rest c)) \<and>
    (ta_stopped (startConnect rest c) \<longrightarrow> rev (ta_tried (startConnect rest c)) = endpoints)"
  using assms by (cases rest) (auto simp: startConnect_def Let_def)

lemma handleConnect_unused:
  assumes inv: "connect_inv endpoints c" "ta_queue c = On_connect ok eps # hs" and "list_all connects (ta_pending c)"
    "list_all connecting_handler hs" "ta_stopped c \<longrightarrow> rev (ta_tried c) = endpoints"
  shows "unused_inv endpoints (handleConnect ok eps (c\<lparr>ta_queue := hs\<rparr>))"
proof -
  let ?c = "c\<lparr>ta_queue := hs\<rparr>"
  have "eps \<in> set (attempts c)" using queue_attempts(1)[OF inv(2)] by simp
  with inv(1) obtain rest where r: "endpoints = rev (ta_tried c) @ rest" "eps = hd (ta_tried c) # rest"
    by (auto simp: connect_inv_def)
  have "list_all connects (ta_pending (startConnect rest d)) \<and> list_all connecting_handler (ta_queue (startConnect rest d)) \<and>
      (ta_stopped (startConnect rest d) \<longrightarrow> rev (ta_tried (startConnect rest d)) = endpoints)"
    if "d = ?c \<or> d = close_socket ?c" "\<not> ta_stopped c" for d
    using startConnect_unused[of d endpoints rest] that r(1) assms(3,4) by auto
  then show ?thesis
    using handleConnect_inv[OF inv] assms(3-5) r(2)
    by (cases "ta_stopped c"; cases "ta_open c"; cases ok) (simp_all add: unused_inv_def handleConnect_def)
qed

lemma unused_step:
  assumes "unused_inv endpoints c" "async_step c e = Inr c'" "\<not> by_user e"
  shows "unused_inv endpoints c'"
proof -
  have inv: "connect_inv endpoints c'" using async_step_inv assms(1,2) by (auto simp: unused_inv_def)
  show ?thesis
  proof (cases e)
    case (A_complete i ok)
    have "list_all connects (drop_nth i (ta_pending c))"
      using assms(1) by (auto simp: unused_inv_def drop_nth_def list_all_iff dest: in_set_takeD in_set_dropD)
    then show ?thesis
      using assms A_complete inv by (auto simp: unused_inv_def list_all_iff[of connects] split: if_splits)
  next
    case A_run
    show ?thesis
    proof (cases "ta_queue c")
      case (Cons h hs)
      then have h: "connecting_handler h" and hs: "list_all connecting_handler hs" using assms(1) by (auto simp: unused_inv_def)
      have c': "c' = async_run h (c\<lparr>ta_queue := hs\<rparr>)" using assms(2) A_run Cons by simp
      show ?thesis
      proof (cases h)
        case (On_connect ok eps)
        with c' Cons hs assms(1) show ?thesis
          using handleConnect_unused[of endpoints c ok eps hs] by (simp add: unused_inv_def)
      next
        case On_timer
        with c' hs assms(1) inv show ?thesis by (auto simp: unused_inv_def tcp_checkDeadline_def)
      qed (use h in simp_all)
    qed (use assms A_run in simp)
  next
    case A_fire
    then have "c' = post_timers (snd (timer_fire (ta_now c) (ta_deadline c)))
        (c\<lparr>ta_deadline := fst (timer_fire (ta_now c) (ta_deadline c))\<rparr>)" using assms(2) by (simp split: prod.splits)
    with inv assms(1) show ?thesis by (simp add: unused_inv_def)
  qed (use assms inv in \<open>auto simp: unused_inv_def\<close>)
qed

interpretation unused: fallible_machine async_step "unused_inv endpoints" "\<lambda>e. \<not> by_user e" for endpoints
  by standard (rule unused_step)

lemma unused_new:
  "unused_inv endpoints (TcpAsyncClient_new now endpoints)"
  unfolding unused_inv_def TcpAsyncClient_new_def tcp_connect_def
  using startConnect_unused[of "\<lparr>ta_now = now, ta_stopped = False, ta_open = False, ta_deadline = timer_new,
      ta_pending = [], ta_queue = [], ta_tried = [], ta_connected = None\<rparr>" endpoints endpoints]
  by (intro conjI startConnect_inv) (simp_all add: attempts_def)

section \<open>Properties\<close>

text \<open>
  (C33) The asynchronous client tries the endpoints of its host one after the other. In every run, with any
  writes, reads and a close by the user in it, the endpoints tried are a prefix of the resolved ones,
  in order and without repetition of an attempt. It goes on until one connects: a client that is neither connected nor
  stopped has exactly one attempt under way, with the endpoint tried last and those that are left. It goes no further: the
  endpoint of a connected client is the one tried last and no attempt is under way. A stopped client has its socket
  closed and nothing pending, and if the user has not called it, it has stopped because it has tried them all.
\<close>

theorem connect_in_order:
  assumes "rfold async_step (TcpAsyncClient_new now endpoints) es = Inr c"
  shows "prefix (rev (ta_tried c)) endpoints \<and>
    (ta_connected c = None \<and> \<not> ta_stopped c \<longrightarrow>
       ta_tried c \<noteq> [] \<and> attempts c = [drop (length (ta_tried c) - 1) endpoints]) \<and>
    (\<forall>p. ta_connected c = Some p \<longrightarrow> ta_tried c \<noteq> [] \<and> p = hd (ta_tried c) \<and> attempts c = []) \<and>
    (ta_stopped c \<longrightarrow> \<not> ta_open c \<and> ta_pending c = [] \<and> ((\<forall>e \<in> set es. \<not> by_user e) \<longrightarrow> rev (ta_tried c) = endpoints))"
proof -
  have "connect_inv endpoints (TcpAsyncClient_new now endpoints)"
    using unused_new[of endpoints now] by (simp add: unused_inv_def)
  then have "connect_inv endpoints c" using connecting.run_inv assms by (blast intro: list_all_iff[THEN iffD2])
  note inv = this
  from inv have "prefix (rev (ta_tried c)) endpoints" by (auto simp: connect_inv_def intro: prefixI)
  moreover from inv have "(\<forall>p. ta_connected c = Some p \<longrightarrow> ta_tried c \<noteq> [] \<and> p = hd (ta_tried c) \<and> attempts c = []) \<and>
      (ta_stopped c \<longrightarrow> \<not> ta_open c \<and> ta_pending c = [])" by (simp add: connect_inv_def)
  moreover have "rev (ta_tried c) = endpoints" if "ta_stopped c" "\<forall>e \<in> set es. \<not> by_user e"
    using unused.run_inv[OF unused_new _ assms] that by (simp add: unused_inv_def list_all_iff)
  ultimately show ?thesis using connect_inv_attempts[OF inv] by blast
qed

theorem connect_in_order_witness:
  "\<exists>c. rfold async_step (TcpAsyncClient_new 0 [10, 20, 30 :: nat])
      [A_complete 0 False, A_run, A_elapse 1000, A_fire, A_run, A_run, A_run, A_complete 0 True, A_run, A_run] = Inr c \<and>
    ta_connected c = Some 30 \<and> ta_tried c = [30, 20, 10] \<and> attempts c = []"
proof -
  obtain c where c: "rfold async_step (TcpAsyncClient_new 0 [10, 20, 30 :: nat])
      [A_complete 0 False, A_run, A_elapse 1000, A_fire, A_run, A_run, A_run, A_complete 0 True, A_run, A_run] = Inr c"
    "ta_connected c = Some 30" "ta_tried c = [30, 20, 10]"
    by (simp add: TcpAsyncClient_new_def startConnect_def arm_timer_def timer_simps post_timers_def timer_new_def
        drop_nth_def handleConnect_def close_socket_def tcp_checkDeadline_def cancel_timer_def Let_def)
  from connect_in_order[OF c(1)] c show ?thesis by blast
qed

end
