(* ===== verification/Spec2Isabelle.thy ===== *)
theory Spec2Isabelle
  imports Agreement Joining Flat_Verifier Echo Blocking Tcp_Client
begin

text \<open>
  A verification library of \<^verbatim>\<open>cpp_gossip\<close>, a header-only C++ implementation of a gossip membership protocol in
  the style of SWIM.

  \<^bold>\<open>The program.\<close> A member (\<^verbatim>\<open>class gossiper\<close>, \<^verbatim>\<open>src/src/gossiper.hpp\<close>) keeps a table of node states, each with a
  dominant (an incarnation number) and one of the states ALIVE, SUSPECT and DEAD. It learns them in three
  ways: by synchronising its table over TCP when it joins (\<^verbatim>\<open>Join\<close>, \<^verbatim>\<open>syncState\<close>, answered by
  \<^verbatim>\<open>handleBody\<close>), from the messages appended to pings over UDP (\<^verbatim>\<open>generatePing\<close>, \<^verbatim>\<open>handlePacket\<close>), and from its own
  failure detector (\<^verbatim>\<open>probe\<close>, a timeout of which calls \<^verbatim>\<open>suspectNode\<close>). News is queued in a
  \<^verbatim>\<open>BroadcastQueue\<close> that charges each message a number of transmissions. A member that hears of its own death
  objects with a higher dominant (\<^verbatim>\<open>fuckyou\<close>). All handlers run on one \<^verbatim>\<open>io_service\<close>, which
  \<^verbatim>\<open>HybridRunner\<close> owns together with the servers and tickers.

  \<^bold>\<open>Which theory models what.\<close> The theories follow the files of the program, from the bottom up.
  \<^item> \<open>Prelude\<close>: machine integers, faults, results, and the locales of machines with an
    invariant, without faults, and with a progress relation, which every state machine below interprets.
  \<^item> \<open>Umap\<close>: \<^verbatim>\<open>std::unordered_map\<close> as the code uses it, its iteration order a parameter. \<open>Ceil_Log\<close>: rounded
    logarithms. \<open>Bytes\<close>: bytes of words and bounded buffers. \<open>Utils\<close>: \<^verbatim>\<open>Split\<close> and the conversions of
    numbers. \<open>Config\<close>, \<open>Node\<close>, \<open>Header\<close>: \<^verbatim>\<open>config.hpp\<close>, \<^verbatim>\<open>node.hpp\<close>, \<^verbatim>\<open>message/header.hpp\<close>.
  \<^item> \<open>Broadcast\<close>: \<^verbatim>\<open>broadcast.hpp\<close>, with the iterators \<^verbatim>\<open>cur_\<close> and \<^verbatim>\<open>peek_\<close> as keys that can dangle; and once more with the rule
    of the standard that a rehash invalidates them.
  \<^item> \<open>Message\<close>, \<open>Flat_Vector\<close>, \<open>Flat_Builder\<close>, \<open>Flat_Layout\<close>, \<open>Flat_Reader\<close>, \<open>Flat_Messages\<close>, \<open>Codec\<close>: the messages of
    \<^verbatim>\<open>message_generated.h\<close> and the part of \<^verbatim>\<open>flatbuffers.h\<close> that writes and reads them, byte for byte. \<open>Flat_Verifier\<close>: the
    verification of received messages, which both provide and the program does not call.
  \<^item> \<open>Suspicion\<close>, \<open>Gossiper\<close>: \<^verbatim>\<open>suspicion.hpp\<close> and the operations of \<^verbatim>\<open>class gossiper\<close> on its state.
    \<open>Gossiper_Inv\<close>, \<open>Member\<close>, \<open>Detection\<close>, \<open>Agreement\<close>: what a member does in every run.
  \<^item> \<open>Packets\<close>, \<open>Exchange\<close>: pings, pongs and synchronisation as buffers, and what an exchange of packets between
    two members achieves.
  \<^item> \<open>Held\<close>: what holds of every node state a member holds. \<open>Cluster\<close>: any number of members on a network that
    loses, repeats and reorders what they send. A step is one handler of one member; runs are the reflexive transitive
    closure of the step relation, which has more runs than the program. \<open>Calm\<close>: no SUSPECT message ever exists there.
  \<^item> \<open>Network\<close>: the same with packets, that is, members whose handlers read and write the bytes of datagrams, requests and
    responses, on hosts of any byte order. It refines \<open>Cluster\<close>.
  \<^item> \<open>Asio\<close>: the steady timer of asio. \<open>Tcp_Runner\<close>, \<open>Udp_Runner\<close>: the servers of \<^verbatim>\<open>network/*/runner.hpp\<close>.
    \<open>Udp_Client\<close>, \<open>Tcp_Client\<close>, \<open>Blocking\<close>: the clients of \<^verbatim>\<open>network/*/async_client.hpp\<close> and
    \<^verbatim>\<open>blocking_client.hpp\<close>. \<open>Ticker\<close>: \<^verbatim>\<open>ticker.hpp\<close>.
  \<^item> \<open>Sync\<close>: the member behind its TCP server, and \<^verbatim>\<open>Join\<close>. \<open>Hybrid\<close>: \<^verbatim>\<open>hybrid_runner.hpp\<close>, the whole node.
    \<open>Program\<close>: \<^verbatim>\<open>main\<close> of \<^verbatim>\<open>src/examples/main.cpp\<close>. \<open>Echo\<close>: \<^verbatim>\<open>src/examples/timer.cpp\<close>.
  \<^item> \<open>System\<close>: any number of such nodes, each on its own host and with all its parts; a step is the start of a node, the end of its
    \<^verbatim>\<open>Join\<close>, or one event of one node. \<open>Composition\<close>: it refines \<open>Network\<close>. \<open>Immunity\<close>: which events fault. \<open>Joining\<close>: how a node
    is let in, and the theorems on systems.

  \<^bold>\<open>How code became definitions.\<close> An object is a record of its members, an operation a function from the
  state to the next one. What the code can only do wrong is a value of \<open>fault\<close>, and a fallible operation
  returns a result: null dereferences, accesses out of bounds, uses of freed objects and dangling iterators,
  reads of indeterminate values, exceptions that are not caught, calls of \<^verbatim>\<open>std::terminate\<close>.
  \<^verbatim>\<open>uint32_t\<close>, \<^verbatim>\<open>uint64_t\<close> and \<^verbatim>\<open>short\<close> are words and wrap around. Asynchronous code is a step
  function over events: a datagram arrives, a read completes or fails, time passes, the timer fires, a
  handler of the queue runs. A step runs one handler to its end, as one thread does; steps come in any order.
  What C++ leaves open is a parameter: the byte order of the host, the order in which arguments are evaluated, the
  iteration order of hash tables, and what uninitialised, freed or dead memory reads as.

  \<^bold>\<open>Dead memory.\<close> The code reads memory after the end of its lifetime in five places, all of them undefined behaviour and
  among the findings. The model gives each read a value and makes that value a parameter:
  \<^item> the local that \<^verbatim>\<open>convert\<close> returns a reference to (\<^verbatim>\<open>gossiper.hpp\<close>, line 458): \<open>moved\<close>, the first argument of \<open>mergeStates\<close>,
    \<open>handlePacket\<close>, \<open>handleBody\<close>, \<open>sync_response\<close>, \<open>Join\<close> and \<open>member_serves\<close>, and \<open>ho_moved\<close> of a host;
  \<^item> the builder of an answer (lines 685 and 701, read at 716): \<open>freed\<close>, \<open>ho_freed\<close>;
  \<^item> the send buffer of a ping on the stack (line 340): \<open>ho_stack\<close>;
  \<^item> the header of a session (\<^verbatim>\<open>network/tcp/runner.hpp\<close>, line 58): \<open>reread\<close>, \<open>ho_reread\<close>;
  \<^item> the message that a conviction copies (\<^verbatim>\<open>gossiper.hpp\<close>, line 232): the field \<open>g_reread\<close>.

  The theorems on one member and on one whole node (\<open>Member\<close>, \<open>Detection\<close>, \<open>Program\<close>) hold for all values of these
  parameters. The theorems on what members tell each other (encodings, exchanges, clusters, networks, systems) are about
  runs in which the values are intact: \<open>id\<close>, \<open>(!)\<close>, or \<open>host_ok\<close>; they claim nothing about programs in which that memory has been reused,
  and none of them claims that the code is free of undefined behaviour.

  \<^bold>\<open>What is shown.\<close>
  \<^item> Broadcast queue: \<^verbatim>\<open>Pop\<close> is a rotation; rounds of peeking, whether committed or given up, never touch a dangling
    iterator as long as the table need not grow, and always do after that, by the standard; every message goes out as often as its counter says; the queue keeps the newest message on each node.
  \<^item> Encoding: states, pings, pongs and headers survive the way over the wire, on hosts of any byte order; what passes the
    verification can be read, and what is sent passes it.
  \<^item> Member: join and leave notifications are an exact change log of the alive nodes; the node list is exact; no
    knowledge is lost; the three ways a step can go wrong are named, and every other step does not depend on dead memory; objections win unless the dominant overflows.
  \<^item> Agreement: the handlers refine a small machine on table entries; one round of news in different orders can leave
    two members in disagreement, two rounds cannot.
  \<^item> Cluster: nothing is invented, that is, each entry of each table repeats what its node has once said of itself.
  \<^item> Packets: members that exchange bytes are simulated by the cluster, and no packet that a member sends drives another one
    out of bounds, as long as names and addresses leave room in the buffers and dead memory reads as it was left.
  \<^item> Exchanges: a ping fits its buffer and its receiver merges just the appended messages; a false death is refuted
    in one exchange; synchronising over TCP is merging the two tables into each other; \<^verbatim>\<open>Join\<close> works.
  \<^item> Servers and clients: a session serves once and ends; probes call each callback at most once; tickers keep the
    interval they were given; a timeout bounds every blocking operation; endpoints are tried in order until one connects, and
    no further; the example server echoes.
  \<^item> Whole node: in every interleaving of traffic, ticks and timers all of this state stays well-formed, and the tickers keep
    the intervals of the configuration.
  \<^item> Systems of whole nodes: they implement the cluster, down from the sessions, buffers and timers of each node; as long as
    dead memory reads as it was left, nothing that one
    node sends drives another one out of bounds, in whatever state its sessions, servers and probes are, so that the only faults left are
    those of a node's own timers and probes; and a node that waits in \<^verbatim>\<open>Join\<close> can always be let in.
  \<^item> Defects: theorems with a fault or an undesired run as conclusion pin down where the code does not do what it means
    to, among them the node count that reaches 0, the dangling suspicion timer, the answered
    probe that times out, the ticker that cannot be stopped, \<^verbatim>\<open>Join\<close> on a silent peer, and the four bytes that crash
    a member.

  \<^bold>\<open>Bounds and fuel.\<close> Loops are structural recursions or have a measure, but for \<^verbatim>\<open>Split\<close>, which is a partial function
  because it need not return. \<open>serve\<close> runs a TCP session for a number of completions; a session ends after at
  most three, which is what \<open>member_serves\<close> gives it. \<open>await\<close> runs over the events that are given and is \<open>None\<close> when
  they do not end the operation. Buffers have the sizes of the code: 1460 bytes for a datagram, 65536 for
  a session. A flatbuffer stays below 2 GB, the limit its assertion states.

  \<^bold>\<open>Not modelled.\<close> More than one thread (the locks of \<^verbatim>\<open>gossiper\<close> are left out; the examples run one
  thread); the memory of objects, except where a freed or dead one is read; the
  buckets of hash tables, except for the rule of invalidation in \<open>Broadcast\<close>; the addresses of peers in \<open>System\<close>, where any node that runs may
  answer a \<^verbatim>\<open>Join\<close>; sockets beyond the completion of their
  operations; logging and printing, among them \<^verbatim>\<open>gossip\<close> and \<^verbatim>\<open>printNodeState\<close>; \<^verbatim>\<open>network/udp/broadcast.hpp\<close>, which no
  file includes and which does not compile; the parts of \<^verbatim>\<open>flatbuffers.h\<close> that the program does not call; asio
  and spdlog, except the timer.
\<close>

end
